(* ===== verification/Prelude.thy ===== *)
theory Prelude
  imports Main "HOL-Library.Word"
begin

unbundle bit_operations_syntax

text \<open>
  Shared vocabulary of the BadOS-64 development: the machine integer types of
  src/src/common.h, results that may panic or fault, byte-addressed memory with
  little-endian loads and stores (x86-64), and the generic lemmas on words, lists and
  memory that the component theories use.
\<close>

subsection \<open>Machine integers (common.h) and results\<close>

type_synonym u8 = "8 word"
type_synonym u16 = "16 word"
type_synonym u32 = "32 word"
type_synonym u64 = "64 word"

text \<open>
  Every way a kernel function can fail to return normally: \<open>Panic\<close> is a call of
  \<open>panic()\<close> in panic.c, which stops the machine. A \<open>Fault\<close> is a trap or undefined
  behaviour the C code reaches; keeping it as a value makes "does not fault" a
  theorem.
\<close>

datatype fault =
    NullDeref
  | BadPointer u64
  | OutOfBounds
  | DivByZero
  | Diverges

datatype kerr = Panic string | Fault fault

type_synonym 'a res = "kerr + 'a"

fun bind_res :: "'a res \<Rightarrow> ('a \<Rightarrow> 'b res) \<Rightarrow> 'b res" where
  "bind_res (Inl e) f = Inl e"
| "bind_res (Inr x) f = f x"

named_theorems res_simps \<open>evaluation of results that may fail\<close>
named_theorems mem_simps \<open>loads from memory after stores\<close>
named_theorems layout \<open>struct offsets and object sizes\<close>

lemma bind_res_Inr_iff [res_simps]:
  "bind_res m f = Inr y \<longleftrightarrow> (\<exists>x. m = Inr x \<and> f x = Inr y)"
  by (cases m) auto

lemma bind_res_Inl_iff:
  "bind_res m f = Inl e \<longleftrightarrow> m = Inl e \<or> (\<exists>x. m = Inr x \<and> f x = Inl e)"
  by (cases m) auto

lemma bind_res_assoc: "bind_res (bind_res m f) g = bind_res m (\<lambda>x. bind_res (f x) g)"
  by (cases m) auto

lemma bind_res_return [simp]: "bind_res m Inr = m"
  by (cases m) auto

lemma bind_res_cong [fundef_cong]:
  "m = m' \<Longrightarrow> (\<And>x. m' = Inr x \<Longrightarrow> f x = f' x) \<Longrightarrow> bind_res m f = bind_res m' f'"
  by (cases m') auto

subsection \<open>Words\<close>

lemma unat_less_2p [simp]: "unat (x :: 'a::len word) < 2 ^ LENGTH('a)"
  by (rule unsigned_less)

lemma unat_Suc_less [simp]: "i < n \<Longrightarrow> unat (i + 1) = Suc (unat i)" for i n :: "'a::len word"
proof -
  assume "i < n"
  then have "Suc (unat i) < 2 ^ LENGTH('a)"
    using unat_less_2p [of n] unfolding word_less_nat_alt by linarith
  then show ?thesis by (simp add: unat_word_ariths)
qed

lemma unat_pred [simp]: "x \<noteq> 0 \<Longrightarrow> unat (x - 1) = unat x - 1" for x :: "'a::len word"
  by (rule unat_minus_one)

lemma unat_of_nat_small: "n < 2 ^ LENGTH('a) \<Longrightarrow> unat (of_nat n :: 'a::len word) = n"
  by (simp add: unat_of_nat take_bit_nat_eq_self)

lemma unat_offset:
  fixes a :: "'a::len word"
  assumes "i < 2 ^ LENGTH('a)"
  shows "unat (a + of_nat i - a) = i"
  using assms by (simp add: unat_of_nat_small)

lemma of_nat_unat_offset: "a + of_nat (unat (x - a)) = x" for a x :: "'a::len word"
  by simp

subsection \<open>Splitting and joining little-endian bytes\<close>

definition byte_at :: "'a::len word \<Rightarrow> nat \<Rightarrow> u8" where
  "byte_at w i = ucast (drop_bit (8 * i) w)"

definition split_le :: "nat \<Rightarrow> 'a::len word \<Rightarrow> u8 list" where
  "split_le n w = map (byte_at w) [0..<n]"

fun join_le :: "u8 list \<Rightarrow> 'a::len word" where
  "join_le [] = 0"
| "join_le (b # bs) = ucast b OR push_bit 8 (join_le bs)"

lemma length_split_le [simp]: "length (split_le n w) = n"
  by (simp add: split_le_def)

lemma nth_split_le [simp]: "i < n \<Longrightarrow> split_le n w ! i = byte_at w i"
  by (simp add: split_le_def)

lemma bit_byte_at: "bit (byte_at w i) k \<longleftrightarrow> k < 8 \<and> bit w (8 * i + k)"
  by (auto simp: byte_at_def bit_ucast_iff bit_drop_bit_eq)

lemma bit_join_le:
  "bit (join_le bs :: 'a::len word) k \<longleftrightarrow>
     k < LENGTH('a) \<and> k div 8 < length bs \<and> bit (bs ! (k div 8)) (k mod 8)"
proof (induction bs arbitrary: k)
  case Nil
  then show ?case by simp
next
  case (Cons b bs)
  show ?case
  proof (cases "k < 8")
    case True
    then show ?thesis
      by (auto simp: bit_or_iff bit_ucast_iff bit_push_bit_iff)
  next
    case False
    then have k: "k div 8 = Suc ((k - 8) div 8)" "k mod 8 = (k - 8) mod 8"
      by (simp_all add: le_div_geq le_mod_geq)
    have "\<not> bit b k"
      using False bit_imp_le_length [of b k] by auto
    with False k Cons.IH [of "k - 8"] show ?thesis
      by (auto simp: bit_or_iff bit_ucast_iff bit_push_bit_iff dest: bit_imp_le_length)
  qed
qed

lemma join_split_le:
  assumes "LENGTH('a) \<le> 8 * n"
  shows "join_le (split_le n (w :: 'a::len word)) = w"
proof (rule bit_word_eqI)
  fix k assume k: "k < LENGTH('a)"
  with assms have "k div 8 < n" by linarith
  with k show "bit (join_le (split_le n w) :: 'a word) k \<longleftrightarrow> bit w k"
    by (simp add: bit_join_le bit_byte_at)
qed

lemma split_join_le:
  assumes "8 * length bs \<le> LENGTH('a)"
  shows "split_le (length bs) (join_le bs :: 'a::len word) = bs"
proof (rule nth_equalityI)
  show "length (split_le (length bs) (join_le bs :: 'a word)) = length bs" by simp
next
  fix i assume "i < length (split_le (length bs) (join_le bs :: 'a word))"
  then have i: "i < length bs" by simp
  show "split_le (length bs) (join_le bs :: 'a word) ! i = bs ! i"
  proof (rule bit_word_eqI)
    fix k assume k: "k < LENGTH(8)"
    then have "(8 * i + k) div 8 = i" "(8 * i + k) mod 8 = k" by simp_all
    moreover have "8 * i + k < LENGTH('a)"
      using i k assms by simp
    ultimately show "bit (split_le (length bs) (join_le bs :: 'a word) ! i) k \<longleftrightarrow> bit (bs ! i) k"
      using i k by (simp add: bit_byte_at bit_join_le)
  qed
qed

subsection \<open>Byte-addressed memory\<close>

type_synonym mem = "u64 \<Rightarrow> u8"

definition read_mem :: "mem \<Rightarrow> u64 \<Rightarrow> nat \<Rightarrow> u8 list" where
  "read_mem m a n = map (\<lambda>i. m (a + of_nat i)) [0..<n]"

definition write_mem :: "mem \<Rightarrow> u64 \<Rightarrow> u8 list \<Rightarrow> mem" where
  "write_mem m a bs = (\<lambda>x. if unat (x - a) < length bs then bs ! unat (x - a) else m x)"

text \<open>The byte ranges \<open>[a, a + n)\<close> and \<open>[b, b + k)\<close> of the address space do not meet.\<close>

definition separate :: "u64 \<Rightarrow> nat \<Rightarrow> u64 \<Rightarrow> nat \<Rightarrow> bool" where
  "separate a n b k \<longleftrightarrow> n \<le> unat (b - a) \<and> k \<le> unat (a - b)"

definition load32 :: "mem \<Rightarrow> u64 \<Rightarrow> u32" where
  "load32 m a = join_le (read_mem m a 4)"

definition load64 :: "mem \<Rightarrow> u64 \<Rightarrow> u64" where
  "load64 m a = join_le (read_mem m a 8)"

definition store32 :: "mem \<Rightarrow> u64 \<Rightarrow> u32 \<Rightarrow> mem" where
  "store32 m a v = write_mem m a (split_le 4 v)"

definition store64 :: "mem \<Rightarrow> u64 \<Rightarrow> u64 \<Rightarrow> mem" where
  "store64 m a v = write_mem m a (split_le 8 v)"

lemma length_read_mem [simp]: "length (read_mem m a n) = n"
  by (simp add: read_mem_def)

lemma nth_read_mem [simp]: "i < n \<Longrightarrow> read_mem m a n ! i = m (a + of_nat i)"
  by (simp add: read_mem_def)

lemma read_mem_cong: "(\<And>i. i < n \<Longrightarrow> m (a + of_nat i) = m' (a + of_nat i)) \<Longrightarrow>
    read_mem m a n = read_mem m' a n"
  by (simp add: read_mem_def)

lemma read_write_same [mem_simps]:
  "length bs = n \<Longrightarrow> n \<le> 2 ^ 64 \<Longrightarrow> read_mem (write_mem m a bs) a n = bs"
  by (rule nth_equalityI) (simp_all add: write_mem_def unat_of_nat_small)

lemma separate_sym: "separate a n b k \<longleftrightarrow> separate b k a n"
  by (auto simp: separate_def)

lemma separate_less:
  assumes "separate a n b k" "i < n"
  shows "\<not> unat (a + of_nat i - b) < k"
proof
  assume lt: "unat (a + of_nat i - b) < k"
  define d where "d = unat (a + of_nat i - b)"
  have "b + of_nat d = a + of_nat i" by (simp add: d_def)
  then have eq: "(of_nat d :: u64) + (b - a) = of_nat i" by (simp add: algebra_simps)
  have n: "n \<le> unat (b - a)" and k: "k \<le> unat (a - b)"
    using assms by (auto simp: separate_def)
  have i2: "i < 2 ^ 64" using assms(2) n unat_less_2p [of "b - a"] by simp
  have ab: "a - b = - (b - a)" by simp
  show False
  proof (cases "b = a")
    case True
    with n assms(2) show False by simp
  next
    case False
    then have "unat b \<noteq> unat a" by (simp add: word_unat_eq_iff)
    then have "unat (a - b) = 2 ^ 64 - unat (b - a)"
      using unat_sub_if' [of a b] unat_sub_if' [of b a]
        unat_less_2p [of a] unat_less_2p [of b] by (auto split: if_splits)
    with k lt have "d + unat (b - a) < 2 ^ 64"
      using unat_less_2p [of "b - a"] by (simp add: d_def)
    moreover have "d < 2 ^ 64" using unat_less_2p [of "a + of_nat i - b"] by (simp add: d_def)
    ultimately have "unat ((of_nat d :: u64) + (b - a)) = d + unat (b - a)"
      by (simp add: unat_plus_if' unat_of_nat_small)
    with eq i2 have "i = d + unat (b - a)"
      by (simp add: unat_of_nat_small)
    with n assms(2) show False by simp
  qed
qed

lemma separateI_less:
  assumes "unat a + n \<le> unat b" "unat b + k \<le> 2 ^ 64 + unat a" "0 < n"
  shows "separate a n b k"
proof -
  have "unat (b - a) = unat b - unat a" using assms(1) by (simp add: unat_sub_if')
  moreover have "unat (a - b) = (if a = b then 0 else 2 ^ 64 + unat a - unat b)"
    using assms(1) by (auto simp: unat_sub_if' word_unat_eq_iff)
  ultimately show ?thesis
    using assms unat_less_2p [of b] by (auto simp: separate_def)
qed

lemma read_write_separate [mem_simps]:
  "separate a n b (length bs) \<Longrightarrow> read_mem (write_mem m b bs) a n = read_mem m a n"
  by (rule read_mem_cong) (simp add: write_mem_def separate_less)

lemma load32_store32 [mem_simps]: "load32 (store32 m a v) a = v"
  by (simp add: load32_def store32_def read_write_same join_split_le)

lemma load64_store64 [mem_simps]: "load64 (store64 m a v) a = v"
  by (simp add: load64_def store64_def read_write_same join_split_le)

lemma load32_write_separate [mem_simps]:
  "separate a 4 b (length bs) \<Longrightarrow> load32 (write_mem m b bs) a = load32 m a"
  by (simp add: load32_def read_write_separate)

lemma load64_write_separate [mem_simps]:
  "separate a 8 b (length bs) \<Longrightarrow> load64 (write_mem m b bs) a = load64 m a"
  by (simp add: load64_def read_write_separate)

lemma load32_store32_separate [mem_simps]:
  "separate a 4 b 4 \<Longrightarrow> load32 (store32 m b v) a = load32 m a"
  by (simp add: store32_def load32_write_separate)

lemma load64_store32_separate [mem_simps]:
  "separate a 8 b 4 \<Longrightarrow> load64 (store32 m b v) a = load64 m a"
  by (simp add: store32_def load64_write_separate)

lemma load32_store64_separate [mem_simps]:
  "separate a 4 b 8 \<Longrightarrow> load32 (store64 m b v) a = load32 m a"
  by (simp add: store64_def load32_write_separate)

lemma load64_store64_separate [mem_simps]:
  "separate a 8 b 8 \<Longrightarrow> load64 (store64 m b v) a = load64 m a"
  by (simp add: store64_def load64_write_separate)

end
