(* ===== verification/CString.thy ===== *)
theory CString
  imports Prelude
begin

text \<open>
  The freestanding string and memory routines of src/src/common.c, over byte-addressed
  memory. Each C loop is a recursive function over the machine words of the source; a
  \<open>char\<close> is signed, as on x86-64, so comparisons of characters go through \<open>sint\<close>. Only
  \<open>strlen\<close> can fail to return (memory without a zero byte), so it is an option.
\<close>

subsection \<open>Definitions\<close>

function bzero_loop :: "mem \<Rightarrow> u64 \<Rightarrow> u64 \<Rightarrow> u64 \<Rightarrow> mem" where
  "bzero_loop m dest count i =
     (if i < count then bzero_loop (m(dest + i := 0)) dest count (i + 1) else m)"
  by pat_completeness auto
termination
  by (relation "measure (\<lambda>(m, dest, count, i). unat count - unat i)")
    (auto simp: word_less_nat_alt)

definition bzero :: "mem \<Rightarrow> u64 \<Rightarrow> u64 \<Rightarrow> mem" where
  "bzero m dest count = bzero_loop m dest count 0"

function strncpy_loop :: "mem \<Rightarrow> u64 \<Rightarrow> u64 \<Rightarrow> u64 \<Rightarrow> u64 \<Rightarrow> mem \<times> u64" where
  "strncpy_loop m dest src n i =
     (if i < n \<and> m (src + i) \<noteq> 0
      then strncpy_loop (m(dest + i := m (src + i))) dest src n (i + 1)
      else (m, i))"
  by pat_completeness auto
termination
  by (relation "measure (\<lambda>(m, dest, src, n, i). unat n - unat i)")
    (auto simp: word_less_nat_alt)

definition strncpy :: "mem \<Rightarrow> u64 \<Rightarrow> u64 \<Rightarrow> u64 \<Rightarrow> mem" where
  "strncpy m dest src n =
     (let (m', i) = strncpy_loop m dest src n 0
      in if i < n then m'(dest + i := 0) else m')"

function strrev :: "mem \<Rightarrow> u64 \<Rightarrow> u64 \<Rightarrow> mem" where
  "strrev m str end =
     (if str < end then strrev (m(str := m end, end := m str)) (str + 1) (end - 1) else m)"
  by pat_completeness auto
termination
proof (relation "measure (\<lambda>(m, str, end). unat end - unat str)")
  fix m :: mem and s e :: u64
  assume lt: "s < e"
  then have "e \<noteq> 0" by auto
  with lt show "((m(s := m e, e := m s), s + 1, e - 1), m, s, e)
      \<in> measure (\<lambda>(m, str, end). unat end - unat str)"
    by (auto simp: word_less_nat_alt)
qed simp

function to_str_loop :: "mem \<Rightarrow> u32 \<Rightarrow> u64 \<Rightarrow> mem \<times> u64" where
  "to_str_loop m d p =
     (if d \<noteq> 0 then to_str_loop (m(p := ucast (d mod 10 + 48))) (d div 10) (p + 1) else (m, p))"
  by pat_completeness auto
termination
  by (relation "measure (\<lambda>(m, d, p). unat d)")
    (auto simp: unat_div_distrib unat_gt_0 intro!: div_less_dividend)

definition to_str :: "mem \<Rightarrow> u32 \<Rightarrow> u64 \<Rightarrow> mem \<times> u64" where
  "to_str m d buff =
     (if d = 0 then (m(buff := 48, buff + 1 := 0), buff + 2)
      else let (m', p) = to_str_loop m d buff
           in (strrev (m'(p := 0)) buff (p - 1), p))"

function memcpy_loop :: "mem \<Rightarrow> u64 \<Rightarrow> u64 \<Rightarrow> u64 \<Rightarrow> u64 \<Rightarrow> mem" where
  "memcpy_loop m dest src n i =
     (if i < n then memcpy_loop (m(dest + i := m (src + i))) dest src n (i + 1) else m)"
  by pat_completeness auto
termination
  by (relation "measure (\<lambda>(m, dest, src, n, i). unat n - unat i)")
    (auto simp: word_less_nat_alt)

definition memcpy :: "mem \<Rightarrow> u64 \<Rightarrow> u64 \<Rightarrow> u64 \<Rightarrow> mem" where
  "memcpy m dest src n = memcpy_loop m dest src n 0"

function strncmp :: "mem \<Rightarrow> u64 \<Rightarrow> u64 \<Rightarrow> u64 \<Rightarrow> int" where
  "strncmp m a b n =
     (if m a \<noteq> 0 \<and> m b \<noteq> 0 \<and> n \<noteq> 0 then
        if sint (m a) < sint (m b) then -1
        else if sint (m a) > sint (m b) then 1
        else strncmp m (a + 1) (b + 1) (n - 1)
      else if n \<noteq> 0 \<and> m a \<noteq> 0 then -1
      else if n \<noteq> 0 \<and> m b \<noteq> 0 then -1
      else 0)"
  by pat_completeness auto
termination
  by (relation "measure (\<lambda>(m, a, b, n). unat n)") (auto simp: unat_gt_0)

text \<open>\<open>memcmp\<close> of the source: the loop counts \<open>n\<close> down and never moves its pointers.\<close>

function memcmp :: "mem \<Rightarrow> u64 \<Rightarrow> u64 \<Rightarrow> u64 \<Rightarrow> int" where
  "memcmp m a b n =
     (if n \<noteq> 0 then
        if sint (m a) < sint (m b) then -1
        else if sint (m a) > sint (m b) then 1
        else memcmp m a b (n - 1)
      else 0)"
  by pat_completeness auto
termination
  by (relation "measure (\<lambda>(m, a, b, n). unat n)") (auto simp: unat_gt_0)

partial_function (option) strlen_loop :: "mem \<Rightarrow> u64 \<Rightarrow> u64 option" where
  "strlen_loop m p = (if m p \<noteq> 0 then strlen_loop m (p + 1) else Some p)"

definition strlen :: "mem \<Rightarrow> u64 \<Rightarrow> u64 option" where
  "strlen m what = map_option (\<lambda>p. p - what) (strlen_loop m what)"

function strnchr :: "mem \<Rightarrow> u64 \<Rightarrow> u32 \<Rightarrow> u64 \<Rightarrow> u64" where
  "strnchr m s c n =
     (if m s \<noteq> 0 \<and> n \<noteq> 0 then
        if (scast (m s) :: u32) = c then s else strnchr m (s + 1) c (n - 1)
      else 0)"
  by pat_completeness auto
termination
  by (relation "measure (\<lambda>(m, s, c, n). unat n)") (auto simp: unat_gt_0)

declare bzero_loop.simps [simp del] strncpy_loop.simps [simp del] strrev.simps [simp del]
  to_str_loop.simps [simp del] memcpy_loop.simps [simp del] strncmp.simps [simp del]
  memcmp.simps [simp del] strnchr.simps [simp del]


subsection \<open>Filling and copying\<close>

text \<open>
  A loop that stores one byte per step, \<open>i\<close> bytes done, is a \<open>write_mem\<close> of the
  remaining bytes at \<open>dest + i\<close>.
\<close>

lemma write_mem_Nil [simp]: "write_mem m a [] = m"
  by (simp add: write_mem_def)

lemma write_mem_Cons:
  assumes "length bs < 2 ^ 64"
  shows "write_mem m a (b # bs) = write_mem (m(a := b)) (a + 1) bs"
proof
  fix x
  show "write_mem m a (b # bs) x = write_mem (m(a := b)) (a + 1) bs x"
  proof (cases "x = a")
    case True
    have "a - (a + 1) = (- 1 :: u64)" by simp
    then have "unat (a - (a + 1)) = 2 ^ 64 - 1"
      by (simp add: unsigned_minus_1_eq_mask mask_eq_exp_minus_1)
    with True assms show ?thesis by (simp add: write_mem_def)
  next
    case False
    then have "x - a \<noteq> 0" by simp
    then have "unat (x - a) = Suc (unat (x - a - 1))"
      using unat_pred [of "x - a"] unat_gt_0 [of "x - a"] by simp
    moreover have "x - (a + 1) = x - a - 1" by simp
    ultimately have "unat (x - a) = Suc (unat (x - (a + 1)))" by metis
    with False show ?thesis by (simp add: write_mem_def)
  qed
qed

lemma write_mem_append:
  assumes "length bs + length cs \<le> 2 ^ 64"
  shows "write_mem m a (bs @ cs) = write_mem (write_mem m a bs) (a + of_nat (length bs)) cs"
  using assms
proof (induction bs arbitrary: m a)
  case Nil
  then show ?case by simp
next
  case (Cons b bs)
  then show ?case
    by (simp add: write_mem_Cons algebra_simps)
qed

lemma read_mem_Suc: "read_mem m a (Suc n) = m a # read_mem m (a + 1) n"
proof (rule nth_equalityI)
  fix i assume "i < length (read_mem m a (Suc n))"
  then show "read_mem m a (Suc n) ! i = (m a # read_mem m (a + 1) n) ! i"
    by (cases i) (simp_all add: add.assoc)
qed simp

lemma read_mem_0 [simp]: "read_mem m a 0 = []"
  by (simp add: read_mem_def)

lemma read_mem_add: "read_mem m a (n + k) = read_mem m a n @ read_mem m (a + of_nat n) k"
  by (rule nth_equalityI) (auto simp: nth_append add.assoc simp flip: of_nat_add)

text \<open>The number of steps left in a counting loop.\<close>

lemma loop_left_Suc: "i < n \<Longrightarrow> unat n - unat i = Suc (unat n - unat (i + 1))"
  for i n :: "'a::len word"
  by (simp add: word_less_nat_alt Suc_diff_Suc)

lemma bzero_loop_eq:
  "i \<le> count \<Longrightarrow>
     bzero_loop m dest count i = write_mem m (dest + i) (replicate (unat count - unat i) 0)"
proof (induction m dest count i rule: bzero_loop.induct)
  case (1 m dest count i)
  show ?case
  proof (cases "i < count")
    case True
    then have "i + 1 \<le> count" by (rule inc_le)
    note IH = "1.IH" [OF True this]
    have "unat count - unat (i + 1) < 2 ^ 64"
      using unat_less_2p [of count] by simp
    then show ?thesis
      unfolding bzero_loop.simps [of m] if_P [OF True] IH loop_left_Suc [OF True]
      by (simp add: write_mem_Cons add.assoc)
  next
    case False
    then show ?thesis
      by (simp add: bzero_loop.simps [of m] word_less_nat_alt)
  qed
qed

lemma bzero_eq: "bzero m dest count = write_mem m dest (replicate (unat count) 0)"
  by (simp add: bzero_def bzero_loop_eq)


text \<open>Copying between separate ranges: each step reads a byte no earlier step wrote.\<close>

lemma separate_upd:
  assumes "separate dest (unat n) src (unat n)" "i < n" "i' < n"
  shows "src + i' \<noteq> dest + i"
proof
  assume eq: "src + i' = dest + i"
  have "\<not> unat (dest + of_nat (unat i) - src) < unat n"
    using assms(1,2) by (intro separate_less [of dest "unat n"]) (simp_all add: word_less_nat_alt)
  moreover have "dest + of_nat (unat i) - src = i'"
    using eq by (simp flip: eq)
  ultimately show False using assms(3) by (simp add: word_less_nat_alt)
qed

lemma read_mem_rest_upd:
  assumes sep: "separate dest (unat n) src (unat n)" and i: "i < n"
  shows "read_mem (m(dest + i := v)) (src + (i + 1)) (unat n - unat (i + 1)) =
    read_mem m (src + (i + 1)) (unat n - unat (i + 1))"
proof (rule read_mem_cong)
  fix k assume k: "k < unat n - unat (i + 1)"
  then have "unat (i + 1 + of_nat k) = unat (i + 1) + k"
    using unat_less_2p [of n] unat_plus_if' [of "i + 1" "of_nat k"] i
    by (simp add: unat_of_nat_small)
  with k have "i + 1 + of_nat k < n" by (simp add: word_less_nat_alt)
  then have "src + (i + 1 + of_nat k) \<noteq> dest + i"
    using separate_upd [OF sep i] by blast
  then show "(m(dest + i := v)) (src + (i + 1) + of_nat k) = m (src + (i + 1) + of_nat k)"
    by (simp add: add.assoc)
qed

lemma memcpy_loop_eq:
  "i \<le> n \<Longrightarrow> separate dest (unat n) src (unat n) \<Longrightarrow>
     memcpy_loop m dest src n i = write_mem m (dest + i) (read_mem m (src + i) (unat n - unat i))"
proof (induction m dest src n i rule: memcpy_loop.induct)
  case (1 m dest src n i)
  show ?case
  proof (cases "i < n")
    case True
    then have "i + 1 \<le> n" by (rule inc_le)
    note IH = "1.IH" [OF True this "1.prems"(2)]
    have left: "unat n - unat (i + 1) < 2 ^ 64"
      using unat_less_2p [of n] by simp
    note frame = read_mem_rest_upd [OF "1.prems"(2) True]
    from left show ?thesis
      unfolding memcpy_loop.simps [of m] if_P [OF True] IH loop_left_Suc [OF True] frame
      by (simp add: read_mem_Suc write_mem_Cons add.assoc)
  next
    case False
    then show ?thesis
      by (simp add: memcpy_loop.simps [of m] word_less_nat_alt)
  qed
qed

lemma memcpy_eq:
  "separate dest (unat n) src (unat n) \<Longrightarrow>
     memcpy m dest src n = write_mem m dest (read_mem m src (unat n))"
  by (simp add: memcpy_def memcpy_loop_eq)

subsection \<open>Reversal and decimal output\<close>

lemma strrev_apply:
  "strrev m s e x = (if s \<le> x \<and> x \<le> e then m (s + (e - x)) else m x)"
proof (induction m s e arbitrary: x rule: strrev.induct)
  case (1 m s e)
  show ?case
  proof (cases "s < e")
    case True
    have IH: "strrev m s e x =
        (if s + 1 \<le> x \<and> x \<le> e - 1 then (m(s := m e, e := m s)) (s + 1 + (e - 1 - x))
         else (m(s := m e, e := m s)) x)"
      unfolding strrev.simps [of m s e] if_P [OF True] by (rule "1.IH" [OF True])
    from True have "e \<noteq> 0" by auto
    then have e: "unat (e - 1) = unat e - 1" "unat (s + 1) = unat s + 1"
      using True by simp_all
    show ?thesis
    proof (cases "s < x \<and> x < e")
      case True': True
      then have "s + 1 + (e - 1 - x) \<noteq> s" "s + 1 + (e - 1 - x) \<noteq> e" by (auto simp: algebra_simps)
      with True' e show ?thesis
        unfolding IH by (auto simp: word_le_nat_alt word_less_nat_alt algebra_simps)
    next
      case outer: False
      show ?thesis
      proof (cases "x = s \<or> x = e")
        case True
        with \<open>s < e\<close> e show ?thesis
          unfolding IH by (auto simp: word_le_nat_alt word_less_nat_alt)
      next
        case False
        with outer have "x < s \<or> e < x" by auto
        with \<open>s < e\<close> e show ?thesis
          unfolding IH by (auto simp: word_le_nat_alt word_less_nat_alt)
      qed
    qed
  next
    case False
    then have "s \<le> x \<and> x \<le> e \<Longrightarrow> x = s \<and> s = e"
      by (simp add: word_less_nat_alt word_le_nat_alt word_unat_eq_iff)
    with False show ?thesis
      by (auto simp: strrev.simps [of m s e])
  qed
qed


lemma in_range_iff:
  fixes a x :: u64
  assumes "0 < k" "unat a + k \<le> 2 ^ 64"
  shows "a \<le> x \<and> x \<le> a + of_nat (k - 1) \<longleftrightarrow> unat (x - a) < k"
proof -
  have "unat (of_nat (k - 1) :: u64) = k - 1"
    using assms by (intro unat_of_nat_small) simp
  then have "unat (a + of_nat (k - 1)) = unat a + (k - 1)"
    using assms by (simp add: unat_plus_if')
  then show ?thesis
    using assms by (auto simp: word_le_nat_alt unat_sub_if')
qed

lemma strrev_write:
  assumes "length ds = k" "0 < k" "unat a + k \<le> 2 ^ 64"
  shows "strrev (write_mem m a (ds @ cs)) a (a + of_nat (k - 1)) = write_mem m a (rev ds @ cs)"
proof
  fix x
  define d where "d = unat (x - a)"
  show "strrev (write_mem m a (ds @ cs)) a (a + of_nat (k - 1)) x = write_mem m a (rev ds @ cs) x"
  proof (cases "d < k")
    case True
    define j where "j = k - 1 - d"
    have j: "j < k" "k - 1 = j + d" using True by (simp_all add: j_def)
    have "x = a + of_nat d" by (simp add: d_def)
    then have eq: "a + of_nat (k - 1) - x = of_nat j"
      unfolding j(2) by simp
    have "unat (of_nat j :: u64) = j"
      using assms j(1) by (intro unat_of_nat_small) simp
    then have "write_mem m a (ds @ cs) (a + of_nat j) = ds ! j"
      using assms(1) j(1) by (simp add: write_mem_def nth_append)
    moreover have "write_mem m a (rev ds @ cs) x = rev ds ! d"
      using True assms(1) by (simp add: write_mem_def nth_append d_def [symmetric])
    moreover have "a \<le> x \<and> x \<le> a + of_nat (k - 1)"
      using True in_range_iff [OF assms(2,3)] by (simp add: d_def)
    moreover from this have "strrev (write_mem m a (ds @ cs)) a (a + of_nat (k - 1)) x =
        write_mem m a (ds @ cs) (a + of_nat j)"
      unfolding strrev_apply eq by (rule if_P)
    ultimately show ?thesis
      using True assms(1) by (simp add: rev_nth j_def del: of_nat_diff)
  next
    case False
    then have "\<not> (a \<le> x \<and> x \<le> a + of_nat (k - 1))"
      using in_range_iff [OF assms(2,3)] by (simp add: d_def)
    with False assms(1) show ?thesis
      by (auto simp: strrev_apply write_mem_def nth_append d_def [symmetric])
  qed
qed

text \<open>The digits \<open>to_str\<close> emits, least significant first, and their reading.\<close>

fun decimal_rev :: "nat \<Rightarrow> u8 list" where
  "decimal_rev n = (if n = 0 then [] else of_nat (n mod 10 + 48) # decimal_rev (n div 10))"

definition decimal :: "nat \<Rightarrow> u8 list" where
  "decimal n = (if n = 0 then [48] else rev (decimal_rev n))"

definition parse_decimal :: "u8 list \<Rightarrow> nat" where
  "parse_decimal bs = foldl (\<lambda>acc b. 10 * acc + (unat b - 48)) 0 bs"

declare decimal_rev.simps [simp del]

lemma length_decimal_rev: "n < 10 ^ k \<Longrightarrow> length (decimal_rev n) \<le> k"
proof (induction k arbitrary: n)
  case 0
  then show ?case by (simp add: decimal_rev.simps)
next
  case (Suc k)
  have "n div 10 < 10 ^ k" using Suc.prems by (simp add: less_mult_imp_div_less mult.commute)
  with Suc.IH show ?case by (subst decimal_rev.simps) simp
qed

lemma decimal_rev_eq_Nil [simp]: "decimal_rev n = [] \<longleftrightarrow> n = 0"
  by (subst decimal_rev.simps) simp

lemma unat_digit: "unat (of_nat (n mod 10 + 48) :: u8) = n mod 10 + 48"
  using mod_less_divisor [of 10 n] by (intro unat_of_nat_small) simp

lemma parse_decimal_rev: "parse_decimal (rev (decimal_rev n)) = n"
proof (induction n rule: decimal_rev.induct)
  case (1 n)
  then show ?case
    by (subst decimal_rev.simps) (simp add: parse_decimal_def unat_digit del: of_nat_add)
qed

lemma parse_decimal_decimal: "parse_decimal (decimal n) = n"
  by (simp add: decimal_def parse_decimal_rev) (simp add: parse_decimal_def)

lemma to_str_loop_eq:
  "length (decimal_rev (unat d)) \<le> 10 \<Longrightarrow>
   to_str_loop m d p =
     (write_mem m p (decimal_rev (unat d)), p + of_nat (length (decimal_rev (unat d))))"
proof (induction m d p rule: to_str_loop.induct)
  case (1 m d p)
  show ?case
  proof (cases "d = 0")
    case True
    then show ?thesis by (simp add: to_str_loop.simps [of m] decimal_rev.simps)
  next
    case False
    have dig: "ucast (d mod 10 + 48) = (of_nat (unat d mod 10 + 48) :: u8)"
    proof -
      have "unat d mod 10 < 10" by simp
      moreover have "unat (d mod 10) = unat d mod 10" by (simp add: unat_mod_distrib)
      ultimately have "unat (d mod 10 + 48) = unat d mod 10 + 48"
        by (simp add: unat_plus_if')
      then have "unat (ucast (d mod 10 + 48) :: u8) = (unat d mod 10 + 48) mod 256"
        by (simp add: unsigned_ucast_eq take_bit_eq_mod)
      with \<open>unat d mod 10 < 10\<close> show ?thesis
        by (simp add: word_unat_eq_iff unat_digit del: of_nat_add)
    qed
    have unf: "decimal_rev (unat d) =
        of_nat (unat d mod 10 + 48) # decimal_rev (unat (d div 10))"
      using False by (subst decimal_rev.simps) (simp add: unat_div_distrib unat_eq_zero)
    with "1.prems" have le: "length (decimal_rev (unat (d div 10))) \<le> 10" by simp
    show ?thesis
      using False le unfolding to_str_loop.simps [of m d] unf
      by (simp add: "1.IH" [OF False le, unfolded dig] dig write_mem_Cons del: fun_upd_apply of_nat_add)
  qed
qed


lemma length_decimal: "length (decimal (unat (d :: u32))) \<le> 10"
proof -
  have "unat d < 10 ^ 10" using unat_less_2p [of d] by simp
  then show ?thesis by (simp add: decimal_def length_decimal_rev)
qed

subsection \<open>Copying, measuring, comparing and searching C strings\<close>

text \<open>The characters of the C string at \<open>a\<close>, at most \<open>n\<close> of them.\<close>

abbreviation cstr :: "mem \<Rightarrow> u64 \<Rightarrow> nat \<Rightarrow> u8 list" where
  "cstr m a n \<equiv> takeWhile (\<lambda>b. b \<noteq> 0) (read_mem m a n)"

lemma cstr_Suc: "cstr m a (Suc n) = (if m a = 0 then [] else m a # cstr m (a + 1) n)"
  by (simp add: read_mem_Suc)

lemma length_cstr: "length (cstr m a n) \<le> n"
  using length_takeWhile_le [of _ "read_mem m a n"] by simp

lemma strncpy_loop_eq:
  "i \<le> n \<Longrightarrow> separate dest (unat n) src (unat n) \<Longrightarrow>
     strncpy_loop m dest src n i =
       (let cs = cstr m (src + i) (unat n - unat i)
        in (write_mem m (dest + i) cs, i + of_nat (length cs)))"
proof (induction m dest src n i rule: strncpy_loop.induct)
  case (1 m dest src n i)
  show ?case
  proof (cases "i < n")
    case True
    then have "i + 1 \<le> n" by (rule inc_le)
    note frame = read_mem_rest_upd [OF "1.prems"(2) True]
    have "length (cstr m (src + (i + 1)) (unat n - unat (i + 1))) < 2 ^ 64"
      using length_cstr [of m "src + (i + 1)" "unat n - unat (i + 1)"] unat_less_2p [of n] by simp
    with "1.IH" [OF _ \<open>i + 1 \<le> n\<close> "1.prems"(2)] True show ?thesis
      unfolding strncpy_loop.simps [of m] loop_left_Suc [OF True] cstr_Suc Let_def frame
      by (simp add: write_mem_Cons add.assoc del: fun_upd_apply)
  next
    case False
    then show ?thesis
      by (simp add: strncpy_loop.simps [of m] word_less_nat_alt)
  qed
qed

lemma strncpy_eq:
  assumes "separate dest (unat n) src (unat n)"
  shows "strncpy m dest src n = write_mem m dest
    (cstr m src (unat n) @ (if length (cstr m src (unat n)) < unat n then [0] else []))"
proof -
  define cs where "cs = cstr m src (unat n)"
  have len: "length cs \<le> unat n" using length_cstr by (simp add: cs_def)
  then have lt: "length cs < 2 ^ 64" using unat_less_2p [of n] by simp
  then have "unat (of_nat (length cs) :: u64) = length cs" by (simp add: unat_of_nat_small)
  moreover have "write_mem m dest (cs @ [0]) =
      (write_mem m dest cs)(dest + of_nat (length cs) := 0)"
    using lt by (simp add: write_mem_append write_mem_Cons)
  ultimately show ?thesis
    using strncpy_loop_eq [of 0 n dest src m] assms
    unfolding strncpy_def cs_def [symmetric]
    by (simp add: cs_def [symmetric] word_less_nat_alt)
qed

lemma strlen_loop_eq:
  "m (p + of_nat k) = 0 \<Longrightarrow> (\<And>i. i < k \<Longrightarrow> m (p + of_nat i) \<noteq> 0) \<Longrightarrow>
     strlen_loop m p = Some (p + of_nat k)"
proof (induction k arbitrary: p)
  case 0
  then show ?case by (simp add: strlen_loop.simps)
next
  case (Suc k)
  have "m p \<noteq> 0" using Suc.prems(2) [of 0] by simp
  moreover have "strlen_loop m (p + 1) = Some (p + 1 + of_nat k)"
    using Suc.prems(1) Suc.prems(2) [of "Suc i" for i] by (intro Suc.IH) (simp_all add: add.assoc)
  ultimately show ?case by (simp add: strlen_loop.simps add.assoc)
qed

lemma strncmp_zero_iff_cstr:
  "strncmp m a b n = 0 \<longleftrightarrow> cstr m a (unat n) = cstr m b (unat n)"
proof (induction m a b n rule: strncmp.induct)
  case (1 m a b n)
  show ?case
  proof (cases "n = 0")
    case True
    then show ?thesis by (simp add: strncmp.simps [of m a b 0])
  next
    case False
    then have un: "unat n = Suc (unat (n - 1))"
      using unat_gt_0 [of n] by simp
    have neq: "sint (m a) < sint (m b) \<or> sint (m b) < sint (m a) \<longleftrightarrow> m a \<noteq> m b"
      by (metis linorder_neqE_linordered_idom order.irrefl signed_word_eqI)
    show ?thesis
    proof (cases "m a = m b \<and> m a \<noteq> 0")
      case True
      with False "1.IH" show ?thesis
        unfolding strncmp.simps [of m a b n] un cstr_Suc by simp
    next
      case ne: False
      with False neq show ?thesis
        unfolding strncmp.simps [of m a b n] un cstr_Suc by auto
    qed
  qed
qed


lemma strnchr_eq:
  "strnchr m s c n =
     (let cs = cstr m s (unat n); pre = takeWhile (\<lambda>b. (scast b :: u32) \<noteq> c) cs
      in if pre = cs then 0 else s + of_nat (length pre))"
proof (induction m s c n rule: strnchr.induct)
  case (1 m s c n)
  show ?case
  proof (cases "n = 0")
    case True
    then show ?thesis by (simp add: strnchr.simps [of m s c 0])
  next
    case False
    then have un: "unat n = Suc (unat (n - 1))"
      using unat_gt_0 [of n] by simp
    show ?thesis
    proof (cases "m s \<noteq> 0 \<and> (scast (m s) :: u32) \<noteq> c")
      case True
      with False "1.IH" show ?thesis
        unfolding strnchr.simps [of m s c n] un cstr_Suc by (simp add: Let_def add.assoc)
    next
      case ne: False
      with False show ?thesis
        unfolding strnchr.simps [of m s c n] un cstr_Suc by auto
    qed
  qed
qed

subsection \<open>Properties\<close>

text \<open>
  C29. \<open>to_str\<close> writes the decimal digits of its 32-bit argument followed by a zero byte at
  \<open>buff\<close> and changes nothing else; the digits read back as the argument, and there are at
  most ten of them, so eleven bytes of buffer are enough. The returned pointer is the
  terminating zero, except for the argument 0, where it is one byte past it.
\<close>

theorem to_str_prints_decimal:
  assumes "unat buff + 11 \<le> 2 ^ 64"
  shows "to_str m d buff =
      (write_mem m buff (decimal (unat d) @ [0]),
       buff + of_nat (length (decimal (unat d))) + (if d = 0 then 1 else 0)) \<and>
    parse_decimal (decimal (unat d)) = unat d \<and> length (decimal (unat d)) \<le> 10"
proof (cases "d = 0")
  case True
  then show ?thesis
    by (simp add: to_str_def decimal_def write_mem_Cons parse_decimal_def)
next
  case False
  define ds where "ds = decimal_rev (unat d)"
  have dec: "decimal (unat d) = rev ds" using False by (simp add: decimal_def ds_def unat_eq_zero)
  have k: "length ds \<le> 10" "0 < length ds"
    using length_decimal [of d] False by (simp_all add: dec) (simp add: ds_def unat_eq_zero)
  have loop: "to_str_loop m d buff = (write_mem m buff ds, buff + of_nat (length ds))"
    using k by (simp add: to_str_loop_eq ds_def)
  have nul: "(write_mem m buff ds)(buff + of_nat (length ds) := 0) = write_mem m buff (ds @ [0])"
    using k by (simp add: write_mem_append write_mem_Cons)
  have last: "buff + of_nat (length ds) - 1 = buff + of_nat (length ds - 1)"
    using k(2) by (cases ds) simp_all
  have "strrev (write_mem m buff (ds @ [0])) buff (buff + of_nat (length ds) - 1) =
      write_mem m buff (rev ds @ [0])"
    unfolding last using k assms by (intro strrev_write) auto
  with False loop nul show ?thesis
    using k(1) parse_decimal_decimal [of "unat d"] by (simp add: to_str_def dec)
qed

theorem to_str_prints_decimal_witness:
  "unat (4096 :: u64) + 11 \<le> 2 ^ 64 \<and>
   to_str (\<lambda>_. 0) 1024 4096 =
     (write_mem (\<lambda>_. 0) 4096 (decimal (unat (1024 :: u32)) @ [0]),
      4096 + of_nat (length (decimal (unat (1024 :: u32)))) + (if (1024 :: u32) = 0 then 1 else 0))"
  using to_str_prints_decimal [of 4096 "\<lambda>_. 0" 1024] by simp

text \<open>
  C30. \<open>strncpy\<close> between separate buffers stores the characters of the source string, at
  most \<open>n\<close>, and a terminating zero exactly when the string is shorter than \<open>n\<close>; every
  other byte of memory is unchanged.
\<close>

theorem strncpy_copies_string:
  assumes "separate dest (unat n) src (unat n)"
  shows "strncpy m dest src n = write_mem m dest
    (cstr m src (unat n) @ (if length (cstr m src (unat n)) < unat n then [0] else []))"
  using assms by (rule strncpy_eq)

theorem strncpy_copies_string_witness:
  "separate 4096 (unat (5 :: u64)) 8192 (unat (5 :: u64)) \<and>
   strncpy (\<lambda>_. 65) 4096 8192 5 = write_mem (\<lambda>_. 65) 4096
     (cstr (\<lambda>_. 65) 8192 (unat (5 :: u64)) @
       (if length (cstr (\<lambda>_. 65) 8192 (unat (5 :: u64))) < unat (5 :: u64) then [0] else []))"
proof -
  have h: "separate 4096 (unat (5 :: u64)) 8192 (unat (5 :: u64))" by (simp add: separate_def)
  from h strncpy_copies_string [OF h, of "\<lambda>_. 65"] show ?thesis by simp
qed

text \<open>
  C31. \<open>strncmp\<close> returns 0 exactly when the two C strings agree on their first \<open>n\<close>
  characters.
\<close>

theorem strncmp_zero_iff:
  "strncmp m a b n = 0 \<longleftrightarrow> cstr m a (unat n) = cstr m b (unat n)"
  by (rule strncmp_zero_iff_cstr)

text \<open>
  \<open>strlen\<close> returns, and returns the distance to the first zero byte, whenever there is
  a zero byte.
\<close>

theorem strlen_first_zero:
  assumes "m (what + of_nat k) = 0" "\<forall>i<k. m (what + of_nat i) \<noteq> 0"
  shows "strlen m what = Some (of_nat k)"
  using strlen_loop_eq [of m what k] assms by (simp add: strlen_def)

theorem strlen_first_zero_witness:
  "strlen (\<lambda>a. if a < 103 then 65 else 0) 100 = Some (of_nat 3)"
proof (rule strlen_first_zero)
  show "\<forall>i<3. (if (100 :: u64) + of_nat i < 103 then 65 else 0) \<noteq> (0 :: u8)"
    by (auto simp: numeral_3_eq_3 less_Suc_eq)
qed simp

text \<open>
  \<open>memcmp\<close> compares only the first byte of its two buffers: its loop never advances the
  pointers, so for any nonzero length the result is the comparison of the first bytes.
\<close>

theorem memcmp_first_byte_only:
  assumes "n \<noteq> 0"
  shows "memcmp m a b n =
    (if sint (m a) < sint (m b) then -1 else if sint (m b) < sint (m a) then 1 else 0)"
  using assms
proof (induction m a b n rule: memcmp.induct)
  case (1 m a b n)
  then show ?case
    by (cases "n = 1")
      (auto simp: memcmp.simps [of m a b n] memcmp.simps [of m a b 0] memcmp.simps [of m a b 1])
qed

theorem memcmp_first_byte_only_witness:
  "memcmp (\<lambda>x. if x = 11 then 1 else 70) 10 20 5 = 0"
  using memcmp_first_byte_only [of 5 "\<lambda>x. if x = 11 then 1 else 70" 10 20] by simp

end
