(* ===== verification/KMemory.thy ===== *)
theory KMemory
  imports CString "HOL-Library.Signed_Division"
begin

text \<open>
  The kernel heap of src/src/memory.c. Blocks, their chunk masks and the allocation headers
  live in byte memory at the offsets of the C structs; the global \<open>heap\<close> is a record. A walk
  over the block list that never ends is the value \<open>Fault Diverges\<close>: the fuel is \<open>2^64\<close>
  blocks, and no block list without a cycle is longer, since its nodes are distinct
  64-bit addresses.
\<close>

unbundle bit_operations_syntax

subsection \<open>State\<close>

record kheap =
  kmem :: mem
  heap_sequence :: u32
  heap_currentObjects :: u32
  heap_block :: u64

text \<open>\<open>struct BlockT\<close>: next at 0, size at 8, nChunks at 16, chunkSize at 20, masks from 24.\<close>

definition blk_next :: "mem \<Rightarrow> u64 \<Rightarrow> u64" where
  "blk_next m b = load64 m b"

definition blk_size :: "mem \<Rightarrow> u64 \<Rightarrow> u64" where
  "blk_size m b = load64 m (b + 8)"

definition blk_nChunks :: "mem \<Rightarrow> u64 \<Rightarrow> u32" where
  "blk_nChunks m b = load32 m (b + 16)"

definition blk_chunkSize :: "mem \<Rightarrow> u64 \<Rightarrow> u32" where
  "blk_chunkSize m b = load32 m (b + 20)"

definition mask_addr :: "u64 \<Rightarrow> u32 \<Rightarrow> u64" where
  "mask_addr b k = b + 24 + 4 * ucast k"

definition chunkMask :: "mem \<Rightarrow> u64 \<Rightarrow> u32 \<Rightarrow> u32" where
  "chunkMask m b k = load32 m (mask_addr b k)"

definition sizeof_Block :: u64 where [layout]: "sizeof_Block = 24"

definition sizeof_AllocationHeader :: u64 where [layout]: "sizeof_AllocationHeader = 8"

text \<open>\<open>struct AllocationHeaderT\<close>: chunks at 0, sequence at 4.\<close>

definition hdr_chunks :: "mem \<Rightarrow> u64 \<Rightarrow> u32" where
  "hdr_chunks m a = load32 m a"

subsection \<open>Operations\<close>

definition kmem_current_objects :: "'a kheap_scheme \<Rightarrow> u32" where
  "kmem_current_objects h = heap_currentObjects h"

definition kmem_add_block :: "'a kheap_scheme \<Rightarrow> u64 \<Rightarrow> u64 \<Rightarrow> u64 \<Rightarrow> 'a kheap_scheme res" where
  "kmem_add_block h start sz chunkSize =
     (let m = store64 (kmem h) start (heap_block h);
          m = store64 m (start + 8) (sz - sizeof_Block);
          m = store32 m (start + 20) (ucast chunkSize)
      in if blk_chunkSize m start = 0 then Inl (Fault DivByZero)
         else
           let m = store32 m (start + 16)
                 (ucast (blk_size m start div ucast (blk_chunkSize m start)));
               m = store32 m (start + 16)
                 (ucast ((ucast (blk_nChunks m start) div 4) * 4 :: u64));
               m = bzero m (start + sizeof_Block) (ucast (blk_nChunks m start))
           in Inr (h\<lparr>kmem := m, heap_block := start\<rparr>))"

definition kmem_init :: "'a kheap_scheme \<Rightarrow> 'a kheap_scheme" where
  "kmem_init h = h\<lparr>heap_block := 0, heap_sequence := 0, heap_currentObjects := 0\<rparr>"

definition test_bits :: "u32 \<Rightarrow> u32 \<Rightarrow> bool" where
  "test_bits p msk \<longleftrightarrow> msk AND p = msk"

definition align8 :: "u64 \<Rightarrow> u64" where
  "align8 p = p + 8 - word_of_int (sint p smod 8)"

definition kmem_block_start :: "mem \<Rightarrow> u64 \<Rightarrow> u64" where
  "kmem_block_start m b = align8 (b + sizeof_Block + ucast (blk_nChunks m b) div 4)"

text \<open>
  \<open>1 << n\<close> on a 32-bt int: the x86 shift uses the low five bits of the count, so a count
  of 32 (undefined in C) shifts by 0.
\<close>

definition shl1 :: "u32 \<Rightarrow> u32" where
  "shl1 n = push_bit (unat n mod 32) 1"

definition requiredChunks :: "u64 \<Rightarrow> u32 \<Rightarrow> u32" where
  "requiredChunks sz cs =
     (let r = ucast (sz div ucast cs) :: u32
      in if ucast (cs * r) < sz then r + 1 else r)"

text \<open>The inner loop of \<open>kmem_alloc\<close> over the bits of one msk, and the loop over the masks.\<close>

function find_bit :: "u32 \<Rightarrow> u32 \<Rightarrow> nat \<Rightarrow> nat \<Rightarrow> (nat \<times> u32) option" where
  "find_bit w msk bt nBits =
     (if bt < nBits then
        if test_bits (NOT w) msk then Some (bt, msk)
        else find_bit w (push_bit 1 msk) (Suc bt) nBits
      else None)"
  by pat_completeness auto
termination
  by (relation "measure (\<lambda>(w, msk, bt, nBits). nBits - bt)") auto

function find_chunk :: "mem \<Rightarrow> u64 \<Rightarrow> u32 \<Rightarrow> u32 \<Rightarrow> (u32 \<times> nat \<times> u32) option" where
  "find_chunk m b req chunk =
     (if chunk < blk_nChunks m b then
        case find_bit (chunkMask m b chunk) (shl1 req - 1) 0 (32 - unat req + 1) of
          Some (bt, msk) \<Rightarrow> Some (chunk, bt, msk)
        | None \<Rightarrow> find_chunk m b req (chunk + 1)
      else None)"
  by pat_completeness auto
termination
  by (relation "measure (\<lambda>(m, b, req, chunk). unat (blk_nChunks m b) - unat chunk)")
    (auto simp: word_less_nat_alt)

text \<open>
  The body of the innermost loop, once a run of free bits is found. The product \<open>chunk * 8\<close>
  is a 32-bit one, the rest of the offset is computed in 64 bits.
\<close>

definition kmem_take ::
  "'a kheap_scheme \<Rightarrow> u64 \<Rightarrow> u32 \<Rightarrow> u32 \<Rightarrow> nat \<Rightarrow> u32 \<Rightarrow> u64 \<times> 'a kheap_scheme" where
  "kmem_take h b req chunk bt msk =
     (let m = store32 (kmem h) (mask_addr b chunk) (chunkMask (kmem h) b chunk OR msk);
          offset = ucast (blk_chunkSize m b) * (ucast (chunk * 8) * 4 + of_nat bt);
          memory = kmem_block_start m b + offset;
          m = store32 m memory req;
          m = store32 m (memory + 4) (heap_sequence h)
      in (memory + sizeof_AllocationHeader,
          h\<lparr>kmem := m, heap_sequence := heap_sequence h + 1,
            heap_currentObjects := heap_currentObjects h + 1\<rparr>))"

function kmem_alloc_blocks ::
  "nat \<Rightarrow> 'a kheap_scheme \<Rightarrow> u64 \<Rightarrow> u64 \<Rightarrow> (u64 \<times> 'a kheap_scheme) res" where
  "kmem_alloc_blocks fuel h sz b =
     (if b = 0 then Inl (Panic ''out of memory'')
      else if fuel = 0 then Inl (Fault Diverges)
      else
        let m = kmem h; cs = blk_chunkSize m b
        in if cs = 0 then Inl (Fault DivByZero)
           else let req = requiredChunks sz cs
             in if 32 < req then kmem_alloc_blocks (fuel - 1) h sz (blk_next m b)
                else case find_chunk m b req 0 of
                  None \<Rightarrow> kmem_alloc_blocks (fuel - 1) h sz (blk_next m b)
                | Some (chunk, bt, msk) \<Rightarrow> Inr (kmem_take h b req chunk bt msk))"
  by pat_completeness auto
termination
  by (relation "measure (\<lambda>(fuel, h, sz, b). fuel)") auto

definition kmem_alloc :: "'a kheap_scheme \<Rightarrow> u64 \<Rightarrow> (u64 \<times> 'a kheap_scheme) res" where
  "kmem_alloc h sz =
     kmem_alloc_blocks (2 ^ 64) h (sz + sizeof_AllocationHeader) (heap_block h)"

definition kmem_free_from_block :: "'a kheap_scheme \<Rightarrow> u64 \<Rightarrow> u64 \<Rightarrow> 'a kheap_scheme res" where
  "kmem_free_from_block h b header =
     (let m = kmem h; cs = blk_chunkSize m b;
          offset = header - kmem_block_start m b
      in if cs = 0 then Inl (Fault DivByZero)
         else
           let chunkSet = ucast (offset div ucast cs div 4) :: u32;
               firstForChunkSet = kmem_block_start m b + 32 * ucast chunkSet;
               shift = word_of_int (sint (header - firstForChunkSet) sdiv uint cs) :: u32;
               msk = push_bit (unat shift mod 32) (shl1 (hdr_chunks m header) - 1);
               m = store32 m (mask_addr b chunkSet) (chunkMask m b chunkSet AND NOT msk)
           in Inr (h\<lparr>kmem := m, heap_currentObjects := heap_currentObjects h - 1\<rparr>))"

function kmem_free_blocks :: "nat \<Rightarrow> 'a kheap_scheme \<Rightarrow> u64 \<Rightarrow> u64 \<Rightarrow> 'a kheap_scheme res" where
  "kmem_free_blocks fuel h ptr b =
     (if b = 0 then Inl (Panic ''could not find block for memory'')
      else if fuel = 0 then Inl (Fault Diverges)
      else
        let m = kmem h; start = kmem_block_start m b;
            finish = start + ucast (blk_nChunks m b * blk_chunkSize m b)
        in if start \<le> ptr \<and> ptr < finish
           then kmem_free_from_block h b (ptr - sizeof_AllocationHeader)
           else kmem_free_blocks (fuel - 1) h ptr (blk_next m b))"
  by pat_completeness auto
termination
  by (relation "measure (\<lambda>(fuel, h, ptr, b). fuel)") auto

definition kmem_free :: "'a kheap_scheme \<Rightarrow> u64 \<Rightarrow> 'a kheap_scheme res" where
  "kmem_free h ptr = kmem_free_blocks (2 ^ 64) h ptr (heap_block h)"

declare find_bit.simps [simp del] find_chunk.simps [simp del]
  kmem_alloc_blocks.simps [simp del] kmem_free_blocks.simps [simp del]


subsection \<open>Searching the masks\<close>

lemma find_bit_Some:
  "find_bit w (push_bit b0 base) b0 n = Some (b, msk) \<Longrightarrow>
     b0 \<le> b \<and> b < n \<and> msk = push_bit b base \<and> test_bits (NOT w) msk"
proof (induction "n - b0" arbitrary: b0)
  case 0
  then show ?case by (simp add: find_bit.simps)
next
  case (Suc d)
  then have "b0 < n" by simp
  show ?case
  proof (cases "test_bits (NOT w) (push_bit b0 base)")
    case True
    with Suc.prems \<open>b0 < n\<close> show ?thesis
      by (auto simp: find_bit.simps [of w "push_bit b0 base"])
  next
    case False
    then have "find_bit w (push_bit (Suc b0) base) (Suc b0) n = Some (b, msk)"
      using Suc.prems \<open>b0 < n\<close>
      by (simp add: find_bit.simps [of w "push_bit b0 base"] push_bit_Suc ac_simps)
    then show ?thesis using Suc.hyps(1) [of "Suc b0"] Suc.hyps(2) by force
  qed
qed

lemma find_bit_None:
  "find_bit w (push_bit b0 base) b0 n = None \<Longrightarrow> b0 \<le> j \<Longrightarrow> j < n \<Longrightarrow>
     \<not> test_bits (NOT w) (push_bit j base)"
proof (induction "n - b0" arbitrary: b0)
  case 0
  then show ?case by simp
next
  case (Suc d)
  then have "b0 < n" by simp
  with Suc.prems(1) have no: "\<not> test_bits (NOT w) (push_bit b0 base)"
    and rest: "find_bit w (push_bit (Suc b0) base) (Suc b0) n = None"
    by (simp_all add: find_bit.simps [of w "push_bit b0 base"] push_bit_double push_bit_Suc
        split: if_splits)
  with Suc.hyps(1) [of "Suc b0"] Suc.hyps(2) Suc.prems show ?case
    by (cases "j = b0") auto
qed

lemma find_chunk_Some:
  "find_chunk m b req chunk = Some (k, bt, msk) \<Longrightarrow>
     chunk \<le> k \<and> k < blk_nChunks m b \<and>
     find_bit (chunkMask m b k) (shl1 req - 1) 0 (32 - unat req + 1) = Some (bt, msk)"
proof (induction m b req chunk rule: find_chunk.induct)
  case (1 m b req chunk)
  then show ?case
    by (cases "chunk < blk_nChunks m b")
      (force simp: find_chunk.simps [of m b req chunk] word_le_nat_alt
        split: option.splits)+
qed

lemma find_chunk_None:
  "find_chunk m b req chunk = None \<Longrightarrow> chunk \<le> k \<Longrightarrow> k < blk_nChunks m b \<Longrightarrow>
     find_bit (chunkMask m b k) (shl1 req - 1) 0 (32 - unat req + 1) = None"
proof (induction m b req chunk rule: find_chunk.induct)
  case (1 m b req chunk)
  then have lt: "chunk < blk_nChunks m b" by (simp add: word_less_nat_alt word_le_nat_alt)
  with "1.prems"(1) have fb: "find_bit (chunkMask m b chunk) (shl1 req - 1) 0 (32 - unat req + 1) = None"
    and rest: "find_chunk m b req (chunk + 1) = None"
    by (auto simp: find_chunk.simps [of m b req chunk] split: option.splits)
  show ?case
  proof (cases "k = chunk")
    case False
    with "1.prems"(2) have "chunk + 1 \<le> k" by (simp add: inc_le order.not_eq_order_implies_strict)
    then show ?thesis using "1.IH" [OF lt fb rest] "1.prems"(3) by blast
  qed (use fb in simp)
qed

lemma find_bit_first:
  "find_bit w (push_bit b0 base) b0 n = Some (b, msk) \<Longrightarrow> b0 \<le> j \<Longrightarrow> j < b \<Longrightarrow>
     \<not> test_bits (NOT w) (push_bit j base)"
proof (induction "n - b0" arbitrary: b0)
  case 0
  then show ?case by (simp add: find_bit.simps)
next
  case (Suc d)
  then have "b0 < n" by simp
  show ?case
  proof (cases "test_bits (NOT w) (push_bit b0 base)")
    case True
    then have "b = b0" using Suc.prems(1) \<open>b0 < n\<close> by (simp add: find_bit.simps [of w "push_bit b0 base"])
    then show ?thesis using Suc.prems by simp
  next
    case False
    then have "find_bit w (push_bit (Suc b0) base) (Suc b0) n = Some (b, msk)"
      using Suc.prems \<open>b0 < n\<close>
      by (simp add: find_bit.simps [of w "push_bit b0 base"] push_bit_Suc ac_simps)
    then show ?thesis using Suc.hyps(1) [of "Suc b0"] Suc.hyps(2) Suc.prems False
      by (cases "j = b0") auto
  qed
qed

lemma find_chunk_first:
  "find_chunk m b req chunk = Some (k, bt, msk) \<Longrightarrow> chunk \<le> j \<Longrightarrow> j < k \<Longrightarrow>
     find_bit (chunkMask m b j) (shl1 req - 1) 0 (32 - unat req + 1) = None"
proof (induction m b req chunk rule: find_chunk.induct)
  case (1 m b req chunk)
  from find_chunk_Some [OF "1.prems"(1)] "1.prems"(2,3) have lt: "chunk < blk_nChunks m b" by auto
  show ?case
  proof (cases "find_bit (chunkMask m b chunk) (shl1 req - 1) 0 (32 - unat req + 1)")
    case None
    then have rest: "find_chunk m b req (chunk + 1) = Some (k, bt, msk)"
      using "1.prems"(1) lt by (simp add: find_chunk.simps [of m b req chunk])
    show ?thesis
    proof (cases "j = chunk")
      case False
      with "1.prems"(2) have "chunk + 1 \<le> j" by (simp add: inc_le order.not_eq_order_implies_strict)
      then show ?thesis using "1.IH" [OF lt None rest] "1.prems"(3) by blast
    qed (use None in simp)
  next
    case (Some r)
    then have "k = chunk" using "1.prems"(1) lt by (auto simp: find_chunk.simps [of m b req chunk])
    with "1.prems"(2,3) show ?thesis by simp
  qed
qed

text \<open>The first run of free bits is \<open>unat req\<close> consecutive clear bits of one mask.\<close>

lemma shl1_minus_1: "0 < req \<Longrightarrow> req < 32 \<Longrightarrow> shl1 req - 1 = mask (unat req)"
  by (simp add: shl1_def word_less_nat_alt mask_eq_exp_minus_1 push_bit_eq_mult)

lemma bit_run:
  "bit (push_bit b (mask r) :: u32) i \<longleftrightarrow> b \<le> i \<and> i < b + r \<and> i < 32"
  by (auto simp: bit_push_bit_iff bit_mask_iff)

lemma test_bits_run:
  assumes "b + r \<le> 32"
  shows "test_bits (NOT w) (push_bit b (mask r)) \<longleftrightarrow> (\<forall>i. b \<le> i \<and> i < b + r \<longrightarrow> \<not> bit w i)"
proof -
  have "test_bits (NOT w) (push_bit b (mask r)) \<longleftrightarrow>
      (\<forall>i<32. bit (push_bit b (mask r) AND NOT w) i = bit (push_bit b (mask r) :: u32) i)"
    unfolding test_bits_def by (auto intro: bit_word_eqI)
  then show ?thesis
    using assms by (simp add: bit_and_iff bit_not_iff bit_run) (metis order.strict_trans2)
qed

lemma find_chunk_run:
  assumes "find_chunk m b req 0 = Some (k, bt, msk)" "0 < req" "req < 32"
  shows "k < blk_nChunks m b \<and> bt + unat req \<le> 32 \<and> msk = push_bit bt (mask (unat req)) \<and>
    (\<forall>i. bt \<le> i \<and> i < bt + unat req \<longrightarrow> \<not> bit (chunkMask m b k) i)"
proof -
  from assms(3) have r: "unat req < 32" by (simp add: word_less_nat_alt)
  from find_chunk_Some [OF assms(1)] have k: "k < blk_nChunks m b"
    and fb: "find_bit (chunkMask m b k) (push_bit 0 (mask (unat req))) 0 (32 - unat req + 1)
      = Some (bt, msk)"
    by (simp_all add: shl1_minus_1 assms)
  from find_bit_Some [OF fb] have bt: "bt < 32 - unat req + 1"
    "msk = push_bit bt (mask (unat req))" "test_bits (NOT (chunkMask m b k)) msk"
    by auto
  with r have "bt + unat req \<le> 32" by simp
  with k bt show ?thesis using test_bits_run by blast
qed


subsection \<open>Geometry of a block\<close>

text \<open>
  What the callers of \<open>kmem_add_block\<close> give: an aligned block whose chunks fit below the
  sign bit of the address space. \<open>used\<close> reads the mark of chunk \<open>i\<close>.
\<close>

definition block_ok :: "mem \<Rightarrow> u64 \<Rightarrow> bool" where
  "block_ok m b \<longleftrightarrow> b \<noteq> 0 \<and> unat b mod 8 = 0 \<and> 8 < unat (blk_chunkSize m b) \<and>
     unat b + 40 + unat (blk_nChunks m b) + unat (blk_nChunks m b) * unat (blk_chunkSize m b) < 2 ^ 63"

lemma block_okD:
  assumes "block_ok m b"
  shows "unat b mod 8 = 0" and "8 < unat (blk_chunkSize m b)"
    and "unat b + 40 + unat (blk_nChunks m b) +
      unat (blk_nChunks m b) * unat (blk_chunkSize m b) < 2 ^ 63"
  using assms by (simp_all add: block_ok_def)

definition used :: "mem \<Rightarrow> u64 \<Rightarrow> nat \<Rightarrow> bool" where
  "used m b i \<longleftrightarrow> bit (chunkMask m b (of_nat (i div 32))) (i mod 32)"

lemma sint_small:
  assumes "unat (p :: u64) < 2 ^ 63"
  shows "sint p = uint p"
proof -
  have "int (unat p) < int (2 ^ 63)" using assms by (simp only: of_nat_less_iff)
  then have "uint p < 2 ^ 63" by simp
  moreover have "0 \<le> uint p" by simp
  ultimately have "signed_take_bit 63 (uint p) = uint p"
    by (intro signed_take_bit_int_eq_self) linarith+
  then show ?thesis by (simp add: sint_uint)
qed

lemma align_arith: "8 * c + 24 + q + 8 - (8 * c + 24 + q) mod 8 = 8 * c + 32 + 8 * (q div 8)"
  for c q :: nat
proof -
  have "8 * c + 24 + q = q + 8 * (c + 3)" by simp
  then have "(8 * c + 24 + q) mod 8 = q mod 8" by (simp only: mod_mult_self2)
  then show ?thesis using mult_div_mod_eq [of 8 q] by linarith
qed

lemma unat_ucast_32_64 [simp]: "unat (ucast (x :: u32) :: u64) = unat x"
  using unat_less_2p [of x] by (simp add: unsigned_ucast_eq take_bit_nat_eq_self)

lemma unat_align8:
  assumes "unat p + 8 < 2 ^ 63"
  shows "unat (align8 p) = unat p + 8 - unat p mod 8"
proof -
  have "sint p smod 8 = int (unat p mod 8)"
    using assms by (cases "p = 0")
      (simp_all add: sint_small signed_modulo_int_def zmod_int order.not_eq_order_implies_strict)
  then have "align8 p = of_nat (unat p) + 8 - of_nat (unat p mod 8)"
    by (simp add: align8_def)
  also have "\<dots> = of_nat (unat p + 8 - unat p mod 8)"
    by (subst of_nat_diff) (simp_all add: trans_le_add1)
  finally have eq: "align8 p = of_nat (unat p + 8 - unat p mod 8)" .
  show ?thesis
    unfolding eq using assms by (intro unat_of_nat_small) simp
qed

lemma unat_block_start:
  assumes "block_ok m b"
  shows "unat (kmem_block_start m b) = unat b + 32 + 8 * (unat (blk_nChunks m b) div 32)"
proof -
  define n where "n = unat (blk_nChunks m b)"
  have ok: "unat b mod 8 = 0" "unat b + 40 + n < 2 ^ 63"
    using assms by (simp_all add: block_ok_def n_def)
  have "unat (ucast (blk_nChunks m b) div 4 :: u64) = n div 4"
    by (simp add: unat_div_distrib unat_ucast_32_64 n_def)
  with ok have p: "unat (b + sizeof_Block + ucast (blk_nChunks m b) div 4) = unat b + 24 + n div 4"
    by (simp add: unat_plus_if' layout)
  have "unat b + 24 + n div 4 + 8 - (unat b + 24 + n div 4) mod 8 = unat b + 32 + 8 * (n div 32)"
  proof -
    obtain c where "unat b = 8 * c" using ok(1) by auto
    moreover have "n div 32 = n div 4 div 8" by (simp add: div_mult2_eq [symmetric])
    ultimately show ?thesis by (simp only: align_arith)
  qed
  with p ok show ?thesis
    by (simp add: kmem_block_start_def unat_align8 n_def)
qed


lemma unat_mask_addr:
  assumes "unat b + 28 + 4 * unat k < 2 ^ 64"
  shows "unat (mask_addr b k) = unat b + 24 + 4 * unat k"
proof -
  have "unat (4 * ucast k :: u64) = 4 * unat k"
    using assms by (simp add: unat_word_ariths)
  with assms show ?thesis
    by (simp add: mask_addr_def unat_plus_if')
qed

lemma mask_addr_inject_separate:
  assumes "unat b + 28 + 4 * unat j < 2 ^ 63" "unat b + 28 + 4 * unat k < 2 ^ 63" "j \<noteq> k"
  shows "separate (mask_addr b j) 4 (mask_addr b k) 4"
proof -
  have "unat j \<noteq> unat k" using assms(3) by (simp add: word_unat_eq_iff)
  then consider "unat j < unat k" | "unat k < unat j" by linarith
  then show ?thesis
  proof cases
    case 1
    then show ?thesis using assms by (intro separateI_less) (simp_all add: unat_mask_addr)
  next
    case 2
    then show ?thesis
      using assms by (subst separate_sym, intro separateI_less) (simp_all add: unat_mask_addr)
  qed
qed

text \<open>Chunk \<open>c\<close> of a block starts at \<open>chunk_addr m b c\<close>; in-block chunks lie past every mask.\<close>

definition chunk_addr :: "mem \<Rightarrow> u64 \<Rightarrow> nat \<Rightarrow> u64" where
  "chunk_addr m b c = kmem_block_start m b + ucast (blk_chunkSize m b) * of_nat c"

lemma unat_chunk_addr:
  assumes ok: "block_ok m b" and c: "c \<le> unat (blk_nChunks m b)"
  shows "unat (chunk_addr m b c) =
    unat b + 32 + 8 * (unat (blk_nChunks m b) div 32) + c * unat (blk_chunkSize m b)"
proof -
  let ?n = "unat (blk_nChunks m b)" and ?cs = "unat (blk_chunkSize m b)"
  have "c * ?cs \<le> ?n * ?cs" using c by simp
  then have lt: "unat b + 40 + ?n + c * ?cs < 2 ^ 63"
    using block_okD(3) [OF ok] by linarith
  have "unat (of_nat c :: u64) = c"
    using c unat_less_2p [of "blk_nChunks m b"] by (intro unat_of_nat_small) simp
  with lt have "unat (ucast (blk_chunkSize m b) * of_nat c :: u64) = c * ?cs"
    by (simp add: unat_word_ariths mult.commute)
  moreover have "unat b + 32 + 8 * (?n div 32) + c * ?cs < 2 ^ 63" using lt by simp
  ultimately show ?thesis
    using unat_block_start [OF ok] by (simp add: chunk_addr_def unat_plus_if')
qed

lemma in_block_mask_bound:
  assumes "block_ok m b" "32 * unat k < unat (blk_nChunks m b)"
  shows "unat b + 28 + 4 * unat k < 2 ^ 63"
  using assms by (simp add: block_ok_def)

lemma mask_chunk_separate:
  assumes ok: "block_ok m b" and k: "32 * unat k < unat (blk_nChunks m b)"
    and c: "c < unat (blk_nChunks m b)"
  shows "separate (mask_addr b k) 4 (chunk_addr m b c) 4"
    and "separate (mask_addr b k) 4 (chunk_addr m b c + 4) 4"
proof -
  let ?n = "unat (blk_nChunks m b)" and ?cs = "unat (blk_chunkSize m b)"
  have "Suc c * ?cs \<le> ?n * ?cs" using c by (intro mult_right_mono) simp_all
  then have lt: "unat b + 40 + ?n + c * ?cs + 8 < 2 ^ 63"
    using block_okD(2,3) [OF ok] by simp
  have a: "unat (chunk_addr m b c) = unat b + 32 + 8 * (?n div 32) + c * ?cs"
    using unat_chunk_addr [OF ok] c by simp
  have a4: "unat (chunk_addr m b c + 4) = unat (chunk_addr m b c) + 4"
    using lt a by (simp add: unat_plus_if')
  have "unat k \<le> ?n div 32" using k by linarith
  moreover have mk: "unat (mask_addr b k) = unat b + 24 + 4 * unat k"
    using in_block_mask_bound [OF ok k] by (intro unat_mask_addr) simp
  ultimately have "unat (mask_addr b k) + 4 \<le> unat (chunk_addr m b c)" using a by linarith
  then show "separate (mask_addr b k) 4 (chunk_addr m b c) 4"
    and "separate (mask_addr b k) 4 (chunk_addr m b c + 4) 4"
    using a4 lt a by (auto intro!: separateI_less)
qed

text \<open>The header fields of a block are apart from everything past the header.\<close>

lemma block_fields_upd:
  assumes ok: "block_ok m b" and a: "unat b + 24 \<le> unat a" "unat a + 4 < 2 ^ 63"
  shows "blk_next (store32 m a v) b = blk_next m b"
    and "blk_nChunks (store32 m a v) b = blk_nChunks m b"
    and "blk_chunkSize (store32 m a v) b = blk_chunkSize m b"
proof -
  have b: "unat b + 40 < 2 ^ 63" using ok by (simp add: block_ok_def)
  then have u: "unat (b + 16) = unat b + 16" "unat (b + 20) = unat b + 20"
    by (simp_all add: unat_plus_if')
  show "blk_next (store32 m a v) b = blk_next m b"
    unfolding blk_next_def using a b by (intro load64_store32_separate separateI_less) simp_all
  show "blk_nChunks (store32 m a v) b = blk_nChunks m b"
    unfolding blk_nChunks_def using a b u
    by (intro load32_store32_separate separateI_less) simp_all
  show "blk_chunkSize (store32 m a v) b = blk_chunkSize m b"
    unfolding blk_chunkSize_def using a b u
    by (intro load32_store32_separate separateI_less) simp_all
qed


subsection \<open>Allocating and freeing inside a block\<close>

text \<open>Chunk numbers: mask \<open>k\<close>, bit \<open>bt\<close> is chunk \<open>32 * k + bt\<close>.\<close>

lemma unat_mask_index: "i < 2 ^ 32 \<Longrightarrow> unat (of_nat (i div 32) :: u32) = i div 32"
  by (rule unat_of_nat_small) simp

lemma in_run_iff:
  fixes bt r i k :: nat
  assumes "bt + r \<le> 32"
  shows "32 * k + bt \<le> i \<and> i < 32 * k + bt + r \<longleftrightarrow> i div 32 = k \<and> bt \<le> i mod 32 \<and> i mod 32 < bt + r"
proof -
  have "i = 32 * (i div 32) + i mod 32" "i mod 32 < 32" by simp_all
  moreover have "i div 32 \<noteq> k \<Longrightarrow> 32 * (i div 32) + 32 \<le> 32 * k \<or> 32 * k + 32 \<le> 32 * (i div 32)"
    by linarith
  ultimately show ?thesis using assms by linarith
qed

text \<open>The state after storing \<open>w\<close> in mask \<open>k\<close> and a two-word header at chunk \<open>c\<close>.\<close>

lemma used_upd:
  assumes ok: "block_ok m b" and k: "32 * unat k < unat (blk_nChunks m b)"
    and i: "i < unat (blk_nChunks m b)"
  shows "used (store32 m (mask_addr b k) w) b i \<longleftrightarrow>
    (if i div 32 = unat k then bit w (i mod 32) else used m b i)"
proof -
  let ?j = "of_nat (i div 32) :: u32"
  have "i < 2 ^ 32" using i unat_less_2p [of "blk_nChunks m b"] by simp
  then have uj: "unat ?j = i div 32" by (rule unat_mask_index)
  have j: "32 * unat ?j < unat (blk_nChunks m b)" using i uj by linarith
  show ?thesis
  proof (cases "i div 32 = unat k")
    case True
    with uj have "?j = k" by (simp add: word_unat_eq_iff)
    then show ?thesis by (simp add: used_def chunkMask_def load32_store32 True)
  next
    case False
    with uj have "?j \<noteq> k" by (metis)
    then have "separate (mask_addr b ?j) 4 (mask_addr b k) 4"
      using in_block_mask_bound [OF ok j] in_block_mask_bound [OF ok k]
      by (rule mask_addr_inject_separate [rotated 2])
    with False show ?thesis
      by (simp add: used_def chunkMask_def load32_store32_separate)
  qed
qed

lemma used_header_upd:
  assumes ok: "block_ok m b" and c: "c < unat (blk_nChunks m b)"
    and i: "i < unat (blk_nChunks m b)"
  shows "used (store32 (store32 m' (chunk_addr m b c) v) (chunk_addr m b c + 4) v') b i \<longleftrightarrow>
    used m' b i"
proof -
  let ?j = "of_nat (i div 32) :: u32"
  have "i < 2 ^ 32" using i unat_less_2p [of "blk_nChunks m b"] by simp
  then have "32 * unat ?j < unat (blk_nChunks m b)"
    using i unat_mask_index [of i] by linarith
  from mask_chunk_separate [OF ok this c] show ?thesis
    by (simp add: used_def chunkMask_def load32_store32_separate)
qed

lemma take_offset:
  fixes k :: u32
  assumes "unat k < 2 ^ 29"
  shows "ucast (k * 8) * 4 + of_nat bt = (of_nat (32 * unat k + bt) :: u64)"
proof -
  have "unat (k * 8) = unat k * 8" using assms by (simp add: unat_word_ariths)
  moreover have "(ucast w :: u64) = of_nat (unat w)" for w :: u32 by (simp add: unsigned_ucast_eq)
  ultimately have "(ucast (k * 8) :: u64) = of_nat (unat k * 8)" by (simp only:)
  then show ?thesis by simp
qed

text \<open>The stores of \<open>kmem_take\<close> for a run that starts inside the block leave the block's fields alone.\<close>

lemma kmem_take_writes:
  fixes h :: "'a kheap_scheme"
  assumes ok: "block_ok (kmem h) b" and c: "c = 32 * unat k + bt" "c < unat (blk_nChunks (kmem h) b)"
    and take: "kmem_take h b req k bt msk = (p, h')"
  shows "p = chunk_addr (kmem h) b c + 8"
    and "kmem h' = store32 (store32 (store32 (kmem h) (mask_addr b k) (chunkMask (kmem h) b k OR msk))
      (chunk_addr (kmem h) b c) req) (chunk_addr (kmem h) b c + 4) (heap_sequence h)"
    and "blk_nChunks (kmem h') b = blk_nChunks (kmem h) b"
    and "blk_chunkSize (kmem h') b = blk_chunkSize (kmem h) b"
    and "blk_next (kmem h') b = blk_next (kmem h) b"
    and "unat (chunk_addr (kmem h) b c) + 8 < 2 ^ 63"
proof -
  define m where "m = kmem h"
  define m1 where "m1 = store32 m (mask_addr b k) (chunkMask m b k OR msk)"
  define A where "A = chunk_addr m b c"
  note ok = ok [folded m_def]
  have cn: "c < unat (blk_nChunks m b)" using c(2) by (simp add: m_def)
  then have k: "32 * unat k < unat (blk_nChunks m b)" using c by simp
  note kb = in_block_mask_bound [OF ok k]
  then have mk: "unat (mask_addr b k) = unat b + 24 + 4 * unat k" by (intro unat_mask_addr) simp
  have f1: "blk_nChunks m1 b = blk_nChunks m b" "blk_chunkSize m1 b = blk_chunkSize m b"
    "blk_next m1 b = blk_next m b"
    unfolding m1_def using mk kb by (simp_all add: block_fields_upd [OF ok])
  have "unat k < 2 ^ 29" using k unat_less_2p [of "blk_nChunks m b"] by simp
  then have ofc: "ucast (k * 8) * 4 + of_nat bt = (of_nat c :: u64)"
    unfolding c(1) by (rule take_offset)
  have A: "kmem_block_start m1 b + ucast (blk_chunkSize m1 b) * (ucast (k * 8) * 4 + of_nat bt) = A"
    unfolding A_def chunk_addr_def ofc f1 kmem_block_start_def ..
  then have p: "p = A + 8" and h': "kmem h' = store32 (store32 m1 A req) (A + 4) (heap_sequence h)"
    using take by (auto simp: kmem_take_def m1_def [symmetric] m_def [symmetric] layout Let_def)
  show "p = chunk_addr (kmem h) b c + 8" using p by (simp add: A_def m_def)
  show "kmem h' = store32 (store32 (store32 (kmem h) (mask_addr b k) (chunkMask (kmem h) b k OR msk))
      (chunk_addr (kmem h) b c) req) (chunk_addr (kmem h) b c + 4) (heap_sequence h)"
    using h' by (simp add: m1_def A_def m_def)
  have uA: "unat A = unat b + 32 + 8 * (unat (blk_nChunks m b) div 32) + c * unat (blk_chunkSize m b)"
    unfolding A_def using cn by (intro unat_chunk_addr [OF ok]) simp
  have "Suc c * unat (blk_chunkSize m b) \<le> unat (blk_nChunks m b) * unat (blk_chunkSize m b)"
    using cn by (intro mult_right_mono) simp_all
  then have bA: "unat A + 8 < 2 ^ 63"
    using block_okD(2,3) [OF ok] uA by simp
  then show "unat (chunk_addr (kmem h) b c) + 8 < 2 ^ 63" by (simp add: A_def m_def)
  have uA4: "unat (A + 4) = unat A + 4" using bA by (simp add: unat_plus_if')
  have ok1: "block_ok m1 b" using ok by (simp add: block_ok_def f1)
  have f2: "blk_nChunks (store32 m1 A req) b = blk_nChunks m b"
    "blk_chunkSize (store32 m1 A req) b = blk_chunkSize m b"
    "blk_next (store32 m1 A req) b = blk_next m b"
    using uA bA f1 by (simp_all add: block_fields_upd [OF ok1])
  then have ok2: "block_ok (store32 m1 A req) b" using ok by (simp add: block_ok_def)
  show "blk_nChunks (kmem h') b = blk_nChunks (kmem h) b"
    and "blk_chunkSize (kmem h') b = blk_chunkSize (kmem h) b"
    and "blk_next (kmem h') b = blk_next (kmem h) b"
    unfolding h' using uA uA4 bA f2 by (simp_all add: block_fields_upd [OF ok2] m_def)
qed

text \<open>What \<open>kmem_take\<close> does when the run lies inside the block.\<close>

lemma kmem_take_in_block:
  fixes h :: "'a kheap_scheme"
  assumes ok: "block_ok (kmem h) b"
    and msk: "msk = push_bit bt (mask (unat req))" and fit: "bt + unat req \<le> 32" and req: "0 < req"
    and c: "c = 32 * unat k + bt" "c + unat req \<le> unat (blk_nChunks (kmem h) b)"
    and take: "kmem_take h b req k bt msk = (p, h')"
  shows "p = chunk_addr (kmem h) b c + 8"
    and "blk_nChunks (kmem h') b = blk_nChunks (kmem h) b"
    and "blk_chunkSize (kmem h') b = blk_chunkSize (kmem h) b"
    and "hdr_chunks (kmem h') (chunk_addr (kmem h) b c) = req"
    and "i < unat (blk_nChunks (kmem h) b) \<Longrightarrow>
      used (kmem h') b i \<longleftrightarrow> used (kmem h) b i \<or> c \<le> i \<and> i < c + unat req"
    and "blk_next (kmem h') b = blk_next (kmem h) b"
proof -
  define A where "A = chunk_addr (kmem h) b c"
  define m1 where "m1 = store32 (kmem h) (mask_addr b k) (chunkMask (kmem h) b k OR msk)"
  have "0 < unat req" using req by (simp add: unat_gt_0)
  then have cn: "c < unat (blk_nChunks (kmem h) b)" using c(2) by simp
  then have k: "32 * unat k < unat (blk_nChunks (kmem h) b)" using c by simp
  note w = kmem_take_writes [OF ok c(1) cn take]
  note h' = w(2) [folded m1_def A_def]
  show "p = chunk_addr (kmem h) b c + 8" "blk_nChunks (kmem h') b = blk_nChunks (kmem h) b"
    "blk_chunkSize (kmem h') b = blk_chunkSize (kmem h) b" "blk_next (kmem h') b = blk_next (kmem h) b"
    by (fact w)+
  have "unat (A + 4) = unat A + 4" "unat A + 8 < 2 ^ 63" using w(6) by (simp_all add: A_def unat_plus_if')
  then have "separate A 4 (A + 4) 4" by (intro separateI_less) simp_all
  then show "hdr_chunks (kmem h') (chunk_addr (kmem h) b c) = req"
    by (simp add: hdr_chunks_def h' A_def [symmetric] load32_store32 load32_store32_separate)
  assume i: "i < unat (blk_nChunks (kmem h) b)"
  have "used (kmem h') b i \<longleftrightarrow> used m1 b i"
    unfolding h' A_def using cn i by (intro used_header_upd [OF ok]) simp_all
  also have "\<dots> \<longleftrightarrow> used (kmem h) b i \<or> (i div 32 = unat k \<and> bt \<le> i mod 32 \<and> i mod 32 < bt + unat req)"
    unfolding m1_def msk using i used_upd [OF ok k]
    by (auto simp: used_def bit_or_iff bit_run)
  also have "\<dots> \<longleftrightarrow> used (kmem h) b i \<or> c \<le> i \<and> i < c + unat req"
    unfolding c(1) in_run_iff [OF fit] ..
  finally show "used (kmem h') b i \<longleftrightarrow> used (kmem h) b i \<or> c \<le> i \<and> i < c + unat req" .
qed

subsection \<open>Walking the block list\<close>

fun block_chain :: "mem \<Rightarrow> u64 \<Rightarrow> u64 list \<Rightarrow> bool" where
  "block_chain m b [] \<longleftrightarrow> b = 0"
| "block_chain m b (x # xs) \<longleftrightarrow> b = x \<and> b \<noteq> 0 \<and> block_chain m (blk_next m b) xs"

text \<open>First fit over a list of blocks, without pointers or fuel.\<close>

fun alloc_first_fit :: "'a kheap_scheme \<Rightarrow> u64 \<Rightarrow> u64 list \<Rightarrow> (u64 \<times> 'a kheap_scheme) res" where
  "alloc_first_fit h sz [] = Inl (Panic ''out of memory'')"
| "alloc_first_fit h sz (b # bs) =
     (let cs = blk_chunkSize (kmem h) b; req = requiredChunks sz cs
      in if cs = 0 then Inl (Fault DivByZero)
         else if 32 < req then alloc_first_fit h sz bs
         else case find_chunk (kmem h) b req 0 of
             None \<Rightarrow> alloc_first_fit h sz bs
           | Some (chunk, bt, msk) \<Rightarrow> Inr (kmem_take h b req chunk bt msk))"

lemma block_chain_unique: "block_chain m b xs \<Longrightarrow> block_chain m b ys \<Longrightarrow> xs = ys"
proof (induction xs arbitrary: b ys)
  case Nil
  then show ?case by (cases ys) auto
next
  case (Cons x xs)
  then show ?case by (cases ys) auto
qed

lemma block_chain_suffix:
  "block_chain m b (xs @ x # ys) \<Longrightarrow> block_chain m x (x # ys)"
  by (induction xs arbitrary: b) auto

lemma block_chain_distinct: "block_chain m b bs \<Longrightarrow> distinct bs"
proof (induction bs arbitrary: b)
  case (Cons x xs)
  have "x \<notin> set xs"
  proof
    assume "x \<in> set xs"
    then obtain us vs where xs: "xs = us @ x # vs" by (auto simp: in_set_conv_decomp)
    with Cons.prems have "block_chain m x ((x # us) @ x # vs)" by auto
    from block_chain_suffix [OF this] this have "x # vs = (x # us) @ x # vs"
      by (rule block_chain_unique)
    from arg_cong [OF this, of length] show False by simp
  qed
  with Cons show ?case by auto
qed simp

lemma block_chain_length: "block_chain m b bs \<Longrightarrow> length bs \<le> 2 ^ 64"
proof -
  assume "block_chain m b bs"
  then have "length bs = card (set bs)" by (simp add: block_chain_distinct distinct_card)
  also have "\<dots> \<le> card (UNIV :: u64 set)" by (intro card_mono) simp_all
  finally show ?thesis by (simp add: card_word)
qed

lemma kmem_alloc_blocks_chain:
  "block_chain (kmem h) b bs \<Longrightarrow> length bs \<le> fuel \<Longrightarrow>
     kmem_alloc_blocks fuel h sz b = alloc_first_fit h sz bs"
proof (induction bs arbitrary: b fuel)
  case Nil
  then show ?case by (simp add: kmem_alloc_blocks.simps)
next
  case (Cons x xs)
  then have fuel: "fuel \<noteq> 0" "length xs \<le> fuel - 1" by auto
  from Cons.prems(1) have x: "x = b" "b \<noteq> 0" "block_chain (kmem h) (blk_next (kmem h) b) xs" by auto
  from Cons.IH [OF x(3) fuel(2)] fuel(1) x(2) show ?case
    unfolding x(1)
    by (subst kmem_alloc_blocks.simps) (simp add: Let_def split: option.splits)
qed

lemma kmem_alloc_eq:
  "block_chain (kmem h) (heap_block h) bs \<Longrightarrow>
     kmem_alloc h sz = alloc_first_fit h (sz + sizeof_AllocationHeader) bs"
  unfolding kmem_alloc_def by (intro kmem_alloc_blocks_chain block_chain_length)

lemma alloc_first_fit_Inr:
  "alloc_first_fit h sz bs = Inr r \<Longrightarrow>
     \<exists>b\<in>set bs. \<exists>k bt msk. let req = requiredChunks sz (blk_chunkSize (kmem h) b)
       in req \<le> 32 \<and> find_chunk (kmem h) b req 0 = Some (k, bt, msk) \<and> kmem_take h b req k bt msk = r"
  by (induction bs) (auto simp: Let_def not_less split: if_splits option.splits)

lemma kmem_take_addr:
  assumes ok: "block_ok (kmem h) b" and k: "k < blk_nChunks (kmem h) b" "unat k < 2 ^ 29"
  shows "fst (kmem_take h b req k bt msk) = chunk_addr (kmem h) b (32 * unat k + bt) + 8"
proof -
  define m1 where "m1 = store32 (kmem h) (mask_addr b k) (chunkMask (kmem h) b k OR msk)"
  let ?n = "unat (blk_nChunks (kmem h) b)"
  have "?n * 8 \<le> ?n * unat (blk_chunkSize (kmem h) b)"
    using block_okD(2) [OF ok] by (intro mult_left_mono) simp_all
  moreover have "unat k < ?n" using k(1) by (simp add: word_less_nat_alt)
  ultimately have "unat b + 28 + 4 * unat k < 2 ^ 63"
    using block_okD(3) [OF ok] by linarith
  then have f1: "blk_nChunks m1 b = blk_nChunks (kmem h) b"
    "blk_chunkSize m1 b = blk_chunkSize (kmem h) b"
    unfolding m1_def by (simp_all add: block_fields_upd [OF ok] unat_mask_addr)
  show ?thesis
    using take_offset [OF k(2), of bt]
    by (simp add: kmem_take_def m1_def [symmetric] Let_def layout chunk_addr_def f1 kmem_block_start_def
        del: of_nat_add of_nat_mult)
qed

lemma small_block_index:
  assumes ok: "block_ok m b" and small: "unat (blk_nChunks m b) * unat (blk_chunkSize m b) < 2 ^ 32"
    and k: "k < blk_nChunks m b"
  shows "unat k < 2 ^ 29"
proof -
  have "unat (blk_nChunks m b) * 8 \<le> unat (blk_nChunks m b) * unat (blk_chunkSize m b)"
    using block_okD(2) [OF ok] by (intro mult_left_mono) simp_all
  with small have "unat (blk_nChunks m b) * 8 < 2 ^ 32" by linarith
  then show ?thesis using k by (simp add: word_less_nat_alt)
qed


subsection \<open>Freeing\<close>

lemma sdiv_nonneg: "0 \<le> a \<Longrightarrow> 0 \<le> b \<Longrightarrow> a sdiv b = a div b" for a b :: int
  by (auto simp: signed_divide_int_def sgn_if)

text \<open>
  The mask and the bits that freeing the object at chunk \<open>c\<close> clears: mask \<open>c div 4\<close>,
  from bit \<open>(c * cs - 32 * (c div 4)) div cs\<close>.
\<close>

lemma kmem_free_from_block_eq:
  fixes h :: "'a kheap_scheme"
  defines "m \<equiv> kmem h"
  assumes ok: "block_ok m b" and c: "c < unat (blk_nChunks m b)"
  defines "cs \<equiv> unat (blk_chunkSize m b)" and "k \<equiv> of_nat (c div 4) :: u32"
  shows "kmem_free_from_block h b (chunk_addr m b c) = Inr (h
    \<lparr>kmem := store32 m (mask_addr b k) (chunkMask m b k AND NOT
        (push_bit ((c * cs - 32 * (c div 4)) div cs mod 32)
          (shl1 (hdr_chunks m (chunk_addr m b c)) - 1))),
     heap_currentObjects := heap_currentObjects h - 1\<rparr>)"
proof -
  have cs: "8 < cs" using block_okD(2) [OF ok] by (simp add: cs_def)
  have c32: "c < 2 ^ 32" using c unat_less_2p [of "blk_nChunks m b"] by simp
  have "c * cs \<le> unat (blk_nChunks m b) * cs" using c by (intro mult_right_mono) simp_all
  then have ccs: "c * cs < 2 ^ 63" using block_okD(3) [OF ok, folded cs_def] by linarith
  have le: "32 * (c div 4) \<le> c * cs"
  proof -
    have "32 * (c div 4) \<le> c * 8" by linarith
    also have "\<dots> \<le> c * cs" using cs by (intro mult_left_mono) simp_all
    finally show ?thesis .
  qed
  define off where "off = chunk_addr m b c - kmem_block_start m b"
  have off: "off = of_nat (c * cs)" by (simp add: off_def chunk_addr_def cs_def unsigned_ucast_eq)
  then have uoff: "unat off = c * cs" using ccs by (simp add: unat_of_nat_small del: of_nat_mult)
  have "unat (off div ucast (blk_chunkSize m b) div 4) = c div 4"
    using cs by (simp add: unat_div_distrib uoff cs_def)
  then have "off div ucast (blk_chunkSize m b) div 4 = of_nat (c div 4)"
    by (metis of_nat_unat ucast_id)
  moreover have uk: "unat k = c div 4" using c32 by (simp add: k_def unat_of_nat_small)
  ultimately have set: "ucast (off div ucast (blk_chunkSize m b) div 4) = k"
    using c32 by (simp add: word_unat_eq_iff unsigned_ucast_eq unat_of_nat_small take_bit_nat_eq_self)
  have uck: "ucast k = (of_nat (c div 4) :: u64)" unfolding uk [symmetric] by simp
  have "chunk_addr m b c - (kmem_block_start m b + 32 * ucast k) = off - 32 * ucast k"
    by (simp add: off_def)
  also have "\<dots> = of_nat (c * cs - 32 * (c div 4))"
    unfolding off uck using le by simp
  finally have d: "chunk_addr m b c - (kmem_block_start m b + 32 * ucast k) =
      of_nat (c * cs - 32 * (c div 4))" .
  have ud: "unat (of_nat (c * cs - 32 * (c div 4)) :: u64) = c * cs - 32 * (c div 4)"
    using ccs by (intro unat_of_nat_small) simp
  have q: "(c * cs - 32 * (c div 4)) div cs \<le> c"
    using cs by (metis diff_le_self div_le_mono nonzero_mult_div_cancel_right not_less0)
  have "sint (of_nat (c * cs - 32 * (c div 4)) :: u64) =
      uint (of_nat (c * cs - 32 * (c div 4)) :: u64)"
    by (rule sint_small) (use ud ccs in linarith)
  also have "\<dots> = int (c * cs - 32 * (c div 4))" unfolding uint_nat ud ..
  finally have "sint (of_nat (c * cs - 32 * (c div 4)) :: u64) sdiv uint (blk_chunkSize m b) =
      int ((c * cs - 32 * (c div 4)) div cs)"
    by (simp add: sdiv_nonneg zdiv_int cs_def del: of_nat_diff)
  then have sh: "unat (word_of_int (sint (chunk_addr m b c -
      (kmem_block_start m b + 32 * ucast k)) sdiv uint (blk_chunkSize m b)) :: u32) =
      (c * cs - 32 * (c div 4)) div cs"
    unfolding d using q c32 by (simp add: unat_of_nat_small)
  have "blk_chunkSize m b \<noteq> 0" using cs by (auto simp: cs_def)
  then show ?thesis
    unfolding kmem_free_from_block_def m_def [symmetric]
    by (simp add: Let_def set [unfolded off_def] sh)
qed


text \<open>The number of chunks requested holds the object and its header, and is the least such.\<close>

lemma requiredChunks_bounds:
  assumes "unat sz < 2 ^ 31" "cs \<noteq> 0"
  shows "unat sz \<le> unat (requiredChunks sz cs) * unat cs"
    and "unat (requiredChunks sz cs) * unat cs < unat sz + unat cs"
proof -
  let ?c = "unat cs"
  define q where "q = unat sz div ?c"
  have c: "0 < ?c" using assms(2) by (simp add: unat_gt_0)
  have q: "q < 2 ^ 31" "?c * q \<le> unat sz" "unat sz < ?c * q + ?c"
  proof -
    have "q \<le> unat sz" by (simp add: q_def div_le_dividend)
    with assms(1) show "q < 2 ^ 31" by linarith
    show "?c * q \<le> unat sz" by (simp add: q_def)
    have "unat sz mod ?c < ?c" using c by simp
    then show "unat sz < ?c * q + ?c"
      using mult_div_mod_eq [of ?c "unat sz"] unfolding q_def by linarith
  qed
  have r: "unat (ucast (sz div ucast cs) :: u32) = q"
    using q(1) by (simp add: unsigned_ucast_eq unat_div_distrib q_def [symmetric] take_bit_nat_eq_self)
  with q assms(1) have "unat (cs * ucast (sz div ucast cs)) = ?c * q"
    by (simp add: unat_word_ariths)
  then have "unat (requiredChunks sz cs) = (if ?c * q < unat sz then q + 1 else q)"
    using r q(1) by (simp add: requiredChunks_def Let_def word_less_nat_alt unat_plus_if')
  with q show "unat sz \<le> unat (requiredChunks sz cs) * ?c"
    and "unat (requiredChunks sz cs) * ?c < unat sz + ?c"
    using c by (auto simp: algebra_simps)
qed

subsection \<open>Adding a block\<close>

lemma unat_add_small: "unat s + k < 2 ^ 64 \<Longrightarrow> unat (s + of_nat k) = unat s + k" for s :: u64
  by (simp add: unat_plus_if' unat_of_nat_small)

lemma kmem_add_block_fields:
  fixes h :: "'a kheap_scheme"
  assumes s: "unat s + 24 + unat sz < 2 ^ 63"
    and cs: "cs \<noteq> 0" "unat cs < 2 ^ 32" "(unat sz - 24) div unat cs < 2 ^ 32" "24 \<le> unat sz"
  defines "n \<equiv> (unat sz - 24) div unat cs div 4 * 4"
  shows "\<exists>m. kmem_add_block h s sz cs =
      Inr (h\<lparr>kmem := write_mem m (s + 24) (replicate n 0), heap_block := s\<rparr>) \<and>
    load64 m s = heap_block h \<and> load32 m (s + 16) = of_nat n \<and> load32 m (s + 20) = ucast cs"
proof -
  have u: "unat (s + 8) = unat s + 8" "unat (s + 16) = unat s + 16" "unat (s + 20) = unat s + 20"
    "unat (s + 24) = unat s + 24"
    using s by (simp_all add: unat_plus_if')
  have sep: "separate s 8 (s + 8) 8" "separate s 8 (s + 20) 4" "separate s 8 (s + 16) 4"
    "separate (s + 8) 8 (s + 20) 4" "separate (s + 16) 4 (s + 20) 4" "separate (s + 20) 4 (s + 16) 4"
    using u s unfolding separate_sym [of "s + 20" 4] by (auto intro!: separateI_less)
  define m3 where "m3 = store32 (store64 (store64 (kmem h) s (heap_block h)) (s + 8) (sz - 24))
    (s + 20) (ucast cs)"
  have f3: "blk_chunkSize m3 s = ucast cs" "blk_size m3 s = sz - 24" "load64 m3 s = heap_block h"
    by (simp_all add: m3_def blk_chunkSize_def blk_size_def mem_simps sep)
  define q where "q = (unat sz - 24) div unat cs"
  have uc: "ucast (ucast cs :: u32) = cs"
    using cs(2) by (simp add: word_unat_eq_iff unsigned_ucast_eq unsigned_take_bit_eq
        take_bit_nat_eq_self)
  have "unat ((sz - 24) div cs) = q"
    using cs(4) by (simp add: unat_div_distrib q_def unat_sub_if')
  then have uq: "ucast ((sz - 24) div cs) = (of_nat q :: u32)"
    using cs(3) by (simp add: q_def [symmetric] word_unat_eq_iff unsigned_ucast_eq
        take_bit_nat_eq_self unat_of_nat_small)
  have nz: "(ucast cs :: u32) \<noteq> 0" using uc cs(1) by auto
  define m5 where "m5 = store32 (store32 m3 (s + 16) (of_nat q)) (s + 16)
    (ucast ((ucast (of_nat q :: u32) div 4) * 4 :: u64))"
  have "unat (ucast (of_nat q :: u32) div 4 * 4 :: u64) = q div 4 * 4"
    using cs(3) by (simp add: q_def [symmetric] unat_word_ariths unat_div_distrib unat_of_nat_small)
  then have "unat (ucast ((ucast (of_nat q :: u32) div 4) * 4 :: u64) :: u32) = n"
    using cs(3) by (simp add: q_def [symmetric] n_def unsigned_ucast_eq take_bit_nat_eq_self)
  then have un: "ucast ((ucast (of_nat q :: u32) div 4) * 4 :: u64) = (of_nat n :: u32)" "unat (of_nat n :: u32) = n"
    by (metis of_nat_unat ucast_id)+
  have f5: "load64 m5 s = heap_block h" "load32 m5 (s + 16) = of_nat n" "load32 m5 (s + 20) = ucast cs"
    using f3(1,3) un(1) by (simp_all add: m5_def mem_simps sep blk_chunkSize_def)
  have "kmem_add_block h s sz cs =
      Inr (h\<lparr>kmem := bzero m5 (s + 24) (ucast (blk_nChunks m5 s)), heap_block := s\<rparr>)"
    unfolding kmem_add_block_def layout m3_def [symmetric] Let_def f3 uc uq
    using nz by (simp add: m5_def blk_nChunks_def load32_store32)
  then show ?thesis
    using f5 un by (auto simp: bzero_eq blk_nChunks_def)
qed


lemma join_le_zeroes: "join_le (replicate k 0) = 0"
  by (induction k) simp_all

lemma read_zeroes:
  assumes "unat (a - b) + k \<le> n"
  shows "read_mem (write_mem m b (replicate n 0)) a k = replicate k 0"
proof (rule nth_equalityI)
  fix i assume "i < length (read_mem (write_mem m b (replicate n 0)) a k)"
  then have i: "i < k" by simp
  have "unat (of_nat i :: u64) \<le> i" by (simp add: unat_of_nat take_bit_eq_mod)
  then have "unat (a - b + of_nat i) \<le> unat (a - b) + i" by (simp add: unat_plus_if' le_diff_conv)
  then show "read_mem (write_mem m b (replicate n 0)) a k ! i = replicate k 0 ! i"
    using i assms by (simp add: write_mem_def algebra_simps)
qed simp

lemma kmem_add_block_ok:
  fixes h :: "'a kheap_scheme"
  assumes s: "s \<noteq> 0" "unat s mod 8 = 0" "unat s + 2 * unat sz + 40 < 2 ^ 63"
    and cs: "8 < unat cs" "unat cs < 2 ^ 32" "(unat sz - 24) div unat cs < 2 ^ 32" "24 \<le> unat sz"
  shows "\<exists>h'. kmem_add_block h s sz cs = Inr h' \<and> heap_block h' = s \<and>
    blk_next (kmem h') s = heap_block h \<and> block_ok (kmem h') s \<and>
    unat (blk_chunkSize (kmem h') s) = unat cs \<and>
    unat (blk_nChunks (kmem h') s) = (unat sz - 24) div unat cs div 4 * 4 \<and>
    (\<forall>i < unat (blk_nChunks (kmem h') s). \<not> used (kmem h') s i)"
proof -
  define n where "n = (unat sz - 24) div unat cs div 4 * 4"
  have cs0: "cs \<noteq> 0" using cs(1) by auto
  have s24: "unat s + 24 + unat sz < 2 ^ 63" using s(3) by simp
  obtain m where add: "kmem_add_block h s sz cs =
      Inr (h\<lparr>kmem := write_mem m (s + 24) (replicate n 0), heap_block := s\<rparr>)"
    and m: "load64 m s = heap_block h" "load32 m (s + 16) = of_nat n" "load32 m (s + 20) = ucast cs"
    using kmem_add_block_fields [OF s24 cs0 cs(2,3,4), of h] unfolding n_def by blast
  define m' where "m' = write_mem m (s + 24) (replicate n 0)"
  have u: "unat (s + 16) = unat s + 16" "unat (s + 20) = unat s + 20" "unat (s + 24) = unat s + 24"
    using s24 by (simp_all add: unat_plus_if')
  have "(unat sz - 24) div unat cs * unat cs \<le> unat sz - 24" by simp
  moreover have "n \<le> (unat sz - 24) div unat cs" by (simp add: n_def)
  then have "n * unat cs \<le> (unat sz - 24) div unat cs * unat cs" by simp
  ultimately have ncs: "n * unat cs \<le> unat sz" by linarith
  have n: "n < 2 ^ 32" "n \<le> unat sz"
    using cs(3) \<open>n \<le> (unat sz - 24) div unat cs\<close> div_le_dividend [of "unat sz - 24" "unat cs"] by linarith+
  have sep: "separate s 8 (s + 24) n" "separate (s + 16) 4 (s + 24) n" "separate (s + 20) 4 (s + 24) n"
    using u s(3) n(2) by (auto intro!: separateI_less)
  have f: "blk_next m' s = heap_block h" "blk_nChunks m' s = of_nat n" "blk_chunkSize m' s = ucast cs"
    using m sep by (simp_all add: m'_def blk_next_def blk_nChunks_def blk_chunkSize_def
        load32_write_separate load64_write_separate)
  have uf: "unat (blk_nChunks m' s) = n" "unat (blk_chunkSize m' s) = unat cs"
    using n(1) cs(2) by (simp_all add: f unat_of_nat_small unsigned_ucast_eq take_bit_nat_eq_self)
  have ok: "block_ok m' s"
    using s cs(1) ncs n(2) by (simp add: block_ok_def uf)
  have "\<not> used m' s i" if i: "i < n" for i
  proof -
    let ?k = "of_nat (i div 32) :: u32"
    have uk: "unat ?k = i div 32" using i n(1) by (intro unat_mask_index) simp
    have "unat s + 28 + 4 * (i div 32) < 2 ^ 63" using s(3) i n(2) by linarith
    with uk have "unat (mask_addr s ?k) = unat s + 24 + 4 * (i div 32)"
      using unat_mask_addr [of s ?k] by simp
    then have d: "unat (mask_addr s ?k - (s + 24)) = 4 * (i div 32)"
      using u(3) by (simp add: unat_sub_if')
    obtain k where k: "n = 4 * k" by (auto simp: n_def mult.commute)
    have "32 * (i div 32) \<le> i" by simp
    with i k have "8 * (i div 32) < k" by linarith
    with k have "4 * (i div 32) + 4 \<le> n" by linarith
    then have "load32 m' (mask_addr s ?k) = 0"
      unfolding load32_def m'_def using d by (simp add: read_zeroes join_le_zeroes)
    then show ?thesis by (simp add: used_def chunkMask_def)
  qed
  with add f uf ok show ?thesis by (simp add: m'_def [symmetric] n_def [symmetric])
qed


subsection \<open>Existence of free runs and freeing at the head block\<close>

lemma find_bit_exists:
  assumes "bt < n" "test_bits (NOT w) (push_bit bt base)"
  shows "find_bit w base 0 n \<noteq> None"
  using find_bit_None [of w 0 base n bt] assms by (auto simp del: not_None_eq)

lemma find_chunk_exists:
  assumes k: "k < blk_nChunks m b" and r: "0 < req" "req < 32" and fit: "bt + unat req \<le> 32"
    and free: "\<forall>i. bt \<le> i \<and> i < bt + unat req \<longrightarrow> \<not> bit (chunkMask m b k) i"
  shows "find_chunk m b req 0 \<noteq> None"
proof
  assume none: "find_chunk m b req 0 = None"
  have "find_bit (chunkMask m b k) (mask (unat req)) 0 (32 - unat req + 1) = None"
    using find_chunk_None [OF none _ k] r by (simp add: shl1_minus_1)
  moreover have "bt < 32 - unat req + 1" using fit by linarith
  ultimately show False
    using find_bit_exists free test_bits_run [OF fit] by blast
qed

lemma kmem_free_head:
  assumes ok: "block_ok (kmem h) (heap_block h)" and c: "c < unat (blk_nChunks (kmem h) (heap_block h))"
    and small: "unat (blk_nChunks (kmem h) (heap_block h)) * unat (blk_chunkSize (kmem h) (heap_block h)) < 2 ^ 32"
  shows "kmem_free h (chunk_addr (kmem h) (heap_block h) c + 8) =
    kmem_free_from_block h (heap_block h) (chunk_addr (kmem h) (heap_block h) c)"
proof -
  let ?m = "kmem h" and ?b = "heap_block h"
  let ?n = "unat (blk_nChunks ?m ?b)" and ?cs = "unat (blk_chunkSize ?m ?b)"
  have "Suc c * ?cs \<le> ?n * ?cs" using c by (intro mult_right_mono) simp_all
  then have cc: "c * ?cs + 8 < ?n * ?cs" using block_okD(2) [OF ok] by simp
  have bnd: "unat ?b + 40 + ?n + ?n * ?cs < 2 ^ 63" by (rule block_okD(3) [OF ok])
  have start: "unat (kmem_block_start ?m ?b) = unat ?b + 32 + 8 * (?n div 32)"
    by (rule unat_block_start [OF ok])
  have "unat (chunk_addr ?m ?b c) = unat ?b + 32 + 8 * (?n div 32) + c * ?cs"
    using c by (intro unat_chunk_addr [OF ok]) simp
  with bnd cc have ptr: "unat (chunk_addr ?m ?b c + 8) = unat (kmem_block_start ?m ?b) + c * ?cs + 8"
    unfolding start by (simp add: unat_plus_if')
  have "unat (ucast (blk_nChunks ?m ?b * blk_chunkSize ?m ?b) :: u64) = ?n * ?cs"
    using small by (simp add: unat_word_ariths)
  with bnd have fin: "unat (kmem_block_start ?m ?b + ucast (blk_nChunks ?m ?b * blk_chunkSize ?m ?b)) =
      unat (kmem_block_start ?m ?b) + ?n * ?cs"
    using start by (simp add: unat_plus_if')
  have "kmem_block_start ?m ?b \<le> chunk_addr ?m ?b c + 8 \<and> chunk_addr ?m ?b c + 8 <
      kmem_block_start ?m ?b + ucast (blk_nChunks ?m ?b * blk_chunkSize ?m ?b)"
    using ptr fin cc by (simp add: word_le_nat_alt word_less_nat_alt)
  moreover have "?b \<noteq> 0" using ok by (simp add: block_ok_def)
  ultimately show ?thesis
    unfolding kmem_free_def by (subst kmem_free_blocks.simps) (simp add: layout)
qed

text \<open>
  The search as a relation: \<open>accepts m b n k bt\<close> says that the search for \<open>n\<close> chunks stops at bit
  \<open>bt\<close> of mask word \<open>k\<close>, whose next \<open>n\<close> bits are clear. For 32 chunks \<open>1 << 32\<close> makes the mask
  empty, and every word is accepted.
\<close>

definition accepts :: "mem \<Rightarrow> u64 \<Rightarrow> nat \<Rightarrow> u32 \<Rightarrow> nat \<Rightarrow> bool" where
  "accepts m b n k bt \<longleftrightarrow> k < blk_nChunks m b \<and> bt + n \<le> 32 \<and>
     (n < 32 \<longrightarrow> (\<forall>i. bt \<le> i \<and> i < bt + n \<longrightarrow> \<not> bit (chunkMask m b k) i))"

lemma find_bit_32: "find_bit w (shl1 32 - 1) 0 (32 - unat (32 :: u32) + 1) = Some (0, 0)"
  by (subst find_bit.simps) (simp add: shl1_def test_bits_def)

lemma find_chunk_accepts:
  assumes fc: "find_chunk m b req 0 = Some (k, bt, msk)" and pos: "0 < req" and n32: "unat req \<le> 32"
  shows "accepts m b (unat req) k bt \<and>
    (\<forall>k' bt'. accepts m b (unat req) k' bt' \<longrightarrow> 32 * unat k + bt \<le> 32 * unat k' + bt')"
proof (cases "req = 32")
  case True
  from find_chunk_Some [OF fc] have k: "k < blk_nChunks m b" and bt: "bt = 0"
    unfolding True find_bit_32 by auto
  have "k = 0"
  proof (rule ccontr)
    assume "k \<noteq> 0"
    then have "0 < k" by (simp add: word_gt_0)
    from find_chunk_first [OF fc _ this] show False unfolding True find_bit_32 by simp
  qed
  with k bt show ?thesis by (simp add: True accepts_def)
next
  case False
  with n32 have lt: "req < 32" by (simp add: word_less_nat_alt word_unat_eq_iff)
  then have n: "unat req < 32" by (simp add: word_less_nat_alt)
  note run = find_chunk_run [OF fc pos lt]
  have "32 * unat k + bt \<le> 32 * unat k' + bt'" if a: "accepts m b (unat req) k' bt'" for k' bt'
  proof -
    have fit: "bt' + unat req \<le> 32" and test: "test_bits (NOT (chunkMask m b k')) (push_bit bt' (mask (unat req)))"
      using a n test_bits_run [of bt' "unat req"] by (auto simp: accepts_def)
    have r0: "0 < unat req" using pos by (simp add: unat_gt_0)
    consider "k < k'" | "k' < k" | "k' = k" by force
    then show ?thesis
    proof cases
      case 1
      then have "unat k + 1 \<le> unat k'" by (simp add: word_less_nat_alt)
      moreover have "bt \<le> 32" using run by simp
      ultimately show ?thesis by linarith
    next
      case 2
      have "find_bit (chunkMask m b k') (push_bit 0 (mask (unat req))) 0 (32 - unat req + 1) = None"
        using find_chunk_first [OF fc _ 2] by (simp add: shl1_minus_1 pos lt)
      moreover have "bt' < 32 - unat req + 1" using fit by linarith
      ultimately show ?thesis using find_bit_None test by blast
    next
      case 3
      have "find_bit (chunkMask m b k) (push_bit 0 (mask (unat req))) 0 (32 - unat req + 1) = Some (bt, msk)"
        using find_chunk_Some [OF fc] by (simp add: shl1_minus_1 pos lt)
      from find_bit_first [OF this, of bt'] test have "\<not> bt' < bt" unfolding 3 by blast
      then show ?thesis using 3 by simp
    qed
  qed
  with run n show ?thesis by (simp add: accepts_def)
qed

lemma find_chunk_accepts_None:
  assumes none: "find_chunk m b req 0 = None" and pos: "0 < req"
  shows "\<not> accepts m b (unat req) k bt"
proof
  assume a: "accepts m b (unat req) k bt"
  then have k: "k < blk_nChunks m b" and fit: "bt + unat req \<le> 32" by (simp_all add: accepts_def)
  show False
  proof (cases "req = 32")
    case True
    then show False using find_chunk_None [OF none _ k] find_bit_32 by simp
  next
    case False
    with fit have lt: "req < 32" by (simp add: word_less_nat_alt word_unat_eq_iff)
    then have "\<forall>i. bt \<le> i \<and> i < bt + unat req \<longrightarrow> \<not> bit (chunkMask m b k) i"
      using a by (simp add: accepts_def word_less_nat_alt)
    with find_chunk_exists [OF k pos lt fit] none show False by blast
  qed
qed

lemma alloc_first_fit_split:
  assumes "alloc_first_fit h sz bs = Inr r" "\<forall>b\<in>set bs. 0 < requiredChunks sz (blk_chunkSize (kmem h) b)"
  shows "\<exists>pre b post k bt msk. bs = pre @ b # post \<and>
    (\<forall>b'\<in>set pre. \<forall>k' bt'. \<not> accepts (kmem h) b' (unat (requiredChunks sz (blk_chunkSize (kmem h) b'))) k' bt') \<and>
    requiredChunks sz (blk_chunkSize (kmem h) b) \<le> 32 \<and>
    find_chunk (kmem h) b (requiredChunks sz (blk_chunkSize (kmem h) b)) 0 = Some (k, bt, msk) \<and>
    kmem_take h b (requiredChunks sz (blk_chunkSize (kmem h) b)) k bt msk = r"
  using assms
proof (induction bs)
  case (Cons b bs)
  let ?req = "requiredChunks sz (blk_chunkSize (kmem h) b)"
  consider "32 < ?req" | "\<not> 32 < ?req" "find_chunk (kmem h) b ?req 0 = None"
    | k bt msk where "\<not> 32 < ?req" "find_chunk (kmem h) b ?req 0 = Some (k, bt, msk)" by (metis prod_cases3 option.exhaust)
  then show ?case
  proof cases
    case 3
    with Cons.prems(1) show ?thesis
      by (intro exI [of _ "[]"] exI [of _ b] exI [of _ bs]) (auto simp: Let_def not_less split: if_splits)
  next
    case 1
    then have no: "\<not> accepts (kmem h) b (unat ?req) k bt" for k bt by (simp add: accepts_def word_less_nat_alt)
    have rest: "alloc_first_fit h sz bs = Inr r" using 1 Cons.prems(1) by (auto simp: Let_def split: if_splits)
    obtain pre b1 post k bt msk where "bs = pre @ b1 # post \<and>
      (\<forall>b'\<in>set pre. \<forall>k' bt'. \<not> accepts (kmem h) b' (unat (requiredChunks sz (blk_chunkSize (kmem h) b'))) k' bt') \<and>
      requiredChunks sz (blk_chunkSize (kmem h) b1) \<le> 32 \<and>
      find_chunk (kmem h) b1 (requiredChunks sz (blk_chunkSize (kmem h) b1)) 0 = Some (k, bt, msk) \<and>
      kmem_take h b1 (requiredChunks sz (blk_chunkSize (kmem h) b1)) k bt msk = r"
      using Cons.IH [OF rest] Cons.prems(2) by auto
    with no show ?thesis by (intro exI [of _ "b # pre"] exI [of _ b1] exI [of _ post]) auto
  next
    case 2
    have "0 < ?req" using Cons.prems(2) by simp
    note no = find_chunk_accepts_None [OF 2(2) this]
    have rest: "alloc_first_fit h sz bs = Inr r" using 2 Cons.prems(1) by (auto simp: Let_def split: if_splits)
    obtain pre b1 post k bt msk where "bs = pre @ b1 # post \<and>
      (\<forall>b'\<in>set pre. \<forall>k' bt'. \<not> accepts (kmem h) b' (unat (requiredChunks sz (blk_chunkSize (kmem h) b'))) k' bt') \<and>
      requiredChunks sz (blk_chunkSize (kmem h) b1) \<le> 32 \<and>
      find_chunk (kmem h) b1 (requiredChunks sz (blk_chunkSize (kmem h) b1)) 0 = Some (k, bt, msk) \<and>
      kmem_take h b1 (requiredChunks sz (blk_chunkSize (kmem h) b1)) k bt msk = r"
      using Cons.IH [OF rest] Cons.prems(2) by auto
    with no show ?thesis by (intro exI [of _ "b # pre"] exI [of _ b1] exI [of _ post]) auto
  qed
qed simp

lemma kmem_alloc_first_fit:
  fixes h h' :: "'a kheap_scheme"
  assumes chain: "block_chain (kmem h) (heap_block h) bs" and ok: "\<forall>b\<in>set bs. block_ok (kmem h) b"
    and sz: "unat sz + 8 < 2 ^ 31" and alloc: "kmem_alloc h sz = Inr (p, h')"
  shows "\<exists>pre b post k bt msk. bs = pre @ b # post \<and>
    (\<forall>b'\<in>set pre. \<forall>k' bt'. \<not> accepts (kmem h) b' (unat (requiredChunks (sz + 8) (blk_chunkSize (kmem h) b'))) k' bt') \<and>
    find_chunk (kmem h) b (requiredChunks (sz + 8) (blk_chunkSize (kmem h) b)) 0 = Some (k, bt, msk) \<and>
    kmem_take h b (requiredChunks (sz + 8) (blk_chunkSize (kmem h) b)) k bt msk = (p, h') \<and>
    unat (requiredChunks (sz + 8) (blk_chunkSize (kmem h) b)) \<le> 32 \<and>
    0 < requiredChunks (sz + 8) (blk_chunkSize (kmem h) b) \<and>
    unat sz + 8 \<le> unat (requiredChunks (sz + 8) (blk_chunkSize (kmem h) b)) * unat (blk_chunkSize (kmem h) b)"
proof -
  have usz: "unat (sz + 8) = unat sz + 8" using sz by (simp add: unat_plus_if')
  have enough: "unat sz + 8 \<le> unat (requiredChunks (sz + 8) (blk_chunkSize (kmem h) b)) * unat (blk_chunkSize (kmem h) b)"
    and pos: "0 < requiredChunks (sz + 8) (blk_chunkSize (kmem h) b)" if "b \<in> set bs" for b
  proof -
    have "8 < unat (blk_chunkSize (kmem h) b)" using ok that by (simp add: block_ok_def)
    then have "blk_chunkSize (kmem h) b \<noteq> 0" by auto
    then show e: "unat sz + 8 \<le> unat (requiredChunks (sz + 8) (blk_chunkSize (kmem h) b)) * unat (blk_chunkSize (kmem h) b)"
      using requiredChunks_bounds(1) [of "sz + 8"] sz usz by simp
    then show "0 < requiredChunks (sz + 8) (blk_chunkSize (kmem h) b)"
      by (cases "requiredChunks (sz + 8) (blk_chunkSize (kmem h) b) = 0") (simp_all add: word_gt_0)
  qed
  have "alloc_first_fit h (sz + 8) bs = Inr (p, h')" using alloc kmem_alloc_eq [OF chain, of sz] by (simp add: layout)
  from alloc_first_fit_split [OF this] pos
  obtain pre b post k bt msk where f: "bs = pre @ b # post"
    "\<forall>b'\<in>set pre. \<forall>k' bt'. \<not> accepts (kmem h) b' (unat (requiredChunks (sz + 8) (blk_chunkSize (kmem h) b'))) k' bt'"
    "requiredChunks (sz + 8) (blk_chunkSize (kmem h) b) \<le> 32"
    "find_chunk (kmem h) b (requiredChunks (sz + 8) (blk_chunkSize (kmem h) b)) 0 = Some (k, bt, msk)"
    "kmem_take h b (requiredChunks (sz + 8) (blk_chunkSize (kmem h) b)) k bt msk = (p, h')" by blast
  have "b \<in> set bs" using f(1) by simp
  with enough pos have "unat sz + 8 \<le> unat (requiredChunks (sz + 8) (blk_chunkSize (kmem h) b)) * unat (blk_chunkSize (kmem h) b)"
    "0 < requiredChunks (sz + 8) (blk_chunkSize (kmem h) b)" by blast+
  moreover have "unat (requiredChunks (sz + 8) (blk_chunkSize (kmem h) b)) \<le> 32" using f(3) by (simp add: word_le_nat_alt)
  ultimately show ?thesis using f by blast
qed

text \<open>The heap \<open>kmain\<close> starts with: one block at \<open>0x8000\<close>.\<close>

lemma kmem_add_block_more: "kmem_add_block h s sz cs = Inr h' \<Longrightarrow> kheap.more h' = kheap.more h"
  by (cases h) (auto simp: kmem_add_block_def Let_def split: if_splits)

lemma boot_heap_exists:
  "\<exists>h :: 'a kheap_scheme. heap_block h = 32768 \<and> block_chain (kmem h) 32768 [32768] \<and> block_ok (kmem h) 32768 \<and>
    unat (blk_nChunks (kmem h) 32768) = 60 \<and> unat (blk_chunkSize (kmem h) 32768) = 128 \<and>
    (\<forall>i<60. \<not> used (kmem h) 32768 i) \<and> kheap.more h = x"
proof -
  define h0 :: "'a kheap_scheme" where
    "h0 = \<lparr>kmem = (\<lambda>_. 0), heap_sequence = 0, heap_currentObjects = 0, heap_block = 0, \<dots> = x\<rparr>"
  have "\<exists>h'. kmem_add_block h0 32768 8192 128 = Inr h' \<and> heap_block h' = 32768 \<and> blk_next (kmem h') 32768 = 0 \<and>
    block_ok (kmem h') 32768 \<and> unat (blk_chunkSize (kmem h') 32768) = 128 \<and>
    unat (blk_nChunks (kmem h') 32768) = 60 \<and> (\<forall>i < 60. \<not> used (kmem h') 32768 i)"
    using kmem_add_block_ok [of 32768 8192 128 h0] by (auto simp: h0_def)
  then obtain h' where h': "kmem_add_block h0 32768 8192 128 = Inr h'" "heap_block h' = 32768"
    "blk_next (kmem h') 32768 = 0" "block_ok (kmem h') 32768" "unat (blk_chunkSize (kmem h') 32768) = 128"
    "unat (blk_nChunks (kmem h') 32768) = 60" "\<forall>i < 60. \<not> used (kmem h') 32768 i" by blast
  moreover have "kheap.more h' = x" using kmem_add_block_more [OF h'(1)] by (simp add: h0_def)
  ultimately show ?thesis by (intro exI [of _ h']) simp
qed

lemma alloc_first_fit_succeeds:
  assumes "b \<in> set bs" "\<forall>x\<in>set bs. blk_chunkSize (kmem h) x \<noteq> 0"
    and "\<not> 32 < requiredChunks sz (blk_chunkSize (kmem h) b)"
    and "find_chunk (kmem h) b (requiredChunks sz (blk_chunkSize (kmem h) b)) 0 \<noteq> None"
  shows "\<exists>r. alloc_first_fit h sz bs = Inr r"
  using assms by (induction bs) (auto simp: Let_def split: option.splits)

lemma alloc_first_fit_exhausted:
  assumes "\<forall>x\<in>set bs. blk_chunkSize (kmem h) x \<noteq> 0 \<and>
    (32 < requiredChunks sz (blk_chunkSize (kmem h) x) \<or>
     find_chunk (kmem h) x (requiredChunks sz (blk_chunkSize (kmem h) x)) 0 = None)"
  shows "alloc_first_fit h sz bs = Inl (Panic ''out of memory'')"
  using assms by (induction bs) (auto simp: Let_def)

lemma kmem_alloc_finds_run:
  fixes h :: "'a kheap_scheme"
  assumes chain: "block_chain (kmem h) (heap_block h) bs" and ok: "\<forall>b\<in>set bs. block_ok (kmem h) b"
    and sz: "unat sz + 8 < 2 ^ 31" and b: "b \<in> set bs"
    and n: "n = unat (requiredChunks (sz + 8) (blk_chunkSize (kmem h) b))" "n < 32"
    and run: "c mod 32 + n \<le> 32" "c + n \<le> unat (blk_nChunks (kmem h) b)"
      "\<forall>i. c \<le> i \<and> i < c + n \<longrightarrow> \<not> used (kmem h) b i"
  shows "\<exists>r. kmem_alloc h sz = Inr r"
proof -
  let ?req = "requiredChunks (sz + 8) (blk_chunkSize (kmem h) b)"
  have nz: "\<forall>x\<in>set bs. blk_chunkSize (kmem h) x \<noteq> 0"
  proof
    fix x assume "x \<in> set bs"
    with ok have "8 < unat (blk_chunkSize (kmem h) x)" by (simp add: block_ok_def)
    then show "blk_chunkSize (kmem h) x \<noteq> 0" by auto
  qed
  have usz: "unat (sz + 8) = unat sz + 8" using sz by (simp add: unat_plus_if')
  then have "unat sz + 8 \<le> n * unat (blk_chunkSize (kmem h) b)"
    using requiredChunks_bounds(1) [of "sz + 8"] sz nz b unfolding n(1) by simp
  then have n0: "0 < n" by (cases n) simp_all
  then have pos: "0 < ?req" "?req < 32"
    using n by (simp_all add: word_less_nat_alt)
  let ?k = "of_nat (c div 32) :: u32"
  have c32: "c < 2 ^ 32" using run(2) n0 unat_less_2p [of "blk_nChunks (kmem h) b"] by simp
  then have uk: "unat ?k = c div 32" by (rule unat_mask_index)
  have "c div 32 < unat (blk_nChunks (kmem h) b)" using run(2) n0 by simp
  then have k: "?k < blk_nChunks (kmem h) b" using uk by (simp add: word_less_nat_alt)
  have free: "\<forall>i. c mod 32 \<le> i \<and> i < c mod 32 + unat ?req \<longrightarrow> \<not> bit (chunkMask (kmem h) b ?k) i"
  proof (intro allI impI)
    fix i assume i: "c mod 32 \<le> i \<and> i < c mod 32 + unat ?req"
    let ?j = "32 * (c div 32) + i"
    have "c \<le> ?j \<and> ?j < c + n" using i n(1) mult_div_mod_eq [of 32 c] by linarith
    then have nu: "\<not> used (kmem h) b ?j" using run(3) by blast
    have "i < 32" using i run(1) n(1) by linarith
    then have d: "?j div 32 = c div 32" "?j mod 32 = i" by simp_all
    show "\<not> bit (chunkMask (kmem h) b ?k) i" using nu unfolding used_def d .
  qed
  have "find_chunk (kmem h) b ?req 0 \<noteq> None"
    using find_chunk_exists [OF k pos _ free] run(1) n(1) by simp
  moreover have "\<not> 32 < ?req" using pos(2) by simp
  ultimately show ?thesis
    unfolding kmem_alloc_eq [OF chain] layout by (intro alloc_first_fit_succeeds [OF b nz])
qed

lemma kmem_alloc_objects:
  "kmem_take h b req k bt msk = (p, h') \<Longrightarrow>
     heap_currentObjects h' = heap_currentObjects h + 1 \<and> heap_block h' = heap_block h"
  by (auto simp: kmem_take_def Let_def)

text \<open>Chunk addresses of a block below 4 GB are distinct over all its mask words.\<close>

lemma chunk_addr_inject:
  assumes small: "unat (blk_nChunks m b) * unat (blk_chunkSize m b) < 2 ^ 32"
    and cs: "0 < unat (blk_chunkSize m b)"
    and c: "c < 32 * unat (blk_nChunks m b)" "d < 32 * unat (blk_nChunks m b)"
    and eq: "chunk_addr m b c = chunk_addr m b d"
  shows "c = d"
proof -
  let ?cs = "unat (blk_chunkSize m b)" and ?n = "unat (blk_nChunks m b)"
  have *: "unat (ucast (blk_chunkSize m b) * of_nat e :: u64) = ?cs * e" if e: "e < 32 * ?n" for e
  proof -
    have "?cs * e \<le> ?cs * (32 * ?n)" using e by (intro mult_left_mono) simp_all
    also have "\<dots> = 32 * (?n * ?cs)" by simp
    also have "\<dots> < 32 * 2 ^ 32" using small by linarith
    finally have lt: "?cs * e < 32 * 2 ^ 32" .
    have "e < 2 ^ 64" using e unat_less_2p [of "blk_nChunks m b"] by simp
    then have "unat (of_nat e :: u64) = e" by (intro unat_of_nat_small) simp
    with lt show ?thesis by (simp add: unat_word_ariths)
  qed
  from eq have "unat (ucast (blk_chunkSize m b) * of_nat c :: u64) =
      unat (ucast (blk_chunkSize m b) * of_nat d :: u64)" by (simp add: chunk_addr_def)
  then have "?cs * c = ?cs * d" unfolding * [OF c(1)] * [OF c(2)] .
  with cs show "c = d" by simp
qed

text \<open>Freeing an object in the first four chunks of the head block clears its run.\<close>

lemma kmem_free_low_chunk:
  fixes h :: "'a kheap_scheme"
  defines "b \<equiv> heap_block h" and "m \<equiv> kmem h"
  assumes ok: "block_ok m b" and c: "c < 4" "c + r \<le> unat (blk_nChunks m b)"
    and small: "unat (blk_nChunks m b) * unat (blk_chunkSize m b) < 2 ^ 32"
    and hdr: "unat (hdr_chunks m (chunk_addr m b c)) = r" and r: "0 < r" "r < 32" "c + r \<le> 32"
  shows "\<exists>h'. kmem_free h (chunk_addr m b c + 8) = Inr h' \<and>
    heap_currentObjects h' = heap_currentObjects h - 1 \<and>
    (\<forall>i < unat (blk_nChunks m b). used (kmem h') b i \<longleftrightarrow> used m b i \<and> \<not> (c \<le> i \<and> i < c + r))"
proof -
  let ?n = "unat (blk_nChunks m b)" and ?cs = "unat (blk_chunkSize m b)"
  let ?w = "chunkMask m b 0 AND NOT (push_bit c (mask r))"
  have cn: "c < ?n" using c r by linarith
  have cs: "0 < ?cs" using block_okD(2) [OF ok] by linarith
  have "shl1 (hdr_chunks m (chunk_addr m b c)) - 1 = mask r"
    using shl1_minus_1 [of "hdr_chunks m (chunk_addr m b c)"] hdr r
    by (simp add: word_less_nat_alt)
  moreover have "c div 4 = 0" "c * ?cs div ?cs mod 32 = c" using c cs by simp_all
  ultimately have "kmem_free_from_block h b (chunk_addr m b c) = Inr (h
      \<lparr>kmem := store32 m (mask_addr b 0) ?w, heap_currentObjects := heap_currentObjects h - 1\<rparr>)"
    using kmem_free_from_block_eq [OF ok [unfolded m_def] cn [unfolded m_def], folded m_def] by simp
  then have free: "kmem_free h (chunk_addr m b c + 8) = Inr (h
      \<lparr>kmem := store32 m (mask_addr b 0) ?w, heap_currentObjects := heap_currentObjects h - 1\<rparr>)"
    using kmem_free_head [of h c] ok cn small by (simp add: m_def b_def)
  have k: "32 * unat (0 :: u32) < ?n" using cn by simp
  have "used (store32 m (mask_addr b 0) ?w) b i \<longleftrightarrow> used m b i \<and> \<not> (c \<le> i \<and> i < c + r)"
    if i: "i < ?n" for i
    using used_upd [OF ok k i, of ?w] in_run_iff [OF r(3), of 0 i]
    by (auto simp: used_def bit_and_iff bit_not_iff bit_run)
  with free show ?thesis by simp
qed

text \<open>Freeing an object that starts at a chunk from the fifth on clears some other chunk.\<close>

lemma kmem_free_high_chunk:
  fixes h :: "'a kheap_scheme"
  defines "b \<equiv> heap_block h" and "m \<equiv> kmem h"
  assumes ok: "block_ok m b" and c: "4 \<le> c" "c < 32"
    and small: "unat (blk_nChunks m b) * unat (blk_chunkSize m b) < 2 ^ 32"
    and cs: "32 * (c div 4) \<le> unat (blk_chunkSize m b)"
    and d: "d = 32 * (c div 4) + (c - 1)" "d < unat (blk_nChunks m b)"
    and hdr: "hdr_chunks m (chunk_addr m b c) = 1"
  shows "\<exists>h'. kmem_free h (chunk_addr m b c + 8) = Inr h' \<and>
    heap_currentObjects h' = heap_currentObjects h - 1 \<and>
    (\<forall>i < unat (blk_nChunks m b). used (kmem h') b i \<longleftrightarrow> used m b i \<and> i \<noteq> d)"
proof -
  let ?n = "unat (blk_nChunks m b)" and ?cs = "unat (blk_chunkSize m b)"
  let ?k = "of_nat (c div 4) :: u32"
  let ?w = "chunkMask m b ?k AND NOT (push_bit (c - 1) 1)"
  have cn: "c < ?n" using c d by linarith
  have cs0: "0 < ?cs" using block_okD(2) [OF ok] by linarith
  have one: "shl1 (hdr_chunks m (chunk_addr m b c)) - 1 = 1"
    by (simp add: hdr shl1_def)
  have sh: "(c * ?cs - 32 * (c div 4)) div ?cs mod 32 = c - 1"
  proof -
    have "0 < c div 4" using c(1) by (simp add: div_greater_zero_iff)
    then have "(c - 1) * ?cs \<le> c * ?cs - 32 * (c div 4)" "c * ?cs - 32 * (c div 4) < Suc (c - 1) * ?cs"
      using cs c cs0 by (simp_all add: diff_mult_distrib)
    then have "(c * ?cs - 32 * (c div 4)) div ?cs = c - 1"
      by (intro div_nat_eqI) (simp_all add: mult.commute)
    then show ?thesis using c(2) by simp
  qed
  have "kmem_free_from_block h b (chunk_addr m b c) = Inr (h
      \<lparr>kmem := store32 m (mask_addr b ?k) ?w, heap_currentObjects := heap_currentObjects h - 1\<rparr>)"
    using kmem_free_from_block_eq [OF ok [unfolded m_def] cn [unfolded m_def], folded m_def]
    unfolding one sh .
  then have free: "kmem_free h (chunk_addr m b c + 8) = Inr (h
      \<lparr>kmem := store32 m (mask_addr b ?k) ?w, heap_currentObjects := heap_currentObjects h - 1\<rparr>)"
    using kmem_free_head [of h c] ok cn small by (simp add: m_def b_def)
  have uk: "unat ?k = c div 4" using c(2) by (intro unat_of_nat_small) simp
  have k: "32 * unat ?k < ?n" using d uk by linarith
  have "used (store32 m (mask_addr b ?k) ?w) b i \<longleftrightarrow> used m b i \<and> i \<noteq> d"
    if i: "i < ?n" for i
  proof -
    have fit: "c - 1 + 1 \<le> 32" using c by simp
    have "i = d \<longleftrightarrow> d \<le> i \<and> i < d + 1" by auto
    also have "\<dots> \<longleftrightarrow> i div 32 = c div 4 \<and> c - 1 \<le> i mod 32 \<and> i mod 32 < c - 1 + 1"
      unfolding d(1) by (rule in_run_iff [OF fit])
    also have "\<dots> \<longleftrightarrow> i div 32 = c div 4 \<and> i mod 32 = c - 1"
      by (intro iffI conjI; elim conjE; linarith)
    finally have "i = d \<longleftrightarrow> i div 32 = c div 4 \<and> i mod 32 = c - 1" .
    moreover have "bit (push_bit (c - 1) 1 :: u32) j \<longleftrightarrow> j = c - 1" if "j < 32" for j
      using that bit_run [of "c - 1" 1 j] by (auto simp: mask_eq_exp_minus_1)
    ultimately show ?thesis
      using used_upd [OF ok k i, of ?w] uk
      by (auto simp: used_def bit_and_iff bit_not_iff)
  qed
  with free show ?thesis by simp
qed

lemma requiredChunks_one:
  assumes "unat s \<le> 120"
  shows "requiredChunks (s + 8) 128 = 1"
proof -
  let ?r = "unat (requiredChunks (s + 8) 128)"
  have us: "unat (s + 8) = unat s + 8" using assms by (simp add: unat_plus_if')
  have "unat s + 8 \<le> ?r * 128" "?r * 128 < unat s + 8 + 128"
    using requiredChunks_bounds [of "s + 8" 128] assms us by simp_all
  with assms have "?r = 1" by linarith
  then show ?thesis by (simp add: word_unat_eq_iff)
qed

lemma boot_heap_alloc:
  assumes sz: "unat sz \<le> 120"
  shows "\<exists>(h :: 'a kheap_scheme) h'. block_chain (kmem h) (heap_block h) [heap_block h] \<and> block_ok (kmem h) (heap_block h) \<and>
    unat (blk_nChunks (kmem h) (heap_block h)) = 60 \<and> unat (blk_chunkSize (kmem h) (heap_block h)) = 128 \<and>
    requiredChunks (sz + 8) (blk_chunkSize (kmem h) (heap_block h)) = 1 \<and>
    kmem_alloc h sz = Inr (chunk_addr (kmem h) (heap_block h) 0 + 8, h') \<and>
    kheap.more h = x \<and> heap_block h = 32768"
proof -
  obtain h :: "'a kheap_scheme" where h: "heap_block h = 32768" "block_chain (kmem h) 32768 [32768]"
      "block_ok (kmem h) 32768" "unat (blk_nChunks (kmem h) 32768) = 60"
      "unat (blk_chunkSize (kmem h) 32768) = 128" "\<forall>i<60. \<not> used (kmem h) 32768 i" "kheap.more h = x"
    using boot_heap_exists [of x] by blast
  let ?m = "kmem h" and ?b = "32768 :: u64"
  have cs: "blk_chunkSize ?m ?b = 128" using h(5) by (simp add: word_unat_eq_iff)
  have nc: "blk_nChunks ?m ?b = 60" using h(4) by (simp add: word_unat_eq_iff)
  have req: "requiredChunks (sz + 8) (blk_chunkSize ?m ?b) = 1"
    using requiredChunks_one [OF sz] by (simp add: cs)
  have "\<not> bit (chunkMask ?m ?b 0) i" if "i < 32" for i
    using h(6) that by (auto simp: used_def dest: spec [of _ i])
  then have "chunkMask ?m ?b 0 = 0" by (intro bit_word_eqI) simp
  then have "find_chunk ?m ?b 1 0 = Some (0, 0, 1)"
    by (subst find_chunk.simps, subst find_bit.simps) (simp add: nc shl1_def test_bits_def)
  then have "kmem_alloc h sz = Inr (kmem_take h ?b 1 0 0 1)"
    using kmem_alloc_eq [of h "[?b]" sz] h(1,2) req by (simp add: layout cs)
  moreover have "fst (kmem_take h ?b 1 0 0 1) = chunk_addr ?m ?b 0 + 8"
    using kmem_take_addr [OF h(3), of 0 1 0 1] by (simp add: nc)
  ultimately have "kmem_alloc h sz = Inr (chunk_addr ?m ?b 0 + 8, snd (kmem_take h ?b 1 0 0 1))"
    by (metis prod.collapse)
  with h req show ?thesis
    by (intro exI [of _ h] exI [of _ "snd (kmem_take h ?b 1 0 0 1)"]) auto
qed

lemma kmem_alloc_free_low:
  fixes h h' :: "'a kheap_scheme"
  defines "b \<equiv> heap_block h"
  defines "n \<equiv> unat (blk_nChunks (kmem h) b)" and "cs \<equiv> unat (blk_chunkSize (kmem h) b)"
  assumes chain: "block_chain (kmem h) b [b]" and ok: "block_ok (kmem h) b"
    and small: "n * cs < 2 ^ 32" and sz: "unat sz + 8 < 2 ^ 31"
    and alloc: "kmem_alloc h sz = Inr (p, h')"
    and r: "r = unat (requiredChunks (sz + 8) (blk_chunkSize (kmem h) b))" "r < 32"
    and p: "p = chunk_addr (kmem h) b c + 8" "c < 4" "c + r \<le> n"
  shows "\<exists>h''. kmem_free h' p = Inr h'' \<and> heap_currentObjects h'' = heap_currentObjects h \<and>
    (\<forall>i < n. used (kmem h'') b i \<longleftrightarrow> used (kmem h) b i)"
proof -
  let ?req = "requiredChunks (sz + 8) (blk_chunkSize (kmem h) b)"
  from alloc kmem_alloc_eq [OF chain [unfolded b_def]] alloc_first_fit_Inr [of h "sz + 8" "[b]" "(p, h')"]
  obtain k bt msk where fc: "find_chunk (kmem h) b ?req 0 = Some (k, bt, msk)"
    and take: "kmem_take h b ?req k bt msk = (p, h')"
    by (auto simp: Let_def layout b_def)
  have cs8: "8 < cs" using block_okD(2) [OF ok] by (simp add: cs_def)
  have usz: "unat (sz + 8) = unat sz + 8" using sz by (simp add: unat_plus_if')
  have "blk_chunkSize (kmem h) b \<noteq> 0" using cs8 by (auto simp: cs_def)
  then have "unat sz + 8 \<le> r * cs"
    using requiredChunks_bounds(1) [of "sz + 8"] sz usz unfolding r(1) cs_def by simp
  then have r0: "0 < r" by (cases r) simp_all
  then have pos: "0 < ?req" "?req < 32" using r by (simp_all add: word_less_nat_alt)
  from find_chunk_run [OF fc pos] have k: "k < blk_nChunks (kmem h) b" and fit: "bt + r \<le> 32"
    and msk: "msk = push_bit bt (mask (unat ?req))"
    and free: "\<forall>i. bt \<le> i \<and> i < bt + r \<longrightarrow> \<not> bit (chunkMask (kmem h) b k) i"
    by (auto simp: r)
  have "chunk_addr (kmem h) b c = chunk_addr (kmem h) b (32 * unat k + bt)"
    using kmem_take_addr [OF ok k small_block_index [OF ok small [unfolded n_def cs_def] k], of ?req bt msk] take p(1) by simp
  moreover have "32 * unat k + bt < 32 * n" using k fit r0 by (simp add: n_def word_less_nat_alt)
  moreover have "c < 32 * n" using p r0 by linarith
  ultimately have c: "c = 32 * unat k + bt"
    using chunk_addr_inject [of "kmem h" b c "32 * unat k + bt"] small cs8
    by (simp add: n_def cs_def)
  note t = kmem_take_in_block [OF ok msk _ pos(1) c _ take, folded r(1) n_def]
  note t = t [OF fit p(3)]
  have hb: "heap_block h' = b" "heap_currentObjects h' = heap_currentObjects h + 1"
    using kmem_alloc_objects [OF take] by (simp_all add: b_def)
  have same: "chunk_addr (kmem h') b c = chunk_addr (kmem h) b c"
    using t(2,3) by (simp add: chunk_addr_def kmem_block_start_def)
  have ok': "block_ok (kmem h') b" using ok t(2,3) by (simp add: block_ok_def)
  have un: "unat (blk_nChunks (kmem h') b) = n" "unat (blk_chunkSize (kmem h') b) = cs"
    using t(2,3) by (simp_all add: n_def cs_def)
  have cr: "c + r \<le> 32" using c p(2) fit by (cases "unat k") simp_all
  have hdr: "unat (hdr_chunks (kmem h') (chunk_addr (kmem h') b c)) = r" unfolding same t(4) r(1) ..
  have "\<exists>h''. kmem_free h' (chunk_addr (kmem h') b c + 8) = Inr h'' \<and>
      heap_currentObjects h'' = heap_currentObjects h + 1 - 1 \<and>
      (\<forall>i < n. used (kmem h'') b i \<longleftrightarrow> used (kmem h') b i \<and> \<not> (c \<le> i \<and> i < c + r))"
    using ok' p(2,3) small r(2) r0 cr hdr
    by (intro kmem_free_low_chunk [of h' c r, unfolded hb un]) simp_all
  moreover have "\<not> used (kmem h) b i" if "c \<le> i \<and> i < c + r" for i
    using that free unfolding c in_run_iff [OF fit] by (auto simp: used_def)
  ultimately show ?thesis
    using t(5) hb(2) unfolding same p(1) by fastforce
qed

lemma kmem_alloc_full_block:
  fixes h :: "'a kheap_scheme"
  defines "b \<equiv> heap_block h"
  defines "n \<equiv> unat (blk_nChunks (kmem h) b)" and "cs \<equiv> unat (blk_chunkSize (kmem h) b)"
  assumes chain: "block_chain (kmem h) b [b]" and ok: "block_ok (kmem h) b"
    and small: "n * cs < 2 ^ 32" and sz: "unat sz + 8 < 2 ^ 31" "unat sz + 8 \<le> cs"
    and full: "\<forall>i < n. used (kmem h) b i"
    and k: "k < blk_nChunks (kmem h) b" "bt < 32" "\<not> bit (chunkMask (kmem h) b k) bt"
  shows "\<exists>p h'. kmem_alloc h sz = Inr (p, h') \<and> unat (kmem_block_start (kmem h) b) + n * cs + 8 \<le> unat p"
proof -
  let ?req = "requiredChunks (sz + 8) (blk_chunkSize (kmem h) b)"
  have cs8: "8 < cs" using block_okD(2) [OF ok] by (simp add: cs_def)
  then have cs0: "blk_chunkSize (kmem h) b \<noteq> 0" by (auto simp: cs_def)
  have usz: "unat (sz + 8) = unat sz + 8" using sz by (simp add: unat_plus_if')
  have "unat sz + 8 \<le> unat ?req * cs" "unat ?req * cs < unat sz + 8 + cs"
    using requiredChunks_bounds [of "sz + 8"] sz usz cs0 unfolding cs_def by simp_all
  then have "unat ?req = 1"
  proof -
    assume a: "unat sz + 8 \<le> unat ?req * cs" "unat ?req * cs < unat sz + 8 + cs"
    with sz(2) have "unat ?req * cs < 2 * cs" by linarith
    then have "unat ?req < 2" by simp
    moreover have "unat ?req \<noteq> 0" using a(1) by (cases "unat ?req") simp_all
    ultimately show ?thesis by linarith
  qed
  then have req: "?req = 1" by (simp add: word_unat_eq_iff)
  have "find_chunk (kmem h) b 1 0 \<noteq> None"
    using find_chunk_exists [OF k(1), of 1 bt] k(2,3) by (simp del: not_None_eq) (metis le_less_Suc_eq)
  then obtain j bj msk where fc: "find_chunk (kmem h) b 1 0 = Some (j, bj, msk)" by auto
  then have al: "kmem_alloc h sz = Inr (kmem_take h b 1 j bj msk)"
    using kmem_alloc_eq [OF chain [unfolded b_def], of sz] cs0 req by (simp add: layout b_def)
  from find_chunk_run [OF fc] have j: "j < blk_nChunks (kmem h) b" and bj: "bj < 32"
    and free: "\<not> bit (chunkMask (kmem h) b j) bj" by auto
  have out: "n \<le> 32 * unat j + bj"
  proof (rule ccontr)
    assume "\<not> n \<le> 32 * unat j + bj"
    then have "used (kmem h) b (32 * unat j + bj)" using full by simp
    with bj free show False by (simp add: used_def)
  qed
  let ?c = "32 * unat j + bj"
  have jn: "unat j < n" using j by (simp add: n_def word_less_nat_alt)
  have "?c * cs \<le> 32 * n * cs" using jn bj by (intro mult_right_mono) linarith+
  also have "\<dots> = 32 * (n * cs)" by simp
  also have "\<dots> < 32 * 2 ^ 32" using small by linarith
  finally have lt: "?c * cs < 2 ^ 37" by simp
  have "unat (of_nat ?c :: u64) = ?c"
    using jn bj unat_less_2p [of "blk_nChunks (kmem h) b"] by (intro unat_of_nat_small) (simp add: n_def)
  with lt have "unat (ucast (blk_chunkSize (kmem h) b) * of_nat ?c :: u64) = ?c * cs"
    by (simp add: unat_word_ariths cs_def mult.commute del: of_nat_add of_nat_mult)
  moreover have "unat (kmem_block_start (kmem h) b) < 2 ^ 63"
    using block_okD(3) [OF ok] by (simp add: unat_block_start [OF ok])
  ultimately have "unat (chunk_addr (kmem h) b ?c + 8) = unat (kmem_block_start (kmem h) b) + ?c * cs + 8"
    using lt by (simp add: chunk_addr_def unat_plus_if' del: of_nat_add of_nat_mult)
  moreover have "n * cs \<le> ?c * cs" using out by (rule mult_right_mono) simp
  moreover have "fst (kmem_take h b 1 j bj msk) = chunk_addr (kmem h) b ?c + 8"
    by (rule kmem_take_addr [OF ok j small_block_index [OF ok small [unfolded n_def cs_def] j]])
  ultimately show ?thesis unfolding al by (metis add_le_mono1 nat_add_left_cancel_le prod.collapse)
qed

lemma kmem_alloc_too_large:
  fixes h :: "'a kheap_scheme"
  assumes chain: "block_chain (kmem h) (heap_block h) bs" and sz: "unat sz + 8 < 2 ^ 31"
    and large: "\<forall>b\<in>set bs. blk_chunkSize (kmem h) b \<noteq> 0 \<and> 32 * unat (blk_chunkSize (kmem h) b) < unat sz + 8"
  shows "kmem_alloc h sz = Inl (Panic ''out of memory'')"
proof -
  have usz: "unat (sz + 8) = unat sz + 8" using sz by (simp add: unat_plus_if')
  have "32 < requiredChunks (sz + 8) (blk_chunkSize (kmem h) b)" if b: "b \<in> set bs" for b
  proof (rule ccontr)
    let ?r = "unat (requiredChunks (sz + 8) (blk_chunkSize (kmem h) b))"
    assume "\<not> 32 < requiredChunks (sz + 8) (blk_chunkSize (kmem h) b)"
    then have "?r \<le> 32" by (simp add: not_less word_le_nat_alt)
    then have "?r * unat (blk_chunkSize (kmem h) b) \<le> 32 * unat (blk_chunkSize (kmem h) b)"
      by (rule mult_right_mono) simp
    moreover have "unat sz + 8 \<le> ?r * unat (blk_chunkSize (kmem h) b)"
      using requiredChunks_bounds(1) [of "sz + 8"] sz usz large b by simp
    moreover have "32 * unat (blk_chunkSize (kmem h) b) < unat sz + 8" using large b by blast
    ultimately show False by linarith
  qed
  with large show ?thesis
    unfolding kmem_alloc_eq [OF chain] layout by (intro alloc_first_fit_exhausted) simp
qed

subsection \<open>Frame: the heap operations change only their own fields\<close>

lemma kmem_take_frame:
  "kmem_take h b req k bt msk = (p, h') \<Longrightarrow>
     \<exists>m s c. h' = h\<lparr>kmem := m, heap_sequence := s, heap_currentObjects := c\<rparr>"
  by (force simp: kmem_take_def Let_def)

lemma kmem_alloc_blocks_frame:
  "kmem_alloc_blocks fuel h sz b = Inr (p, h') \<Longrightarrow>
     \<exists>m s c. h' = h\<lparr>kmem := m, heap_sequence := s, heap_currentObjects := c\<rparr>"
proof (induction fuel arbitrary: b)
  case 0
  then show ?case by (subst (asm) kmem_alloc_blocks.simps) (simp split: if_splits)
next
  case (Suc fuel)
  from Suc.prems show ?case
    by (subst (asm) kmem_alloc_blocks.simps)
      (auto simp: Let_def split: if_splits option.splits dest: kmem_take_frame Suc.IH)
qed

lemma kmem_alloc_frame:
  "kmem_alloc h sz = Inr (p, h') \<Longrightarrow>
     \<exists>m s c. h' = h\<lparr>kmem := m, heap_sequence := s, heap_currentObjects := c\<rparr>"
  unfolding kmem_alloc_def by (rule kmem_alloc_blocks_frame)

lemma kmem_free_from_block_frame:
  "kmem_free_from_block h b p = Inr h' \<Longrightarrow> \<exists>m c. h' = h\<lparr>kmem := m, heap_currentObjects := c\<rparr>"
  by (auto simp: kmem_free_from_block_def Let_def split: if_splits)

lemma kmem_free_blocks_frame:
  "kmem_free_blocks fuel h p b = Inr h' \<Longrightarrow> \<exists>m c. h' = h\<lparr>kmem := m, heap_currentObjects := c\<rparr>"
proof (induction fuel arbitrary: b)
  case 0
  then show ?case by (subst (asm) kmem_free_blocks.simps) (simp split: if_splits)
next
  case (Suc fuel)
  from Suc.prems show ?case
    by (subst (asm) kmem_free_blocks.simps)
      (auto simp: Let_def split: if_splits dest: kmem_free_from_block_frame Suc.IH)
qed

lemma kmem_free_frame: "kmem_free h p = Inr h' \<Longrightarrow> \<exists>m c. h' = h\<lparr>kmem := m, heap_currentObjects := c\<rparr>"
  unfolding kmem_free_def by (rule kmem_free_blocks_frame)

text \<open>
  The heap operations do not look at the fields a client adds to the record: on a state
  with the same heap they do the same, and keep those fields.
\<close>

definition same_heap :: "'a kheap_scheme \<Rightarrow> 'b kheap_scheme \<Rightarrow> bool" where
  "same_heap h g \<longleftrightarrow> kmem g = kmem h \<and> heap_sequence g = heap_sequence h \<and>
     heap_currentObjects g = heap_currentObjects h \<and> heap_block g = heap_block h"

lemma kmem_free_from_block_same:
  "kmem_free_from_block h b p = Inr h' \<Longrightarrow> same_heap h g \<Longrightarrow>
     kmem_free_from_block g b p = Inr (g\<lparr>kmem := kmem h', heap_currentObjects := heap_currentObjects h'\<rparr>)"
  by (auto simp: kmem_free_from_block_def same_heap_def Let_def split: if_splits)

lemma kmem_free_blocks_same:
  "kmem_free_blocks fuel h p b = Inr h' \<Longrightarrow> same_heap h g \<Longrightarrow>
     kmem_free_blocks fuel g p b = Inr (g\<lparr>kmem := kmem h', heap_currentObjects := heap_currentObjects h'\<rparr>)"
proof (induction fuel arbitrary: b)
  case 0
  then show ?case by (subst (asm) kmem_free_blocks.simps) (simp split: if_splits)
next
  case (Suc fuel)
  have eq: "kmem g = kmem h" using Suc.prems by (simp add: same_heap_def)
  from Suc.prems show ?case
    by (subst (asm) kmem_free_blocks.simps, subst kmem_free_blocks.simps)
      (auto simp: Let_def eq split: if_splits dest: kmem_free_from_block_same Suc.IH)
qed

lemma kmem_free_same:
  "kmem_free h p = Inr h' \<Longrightarrow> same_heap h g \<Longrightarrow>
     kmem_free g p = Inr (g\<lparr>kmem := kmem h', heap_currentObjects := heap_currentObjects h'\<rparr>)"
  unfolding kmem_free_def by (simp add: kmem_free_blocks_same same_heap_def)

lemma kmem_alloc_blocks_same:
  "kmem_alloc_blocks fuel h sz b = Inr (p, h') \<Longrightarrow> same_heap h g \<Longrightarrow>
     \<exists>g'. kmem_alloc_blocks fuel g sz b = Inr (p, g') \<and> same_heap h' g'"
proof (induction fuel arbitrary: b)
  case 0
  then show ?case by (subst (asm) kmem_alloc_blocks.simps) (simp split: if_splits)
next
  case (Suc fuel)
  have eq: "kmem g = kmem h" using Suc.prems by (simp add: same_heap_def)
  have take: "kmem_take h b req k bt msk = (p, h') \<Longrightarrow>
      \<exists>g'. kmem_take g b req k bt msk = (p, g') \<and> same_heap h' g'" for req k bt msk
    using Suc.prems(2) by (auto simp: kmem_take_def same_heap_def Let_def)
  from Suc.prems show ?case
    by (subst (asm) kmem_alloc_blocks.simps, subst kmem_alloc_blocks.simps)
      (auto simp: Let_def eq split: if_splits option.splits dest: take Suc.IH)
qed

lemma kmem_alloc_same:
  "kmem_alloc h sz = Inr (p, h') \<Longrightarrow> same_heap h g \<Longrightarrow> \<exists>g'. kmem_alloc g sz = Inr (p, g') \<and> same_heap h' g'"
  unfolding kmem_alloc_def using kmem_alloc_blocks_same [of "2 ^ 64" h] by (simp add: same_heap_def)

lemma kmem_alloc_on:
  assumes "kmem_alloc h sz = Inr (p, h')" "same_heap h g"
  shows "kmem_alloc g sz = Inr (p, g\<lparr>kmem := kmem h', heap_sequence := heap_sequence h',
    heap_currentObjects := heap_currentObjects h'\<rparr>)"
proof -
  obtain g' where g': "kmem_alloc g sz = Inr (p, g')" "same_heap h' g'" using kmem_alloc_same [OF assms] by blast
  obtain m s c where "g' = g\<lparr>kmem := m, heap_sequence := s, heap_currentObjects := c\<rparr>"
    using kmem_alloc_frame [OF g'(1)] by blast
  with g' show ?thesis by (simp add: same_heap_def)
qed

subsection \<open>The heap as its clients see it\<close>

text \<open>
  What a client that frees objects relies on: freeing an owned object succeeds and keeps the
  heap ready for the others.
\<close>

locale object_heap =
  fixes ready :: "'h \<Rightarrow> bool" and owned :: "'h \<Rightarrow> u64 \<Rightarrow> bool" and free :: "'h \<Rightarrow> u64 \<Rightarrow> 'h res"
  assumes free_owned: "ready h \<Longrightarrow> owned h p \<Longrightarrow>
    \<exists>h'. free h p = Inr h' \<and> ready h' \<and> (\<forall>q. owned h q \<longrightarrow> owned h' q)"
begin

fun free_all :: "'h \<Rightarrow> u64 list \<Rightarrow> 'h res" where
  "free_all h [] = Inr h"
| "free_all h (p # ps) = bind_res (free h p) (\<lambda>h. free_all h ps)"

lemma free_all_owned:
  "ready h \<Longrightarrow> \<forall>p\<in>set ps. owned h p \<Longrightarrow>
     \<exists>h'. free_all h ps = Inr h' \<and> ready h' \<and> (\<forall>q. owned h q \<longrightarrow> owned h' q)"
proof (induction ps arbitrary: h)
  case (Cons p ps)
  from free_owned [of h p] Cons.prems obtain h1 where
    h1: "free h p = Inr h1" "ready h1" "\<forall>q. owned h q \<longrightarrow> owned h1 q" by auto
  with Cons.IH [of h1] Cons.prems show ?case by auto
qed simp

end

definition heap_ready :: "'a kheap_scheme \<Rightarrow> bool" where
  "heap_ready h \<longleftrightarrow> block_chain (kmem h) (heap_block h) [heap_block h] \<and>
     block_ok (kmem h) (heap_block h) \<and>
     unat (blk_nChunks (kmem h) (heap_block h)) * unat (blk_chunkSize (kmem h) (heap_block h)) < 2 ^ 32"

definition heap_owns :: "'a kheap_scheme \<Rightarrow> u64 \<Rightarrow> bool" where
  "heap_owns h p \<longleftrightarrow> (\<exists>c < unat (blk_nChunks (kmem h) (heap_block h)).
     p = chunk_addr (kmem h) (heap_block h) c + 8)"

lemma heap_ready_cong:
  assumes "heap_block h' = heap_block h"
    and "blk_next (kmem h') (heap_block h) = blk_next (kmem h) (heap_block h)"
    and "blk_nChunks (kmem h') (heap_block h) = blk_nChunks (kmem h) (heap_block h)"
    and "blk_chunkSize (kmem h') (heap_block h) = blk_chunkSize (kmem h) (heap_block h)"
  shows "heap_ready h' = heap_ready h" and "heap_owns h' = heap_owns h"
  using assms
  by (auto simp: heap_ready_def heap_owns_def block_ok_def chunk_addr_def kmem_block_start_def fun_eq_iff)

lemma kmem_free_owned:
  fixes h :: "'a kheap_scheme"
  assumes "heap_ready h" "heap_owns h p"
  shows "\<exists>h'. kmem_free h p = Inr h' \<and> heap_ready h' \<and> heap_owns h' = heap_owns h \<and>
    heap_currentObjects h' = heap_currentObjects h - 1"
proof -
  let ?m = "kmem h" and ?b = "heap_block h"
  let ?n = "unat (blk_nChunks ?m ?b)"
  from assms(2) obtain c where c: "c < ?n" and p: "p = chunk_addr ?m ?b c + 8"
    by (auto simp: heap_owns_def)
  have ok: "block_ok ?m ?b" and small: "?n * unat (blk_chunkSize ?m ?b) < 2 ^ 32"
    using assms(1) by (simp_all add: heap_ready_def)
  let ?k = "of_nat (c div 4) :: u32"
  obtain w where f: "kmem_free h p = Inr (h\<lparr>kmem := store32 ?m (mask_addr ?b ?k) w,
      heap_currentObjects := heap_currentObjects h - 1\<rparr>)"
    unfolding p kmem_free_head [OF ok c small] kmem_free_from_block_eq [OF ok c] by blast
  have "c < 2 ^ 32" using c unat_less_2p [of "blk_nChunks ?m ?b"] by simp
  then have uk: "unat ?k = c div 4" by (intro unat_of_nat_small) simp
  have "unat ?b + 28 + 4 * unat ?k < 2 ^ 63"
    using block_okD(3) [OF ok] c uk by linarith
  then have a: "unat ?b + 24 \<le> unat (mask_addr ?b ?k)" "unat (mask_addr ?b ?k) + 4 < 2 ^ 63"
    using unat_mask_addr [of ?b ?k] by simp_all
  note fields = block_fields_upd [OF ok a]
  show ?thesis
    unfolding f using assms(1)
    by (simp add: fields heap_ready_cong [of "h\<lparr>kmem := store32 ?m (mask_addr ?b ?k) w,
      heap_currentObjects := heap_currentObjects h - 1\<rparr>" h])
qed

text \<open>An allocation that hands out an object of the block leaves the heap ready and its objects the same.\<close>

lemma kmem_alloc_owned:
  fixes h :: "'a kheap_scheme"
  assumes ready: "heap_ready h" and alloc: "kmem_alloc h sz = Inr (p, h')" "unat sz + 8 < 2 ^ 31" and owned: "heap_owns h p"
  shows "heap_ready h'" "heap_owns h' = heap_owns h"
proof -
  let ?b = "heap_block h" and ?req = "requiredChunks (sz + 8) (blk_chunkSize (kmem h) (heap_block h))"
  have ok: "block_ok (kmem h) ?b" and chain: "block_chain (kmem h) ?b [?b]"
    and small: "unat (blk_nChunks (kmem h) ?b) * unat (blk_chunkSize (kmem h) ?b) < 2 ^ 32"
    using ready by (simp_all add: heap_ready_def)
  obtain k bt msk where fc: "find_chunk (kmem h) ?b ?req 0 = Some (k, bt, msk)"
    and take: "kmem_take h ?b ?req k bt msk = (p, h')"
    using alloc(1) kmem_alloc_eq [OF chain] alloc_first_fit_Inr [of h "sz + 8" "[?b]" "(p, h')"]
    by (auto simp: Let_def layout)
  have usz: "unat (sz + 8) = unat sz + 8" using alloc(2) by (simp add: unat_plus_if')
  have cs: "8 < unat (blk_chunkSize (kmem h) ?b)" by (rule block_okD(2) [OF ok])
  then have "blk_chunkSize (kmem h) ?b \<noteq> 0" by auto
  then have "unat sz + 8 \<le> unat ?req * unat (blk_chunkSize (kmem h) ?b)"
    using requiredChunks_bounds(1) [of "sz + 8"] alloc(2) usz by simp
  then have pos: "0 < unat ?req" by (cases "unat ?req") simp_all
  have "k < blk_nChunks (kmem h) ?b"
    and fb: "find_bit (chunkMask (kmem h) ?b k) (push_bit 0 (shl1 ?req - 1)) 0 (32 - unat ?req + 1) = Some (bt, msk)"
    using find_chunk_Some [OF fc] by simp_all
  then have k: "k < blk_nChunks (kmem h) ?b" "unat k < unat (blk_nChunks (kmem h) ?b)" by (simp_all add: word_less_nat_alt)
  have "bt < 32" using find_bit_Some [OF fb] pos by linarith
  then have big: "32 * unat k + bt < 32 * unat (blk_nChunks (kmem h) ?b)" using k(2) by linarith
  obtain c where c: "c < unat (blk_nChunks (kmem h) ?b)" "p = chunk_addr (kmem h) ?b c + 8" using owned by (auto simp: heap_owns_def)
  have "p = chunk_addr (kmem h) ?b (32 * unat k + bt) + 8"
    using kmem_take_addr [OF ok k(1) small_block_index [OF ok small k(1)], of ?req bt msk] take by simp
  then have "chunk_addr (kmem h) ?b (32 * unat k + bt) = chunk_addr (kmem h) ?b c" using c(2) by simp
  moreover have "0 < unat (blk_chunkSize (kmem h) ?b)" "c < 32 * unat (blk_nChunks (kmem h) ?b)" using cs c(1) by simp_all
  ultimately have "32 * unat k + bt = c" using chunk_addr_inject [OF small _ big] by blast
  then have inb: "32 * unat k + bt < unat (blk_nChunks (kmem h) ?b)" using c(1) by simp
  note w = kmem_take_writes [OF ok refl inb take]
  have hb: "heap_block h' = ?b" using kmem_alloc_objects [OF take] by simp
  show "heap_ready h'" "heap_owns h' = heap_owns h"
    using heap_ready_cong [OF hb w(5,3,4)] ready by simp_all
qed

interpretation kheap_objects: object_heap heap_ready heap_owns kmem_free
proof
  fix h :: "'a kheap_scheme" and p
  assume "heap_ready h" "heap_owns h p"
  from kmem_free_owned [OF this] show "\<exists>h'. kmem_free h p = Inr h' \<and> heap_ready h' \<and>
    (\<forall>q. heap_owns h q \<longrightarrow> heap_owns h' q)" by auto
qed

text \<open>The heap after start-up, with the first \<open>n\<close> chunks of 128 bytes taken; \<open>x\<close> extends the record.\<close>

definition boot_heap :: "'a kheap_scheme \<Rightarrow> nat \<Rightarrow> bool" where
  "boot_heap h n \<longleftrightarrow> heap_block h = 32768 \<and> block_chain (kmem h) 32768 [32768] \<and> block_ok (kmem h) 32768 \<and>
     blk_nChunks (kmem h) 32768 = 60 \<and> blk_chunkSize (kmem h) 32768 = 128 \<and> chunkMask (kmem h) 32768 0 = mask n"

lemma boot_heap_addr:
  assumes "boot_heap h n" "c < 60"
  shows "chunk_addr (kmem h) 32768 c = 32808 + of_nat (128 * c)"
proof -
  have ok: "block_ok (kmem h) 32768" and nc: "blk_nChunks (kmem h) 32768 = 60" "blk_chunkSize (kmem h) 32768 = 128"
    using assms(1) by (simp_all add: boot_heap_def)
  have "unat (chunk_addr (kmem h) 32768 c) = 32808 + c * 128"
    using unat_chunk_addr [OF ok, of c] assms(2) by (simp add: nc)
  moreover have "unat (32808 + of_nat (128 * c) :: u64) = 32808 + c * 128"
    using assms(2) by (simp add: unat_word_ariths unat_of_nat mult.commute)
  ultimately show ?thesis by (simp only: word_unat_eq_iff)
qed

lemma boot_heap_ready:
  assumes "boot_heap h n"
  shows "heap_ready h" "c < 60 \<Longrightarrow> heap_owns h (32816 + of_nat (128 * c))"
proof -
  show "heap_ready h" using assms by (auto simp: boot_heap_def heap_ready_def)
  assume "c < 60"
  moreover from this have "32816 + of_nat (128 * c) = chunk_addr (kmem h) 32768 c + 8"
    using boot_heap_addr [OF assms] by simp
  ultimately show "heap_owns h (32816 + of_nat (128 * c))"
    using assms by (auto simp: heap_owns_def boot_heap_def)
qed

lemma boot_heap_0: "\<exists>h :: 'a kheap_scheme. boot_heap h 0 \<and> kheap.more h = x"
proof -
  obtain h :: "'a kheap_scheme" where h: "heap_block h = 32768" "block_chain (kmem h) 32768 [32768]"
      "block_ok (kmem h) 32768" "unat (blk_nChunks (kmem h) 32768) = 60"
      "unat (blk_chunkSize (kmem h) 32768) = 128" "\<forall>i<60. \<not> used (kmem h) 32768 i" "kheap.more h = x"
    using boot_heap_exists [of x] by blast
  have "\<not> bit (chunkMask (kmem h) 32768 0) i" if "i < 32" for i
    using h(6) that by (auto simp: used_def dest: spec [of _ i])
  then have "chunkMask (kmem h) 32768 0 = 0" by (intro bit_word_eqI) simp
  then have "boot_heap h 0" using h by (auto simp: boot_heap_def word_unat_eq_iff)
  with h(7) show ?thesis by blast
qed

text \<open>What is written behind the header changes nothing of this.\<close>

lemma boot_heap_write:
  assumes "boot_heap h n" "33000 \<le> unat a" "unat a + length bs < 2 ^ 63" "bs \<noteq> []"
  shows "boot_heap (h\<lparr>kmem := write_mem (kmem h) a bs\<rparr>) n"
proof -
  have sep: "separate c k a (length bs)" if "unat c \<le> 32800" "0 < k" "k \<le> 8" for c k
    using that assms(2,3) by (intro separateI_less) simp_all
  have "blk_next (write_mem (kmem h) a bs) 32768 = blk_next (kmem h) 32768"
    "blk_nChunks (write_mem (kmem h) a bs) 32768 = blk_nChunks (kmem h) 32768"
    "blk_chunkSize (write_mem (kmem h) a bs) 32768 = blk_chunkSize (kmem h) 32768"
    "chunkMask (write_mem (kmem h) a bs) 32768 0 = chunkMask (kmem h) 32768 0"
    by (simp_all add: blk_next_def blk_nChunks_def blk_chunkSize_def chunkMask_def mask_addr_def
        load32_write_separate load64_write_separate sep)
  with assms(1) show ?thesis by (simp add: boot_heap_def block_ok_def)
qed

lemma boot_heap_take:
  assumes h: "boot_heap h n" "n < 31" and sz: "requiredChunks (sz + 8) 128 = r" "r \<noteq> 0" "unat r \<le> 31"
    and free: "find_chunk (kmem h) 32768 r 0 = Some (0, n, m)"
  shows "kmem_alloc h sz = Inr (32816 + of_nat (128 * n), snd (kmem_take h 32768 r 0 n m))"
proof -
  have ok: "block_chain (kmem h) (heap_block h) [32768]" "block_ok (kmem h) 32768"
      "blk_nChunks (kmem h) 32768 = 60" "blk_chunkSize (kmem h) 32768 = 128" "heap_block h = 32768"
    using h by (simp_all add: boot_heap_def)
  have "kmem_alloc h sz = Inr (kmem_take h 32768 r 0 n m)"
    using kmem_alloc_eq [OF ok(1), of sz] ok(4) sz free by (simp add: layout word_less_nat_alt)
  moreover have "fst (kmem_take h 32768 r 0 n m) = 32816 + of_nat (128 * n)"
    using kmem_take_addr [OF ok(2), of 0 r n m] boot_heap_addr [OF h(1), of n] ok(3) h(2) by simp
  ultimately show ?thesis by (metis prod.collapse)
qed

lemma boot_heap_alloc_one:
  fixes h :: "'a kheap_scheme"
  assumes h: "boot_heap h n" "n < 31" and sz: "unat sz \<le> 120"
    and free: "find_chunk (kmem h) 32768 1 0 = Some (0, n, push_bit n 1)"
  shows "\<exists>h'. kmem_alloc h sz = Inr (32816 + of_nat (128 * n), h') \<and> boot_heap h' (Suc n) \<and> kheap.more h' = kheap.more h"
proof -
  obtain p h' where t: "kmem_take h 32768 1 0 n (push_bit n 1) = (p, h')" by fastforce
  have ok: "block_ok (kmem h) 32768" and nc: "blk_nChunks (kmem h) 32768 = 60" and m: "chunkMask (kmem h) 32768 0 = mask n"
    using h(1) by (simp_all add: boot_heap_def)
  have msk: "push_bit n (1 :: u32) = push_bit n (mask (unat (1 :: u32)))" by simp
  note tk = kmem_take_in_block [OF ok msk _ _ _ _ t, of n]
  have al: "kmem_alloc h sz = Inr (32816 + of_nat (128 * n), h')"
    using boot_heap_take [OF h requiredChunks_one [OF sz] _ _ free] t by simp
  have "bit (chunkMask (kmem h') 32768 0) i \<longleftrightarrow> i < Suc n" if "i < 32" for i
    using tk(5) [of i] that h(2) by (auto simp: used_def m nc bit_simps less_Suc_eq)
  then have "chunkMask (kmem h') 32768 0 = mask (Suc n)" by (intro bit_word_eqI) (auto simp: bit_simps)
  then have "boot_heap h' (Suc n)"
    using h tk(2,3,6) kmem_alloc_objects [OF t] by (simp add: boot_heap_def block_ok_def nc)
  moreover have "kheap.more h' = kheap.more h" using kmem_alloc_frame [OF al] by auto
  ultimately show ?thesis using al by blast
qed

text \<open>The first allocations.\<close>

lemma boot_heap_free:
  assumes "boot_heap h n"
  shows "n = 0 \<Longrightarrow> find_chunk (kmem h) 32768 1 0 = Some (0, 0, 1)"
    and "n = 1 \<Longrightarrow> find_chunk (kmem h) 32768 1 0 = Some (0, 1, 2)"
    and "n = 2 \<Longrightarrow> find_chunk (kmem h) 32768 1 0 = Some (0, 2, 4)"
    and "n = 1 \<Longrightarrow> find_chunk (kmem h) 32768 17 0 = Some (0, 1, 0x3fffe)"
proof -
  have nc: "blk_nChunks (kmem h) 32768 = 60" and m: "chunkMask (kmem h) 32768 0 = mask n"
    using assms by (simp_all add: boot_heap_def)
  have masks: "mask 0 = (0 :: u32)" "mask 1 = (1 :: u32)" "mask 2 = (3 :: u32)" by (simp_all add: mask_eq_exp_minus_1)
  show "find_chunk (kmem h) 32768 1 0 = Some (0, 0, 1)" if "n = 0"
    by (subst find_chunk.simps, subst find_bit.simps) (simp add: nc m that masks shl1_def test_bits_def)
  show "find_chunk (kmem h) 32768 1 0 = Some (0, 1, 2)" if "n = 1"
    by (subst find_chunk.simps, subst find_bit.simps, subst find_bit.simps) (simp add: nc m that masks shl1_def test_bits_def)
  show "find_chunk (kmem h) 32768 1 0 = Some (0, 2, 4)" if "n = 2"
    by (subst find_chunk.simps, subst find_bit.simps, subst find_bit.simps, subst find_bit.simps) (simp add: nc m that masks shl1_def test_bits_def)
  show "find_chunk (kmem h) 32768 17 0 = Some (0, 1, 0x3fffe)" if "n = 1"
    by (subst find_chunk.simps, subst find_bit.simps, subst find_bit.simps) (simp add: nc m that masks shl1_def test_bits_def)
qed

lemma boot_heap_next:
  fixes h :: "'a kheap_scheme"
  assumes "boot_heap h n" "n < 3" "unat sz \<le> 120"
  shows "\<exists>h'. kmem_alloc h sz = Inr (32816 + of_nat (128 * n), h') \<and> boot_heap h' (Suc n) \<and> kheap.more h' = kheap.more h"
proof -
  have "n = 0 \<or> n = 1 \<or> n = 2" using assms(2) by auto
  then have "find_chunk (kmem h) 32768 1 0 = Some (0, n, push_bit n 1)"
    using boot_heap_free(1-3) [OF assms(1)] by (elim disjE) simp_all
  moreover have "n < 31" using assms(2) by simp
  ultimately show ?thesis using boot_heap_alloc_one [OF assms(1) _ assms(3)] by blast
qed

lemma boot_alloc_two:
  assumes "unat sz \<le> 120" "unat sz' \<le> 120"
  shows "\<exists>(h :: 'a kheap_scheme) h1 h2. heap_ready h \<and> kmem_alloc h sz = Inr (32816, h1) \<and>
    kmem_alloc h1 sz' = Inr (32944, h2) \<and> heap_owns h 32816 \<and> kheap.more h = x"
proof -
  obtain h :: "'a kheap_scheme" where h: "boot_heap h 0" "kheap.more h = x" using boot_heap_0 [of x] by blast
  have lt: "(0 :: nat) < 3" "(1 :: nat) < 3" by simp_all
  from boot_heap_next [OF h(1) lt(1) assms(1)]
  obtain h1 where "kmem_alloc h sz = Inr (32816 + of_nat (128 * 0), h1)" "boot_heap h1 (Suc 0)" by blast
  then have h1: "kmem_alloc h sz = Inr (32816, h1)" and b1: "boot_heap h1 1" by simp_all
  from boot_heap_next [OF b1 lt(2) assms(2)]
  obtain h2 where "kmem_alloc h1 sz' = Inr (32816 + of_nat (128 * 1), h2)" by blast
  then have "kmem_alloc h1 sz' = Inr (32944, h2)" by simp
  moreover have "heap_owns h 32816" using boot_heap_ready(2) [OF h(1), of 0] by simp
  ultimately show ?thesis using h(2) h1 boot_heap_ready(1) [OF h(1)] by blast
qed

text \<open>Three objects on a heap whose memory holds given bytes.\<close>

lemma boot_alloc_three:
  assumes "unat sz \<le> 120" "unat sz' \<le> 120" "unat sz'' \<le> 120"
    and bs: "33000 \<le> unat a" "unat a + length bs < 2 ^ 63" "bs \<noteq> []"
  shows "\<exists>(h :: 'a kheap_scheme) h1 h2 h3. boot_heap h 0 \<and> kmem_alloc h sz = Inr (32816, h1) \<and>
    kmem_alloc h1 sz' = Inr (32944, h2) \<and> kmem_alloc h2 sz'' = Inr (33072, h3) \<and>
    read_mem (kmem h) a (length bs) = bs \<and> kheap.more h = x"
proof -
  obtain h0 :: "'a kheap_scheme" where h0: "boot_heap h0 0" "kheap.more h0 = x" using boot_heap_0 [of x] by blast
  let ?h = "h0\<lparr>kmem := write_mem (kmem h0) a bs\<rparr>"
  have h: "boot_heap ?h 0" by (rule boot_heap_write [OF h0(1) bs])
  have lt: "(0 :: nat) < 3" "(1 :: nat) < 3" "(2 :: nat) < 3" by simp_all
  from boot_heap_next [OF h lt(1) assms(1)]
  obtain h1 where "kmem_alloc ?h sz = Inr (32816 + of_nat (128 * 0), h1)" "boot_heap h1 (Suc 0)" by blast
  then have h1: "kmem_alloc ?h sz = Inr (32816, h1)" "boot_heap h1 1" by simp_all
  from boot_heap_next [OF h1(2) lt(2) assms(2)]
  obtain h2 where "kmem_alloc h1 sz' = Inr (32816 + of_nat (128 * 1), h2)" "boot_heap h2 (Suc 1)" by blast
  then have h2: "kmem_alloc h1 sz' = Inr (32944, h2)" "boot_heap h2 2" by (simp_all add: numeral_2_eq_2)
  from boot_heap_next [OF h2(2) lt(3) assms(3)]
  obtain h3 where "kmem_alloc h2 sz'' = Inr (32816 + of_nat (128 * 2), h3)" by blast
  then have h3: "kmem_alloc h2 sz'' = Inr (33072, h3)" by simp
  have "read_mem (kmem ?h) a (length bs) = bs" using bs(2) by (simp add: read_write_same)
  moreover have "kheap.more ?h = x" using h0(2) by simp
  ultimately show ?thesis using h h1(1) h2(1) h3 by blast
qed

text \<open>Behind the first object there is room for one of 17 chunks.\<close>

lemma boot_alloc_large:
  assumes "unat sz \<le> 120" "2040 < unat sz'" "unat sz' \<le> 2168"
  shows "\<exists>(h :: 'a kheap_scheme) h1 h2. kmem_alloc h sz = Inr (32816, h1) \<and>
    kmem_alloc h1 sz' = Inr (32944, h2) \<and> kheap.more h = x"
proof -
  obtain h :: "'a kheap_scheme" where h: "boot_heap h 0" "kheap.more h = x" using boot_heap_0 [of x] by blast
  have lt: "(0 :: nat) < 3" "(1 :: nat) < 3" by simp_all
  from boot_heap_next [OF h(1) lt(1) assms(1)]
  obtain h1 where "kmem_alloc h sz = Inr (32816 + of_nat (128 * 0), h1)" "boot_heap h1 (Suc 0)" by blast
  then have h1: "kmem_alloc h sz = Inr (32816, h1)" and b1: "boot_heap h1 1" by simp_all
  let ?r = "requiredChunks (sz' + 8) 128"
  have us: "unat (sz' + 8) = unat sz' + 8" using assms by (simp add: unat_plus_if')
  have "unat sz' + 8 \<le> unat ?r * 128" "unat ?r * 128 < unat sz' + 8 + 128"
    using requiredChunks_bounds [of "sz' + 8" 128] assms us by simp_all
  with assms have "unat ?r = 17" by linarith
  then have r: "?r = 17" by (simp add: word_unat_eq_iff)
  have "find_chunk (kmem h1) 32768 17 0 = Some (0, 1, 0x3fffe)" using boot_heap_free(4) [OF b1] by simp
  then have "kmem_alloc h1 sz' = Inr (32816 + of_nat (128 * 1), snd (kmem_take h1 32768 17 0 1 0x3fffe))"
    by (intro boot_heap_take [OF b1 _ r]) simp_all
  then have "kmem_alloc h1 sz' = Inr (32944, snd (kmem_take h1 32768 17 0 1 0x3fffe))" by simp
  with h h1 show ?thesis by blast
qed

lemma boot_alloc:
  assumes "unat sz \<le> 120"
  shows "\<exists>(h :: 'a kheap_scheme) h'. heap_ready h \<and> kmem_alloc h sz = Inr (32816, h') \<and>
    heap_owns h 32816 \<and> kheap.more h = x"
  using boot_alloc_two [OF assms assms, of x] by blast

subsection \<open>A concrete block\<close>

text \<open>A concrete block of 64 chunks of 128 bytes, with given first masks and a header at chunk 4.\<close>

definition demo_mem :: "u32 \<Rightarrow> mem" where
  "demo_mem w = store32 (store32 (store32 (store32 (store32 (\<lambda>_. 0) 32784 64) 32788 128)
      32792 w) 32796 w) 33328 1"

lemma demo_mem_fields:
  "blk_next (demo_mem w) 32768 = 0" "blk_nChunks (demo_mem w) 32768 = 64"
  "blk_chunkSize (demo_mem w) 32768 = 128" "chunkMask (demo_mem w) 32768 0 = w"
  "chunkMask (demo_mem w) 32768 1 = w" "chunkMask (demo_mem w) 32768 2 = 0"
  "load32 (demo_mem w) 33328 = 1"
proof -
  have z: "read_mem (\<lambda>_. 0) a n = replicate n 0" for a n
    by (simp add: read_mem_def map_replicate_const)
  have z2: "load32 (\<lambda>_. 0) a = 0" "load64 (\<lambda>_. 0) a = 0" for a
    by (simp_all add: load32_def load64_def z join_le_zeroes)
  show "blk_next (demo_mem w) 32768 = 0" "blk_nChunks (demo_mem w) 32768 = 64"
  "blk_chunkSize (demo_mem w) 32768 = 128" "chunkMask (demo_mem w) 32768 0 = w"
  "chunkMask (demo_mem w) 32768 1 = w" "chunkMask (demo_mem w) 32768 2 = 0"
  "load32 (demo_mem w) 33328 = 1"
    by (simp_all add: demo_mem_def blk_next_def blk_nChunks_def blk_chunkSize_def chunkMask_def
        mask_addr_def mem_simps separate_def z2)
qed

lemma demo_block_ok: "block_ok (demo_mem w) 32768"
  by (simp add: block_ok_def demo_mem_fields)

lemma demo_chunk_addr: "chunk_addr (demo_mem w) 32768 4 = 33328"
  using unat_chunk_addr [OF demo_block_ok, of 4 w] by (simp add: demo_mem_fields word_unat_eq_iff)

lemma demo_used:
  assumes "i < 64" shows "used (demo_mem w) 32768 i \<longleftrightarrow> bit w (i mod 32)"
proof -
  have "i div 32 < 2" using assms by simp
  then have "i div 32 = 0 \<or> i div 32 = 1" by linarith
  then show ?thesis by (auto simp: used_def demo_mem_fields)
qed

subsection \<open>Properties\<close>

text \<open>
  C2. A successful \<open>kmem_alloc\<close> is first fit: the object comes from the first block of the list
  with a run of \<open>n\<close> free bits under one mask word, and from the first such run of that block
  (\<open>accepts\<close>; the address is that of the run's first chunk, for blocks of at most \<open>2^29\<close> mask
  words, where \<open>chunk * 8\<close> does not wrap). The run holds the object and its header. When it is
  shorter than a whole mask and lies inside the block, none of its chunks was in use before,
  exactly its chunks become used, and the header records the length of the run.
\<close>

theorem kmem_alloc_takes_free_run:
  fixes h h' :: "'a kheap_scheme"
  assumes chain: "block_chain (kmem h) (heap_block h) bs"
    and ok: "\<forall>b\<in>set bs. block_ok (kmem h) b \<and> unat (blk_nChunks (kmem h) b) \<le> 2 ^ 29"
    and sz: "unat sz + 8 < 2 ^ 31" and alloc: "kmem_alloc h sz = Inr (p, h')"
  shows "\<exists>pre b post k bt n c. bs = pre @ b # post \<and>
    n = unat (requiredChunks (sz + 8) (blk_chunkSize (kmem h) b)) \<and> c = 32 * unat k + bt \<and>
    (\<forall>b'\<in>set pre. \<forall>k' bt'. \<not> accepts (kmem h) b' (unat (requiredChunks (sz + 8) (blk_chunkSize (kmem h) b'))) k' bt') \<and>
    accepts (kmem h) b n k bt \<and>
    (\<forall>k' bt'. accepts (kmem h) b n k' bt' \<longrightarrow> c \<le> 32 * unat k' + bt') \<and>
    unat sz + 8 \<le> n * unat (blk_chunkSize (kmem h) b) \<and>
    p = chunk_addr (kmem h) b c + 8 \<and>
    (n < 32 \<and> c + n \<le> unat (blk_nChunks (kmem h) b) \<longrightarrow>
      (\<forall>i. c \<le> i \<and> i < c + n \<longrightarrow> \<not> used (kmem h) b i) \<and>
      (\<forall>i < unat (blk_nChunks (kmem h) b).
         used (kmem h') b i \<longleftrightarrow> used (kmem h) b i \<or> c \<le> i \<and> i < c + n) \<and>
      unat (hdr_chunks (kmem h') (chunk_addr (kmem h) b c)) = n)"
proof -
  from ok have okb: "\<forall>b\<in>set bs. block_ok (kmem h) b" by blast
  from kmem_alloc_first_fit [OF chain okb sz alloc]
  obtain pre b post k bt msk where bs: "bs = pre @ b # post"
    and pre: "\<forall>b'\<in>set pre. \<forall>k' bt'. \<not> accepts (kmem h) b' (unat (requiredChunks (sz + 8) (blk_chunkSize (kmem h) b'))) k' bt'"
    and fc: "find_chunk (kmem h) b (requiredChunks (sz + 8) (blk_chunkSize (kmem h) b)) 0 = Some (k, bt, msk)"
    and take: "kmem_take h b (requiredChunks (sz + 8) (blk_chunkSize (kmem h) b)) k bt msk = (p, h')"
    and n32: "unat (requiredChunks (sz + 8) (blk_chunkSize (kmem h) b)) \<le> 32"
    and pos: "0 < requiredChunks (sz + 8) (blk_chunkSize (kmem h) b)"
    and enough: "unat sz + 8 \<le> unat (requiredChunks (sz + 8) (blk_chunkSize (kmem h) b)) * unat (blk_chunkSize (kmem h) b)"
    by blast
  let ?req = "requiredChunks (sz + 8) (blk_chunkSize (kmem h) b)"
  let ?n = "unat ?req" and ?c = "32 * unat k + bt"
  have okb: "block_ok (kmem h) b" and big: "unat (blk_nChunks (kmem h) b) \<le> 2 ^ 29" using ok bs by simp_all
  have k: "k < blk_nChunks (kmem h) b" using find_chunk_Some [OF fc] by simp
  with big have "unat k < 2 ^ 29" by (simp add: word_less_nat_alt)
  then have p: "p = chunk_addr (kmem h) b ?c + 8"
    using kmem_take_addr [OF okb k, of ?req bt msk] take by simp
  note first = find_chunk_accepts [OF fc pos n32]
  have "?n < 32 \<and> ?c + ?n \<le> unat (blk_nChunks (kmem h) b) \<longrightarrow>
      (\<forall>i. ?c \<le> i \<and> i < ?c + ?n \<longrightarrow> \<not> used (kmem h) b i) \<and>
      (\<forall>i < unat (blk_nChunks (kmem h) b).
         used (kmem h') b i \<longleftrightarrow> used (kmem h) b i \<or> ?c \<le> i \<and> i < ?c + ?n) \<and>
      unat (hdr_chunks (kmem h') (chunk_addr (kmem h) b ?c)) = ?n" (is "?in \<longrightarrow> ?post")
  proof
    assume inb: ?in
    then have lt: "?req < 32" by (simp add: word_less_nat_alt)
    from find_chunk_run [OF fc pos lt] have fit: "bt + ?n \<le> 32" and
      msk: "msk = push_bit bt (mask ?n)" and
      free: "\<forall>i. bt \<le> i \<and> i < bt + ?n \<longrightarrow> \<not> bit (chunkMask (kmem h) b k) i" by auto
    have "\<not> used (kmem h) b i" if "?c \<le> i \<and> i < ?c + ?n" for i
      using that free unfolding in_run_iff [OF fit] by (auto simp: used_def)
    then show ?post
      using kmem_take_in_block [OF okb msk fit pos refl _ take] inb by auto
  qed
  with bs pre first enough p show ?thesis by blast
qed

theorem kmem_alloc_takes_free_run_witness:
  "\<exists>(h :: kheap) p h'. kmem_alloc h 100 = Inr (p, h') \<and> used (kmem h) (heap_block h) 0 \<and>
    p = chunk_addr (kmem h) (heap_block h) 1 + 8 \<and> \<not> used (kmem h) (heap_block h) 1 \<and>
    used (kmem h') (heap_block h) 0 \<and> used (kmem h') (heap_block h) 1"
proof -
  obtain h0 :: kheap where "boot_heap h0 0" using boot_heap_0 [of "()"] by blast
  then obtain h :: kheap where b: "boot_heap h 1" using boot_heap_next [of h0 0 100] by auto
  then have chain: "block_chain (kmem h) (heap_block h) [32768]" and hb: "heap_block h = 32768"
      and ok: "\<forall>b\<in>set [32768]. block_ok (kmem h) b \<and> unat (blk_nChunks (kmem h) b) \<le> 2 ^ 29"
      and nc: "blk_nChunks (kmem h) 32768 = 60" and cs: "blk_chunkSize (kmem h) 32768 = 128"
      and m0: "chunkMask (kmem h) 32768 0 = 1"
    by (simp_all add: boot_heap_def)
  have one: "unat (requiredChunks (100 + 8) (blk_chunkSize (kmem h) 32768)) = 1"
    using requiredChunks_one [of 100] by (simp add: cs)
  obtain p h' where al: "kmem_alloc h 100 = Inr (p, h')" using boot_heap_next [OF b, of 100] by auto
  have acc: "accepts (kmem h) 32768 1 0 1" using nc m0 by (simp add: accepts_def bit_1_iff)
  have u0: "used (kmem h) 32768 0" by (simp add: used_def m0)
  have "unat (100 :: u64) + 8 < 2 ^ 31" by simp
  from kmem_alloc_takes_free_run [OF chain ok this al]
  obtain pre b post k bt n c where c: "[32768] = pre @ b # post"
      "n = unat (requiredChunks (100 + 8) (blk_chunkSize (kmem h) b))"
      "\<forall>k' bt'. accepts (kmem h) b n k' bt' \<longrightarrow> c \<le> 32 * unat k' + bt'"
      "p = chunk_addr (kmem h) b c + 8"
      "n < 32 \<and> c + n \<le> unat (blk_nChunks (kmem h) b) \<longrightarrow>
        (\<forall>i. c \<le> i \<and> i < c + n \<longrightarrow> \<not> used (kmem h) b i) \<and>
        (\<forall>i < unat (blk_nChunks (kmem h) b). used (kmem h') b i \<longleftrightarrow> used (kmem h) b i \<or> c \<le> i \<and> i < c + n) \<and>
        unat (hdr_chunks (kmem h') (chunk_addr (kmem h) b c)) = n" by blast
  from c(1) have b: "b = 32768" by (auto simp: Cons_eq_append_conv)
  have n: "n = 1" using c(2) one unfolding b by simp
  have "c \<le> 1" using c(3) acc unfolding b n by fastforce
  then have e: "(\<forall>i. c \<le> i \<and> i < c + 1 \<longrightarrow> \<not> used (kmem h) 32768 i) \<and>
      (\<forall>i < 60. used (kmem h') 32768 i \<longleftrightarrow> used (kmem h) 32768 i \<or> c \<le> i \<and> i < c + 1)"
    using c(5) unfolding b n nc by simp
  with u0 have "c \<noteq> 0" by auto
  with \<open>c \<le> 1\<close> have "c = 1" by simp
  with e c(4) u0 al show ?thesis unfolding b hb [symmetric] by (intro exI [of _ h] exI [of _ p] exI [of _ h']) auto
qed

text \<open>
  \<open>kmem_add_block\<close> turns an aligned region into a well-formed block at the head of the block
  list, with the old list after it, every one of its chunks free, and a chunk count that
  is the number of chunks that fit, rounded down to a multiple of four.
\<close>

theorem kmem_add_block_ready:
  fixes h :: "'a kheap_scheme"
  assumes s: "s \<noteq> 0" "unat s mod 8 = 0" "unat s + 2 * unat sz + 40 < 2 ^ 63"
    and cs: "8 < unat cs" "unat cs < 2 ^ 32" "(unat sz - 24) div unat cs < 2 ^ 32" "24 \<le> unat sz"
  shows "\<exists>h'. kmem_add_block h s sz cs = Inr h' \<and> heap_block h' = s \<and>
    blk_next (kmem h') s = heap_block h \<and> block_ok (kmem h') s \<and>
    unat (blk_chunkSize (kmem h') s) = unat cs \<and>
    unat (blk_nChunks (kmem h') s) = (unat sz - 24) div unat cs div 4 * 4 \<and>
    (\<forall>i < unat (blk_nChunks (kmem h') s). \<not> used (kmem h') s i)"
  using assms by (rule kmem_add_block_ok)

theorem kmem_add_block_ready_witness:
  "\<exists>h'. kmem_add_block \<lparr>kmem = (\<lambda>_. 0), heap_sequence = 0, heap_currentObjects = 0, heap_block = 0\<rparr>
      32768 8192 128 = Inr h' \<and> heap_block h' = 32768 \<and> block_ok (kmem h') 32768 \<and>
    unat (blk_nChunks (kmem h') 32768) = 60"
  using kmem_add_block_ready [of 32768 8192 128
      "\<lparr>kmem = (\<lambda>_. 0), heap_sequence = 0, heap_currentObjects = 0, heap_block = 0\<rparr>"]
  by auto

text \<open>
  C28. \<open>kmem_alloc\<close> succeeds whenever some block of the list has enough free chunks in a row
  under one mask word for the object and its header, fewer than a whole mask of 32.
\<close>

theorem kmem_alloc_succeeds:
  fixes h :: "'a kheap_scheme"
  assumes chain: "block_chain (kmem h) (heap_block h) bs" and ok: "\<forall>b\<in>set bs. block_ok (kmem h) b"
    and sz: "unat sz + 8 < 2 ^ 31" and b: "b \<in> set bs"
    and n: "n = unat (requiredChunks (sz + 8) (blk_chunkSize (kmem h) b))" "n < 32"
    and run: "c mod 32 + n \<le> 32" "c + n \<le> unat (blk_nChunks (kmem h) b)"
      "\<forall>i. c \<le> i \<and> i < c + n \<longrightarrow> \<not> used (kmem h) b i"
  shows "\<exists>r. kmem_alloc h sz = Inr r"
  using assms by (rule kmem_alloc_finds_run)

theorem kmem_alloc_succeeds_witness: "\<exists>(h :: kheap) r. kmem_alloc h 100 = Inr r"
proof -
  obtain h :: kheap where h: "heap_block h = 32768" "block_chain (kmem h) 32768 [32768]"
      "block_ok (kmem h) 32768" "unat (blk_nChunks (kmem h) 32768) = 60"
      "unat (blk_chunkSize (kmem h) 32768) = 128" "\<forall>i<60. \<not> used (kmem h) 32768 i"
    using boot_heap_exists [of "()"] by blast
  have "blk_chunkSize (kmem h) 32768 = 128" using h(5) by (simp add: word_unat_eq_iff)
  then have "unat (requiredChunks 108 (blk_chunkSize (kmem h) 32768)) = 1"
    by (simp add: requiredChunks_def)
  then have "\<exists>r. kmem_alloc h 100 = Inr r"
    using h by (intro kmem_alloc_succeeds [of h "[32768]" 100 32768 1 0]) auto
  then show ?thesis by blast
qed

text \<open>
  C32. Freeing undoes an allocation in the first four chunks of the only block: the object is
  found again, every chunk mark is as before the allocation, and so is the object count.
\<close>

theorem kmem_free_undoes_alloc:
  fixes h h' :: "'a kheap_scheme"
  assumes "block_chain (kmem h) (heap_block h) [heap_block h]" "block_ok (kmem h) (heap_block h)"
    and "unat (blk_nChunks (kmem h) (heap_block h)) * unat (blk_chunkSize (kmem h) (heap_block h)) < 2 ^ 32"
    and "unat sz + 8 < 2 ^ 31" and "kmem_alloc h sz = Inr (p, h')"
    and "r = unat (requiredChunks (sz + 8) (blk_chunkSize (kmem h) (heap_block h)))" "r < 32"
    and "p = chunk_addr (kmem h) (heap_block h) c + 8" "c < 4"
      "c + r \<le> unat (blk_nChunks (kmem h) (heap_block h))"
  shows "\<exists>h''. kmem_free h' p = Inr h'' \<and> heap_currentObjects h'' = heap_currentObjects h \<and>
    (\<forall>i < unat (blk_nChunks (kmem h) (heap_block h)).
       used (kmem h'') (heap_block h) i \<longleftrightarrow> used (kmem h) (heap_block h) i)"
  using assms by (rule kmem_alloc_free_low)

theorem kmem_free_undoes_alloc_witness:
  "\<exists>(h :: kheap) p h' h''. kmem_alloc h 100 = Inr (p, h') \<and> kmem_free h' p = Inr h'' \<and>
    heap_currentObjects h'' = heap_currentObjects h"
proof -
  obtain h h' :: kheap where h: "block_chain (kmem h) (heap_block h) [heap_block h]"
      "block_ok (kmem h) (heap_block h)" "unat (blk_nChunks (kmem h) (heap_block h)) = 60"
      "unat (blk_chunkSize (kmem h) (heap_block h)) = 128"
      "requiredChunks 108 (blk_chunkSize (kmem h) (heap_block h)) = 1"
      "kmem_alloc h 100 = Inr (chunk_addr (kmem h) (heap_block h) 0 + 8, h')"
    using boot_heap_alloc [of 100 "()"] by auto
  then show ?thesis
    using kmem_free_undoes_alloc [OF h(1,2) _ _ h(6) refl _ refl] by fastforce
qed

text \<open>
  Freeing a one-chunk object that starts at chunk 4 or later clears the mark of a
  different chunk: the object itself stays marked, and chunk \<open>32 * (c div 4) + c - 1\<close> becomes
  free although whoever owns it has not freed it.
\<close>

theorem kmem_free_clears_other_chunk:
  fixes h :: "'a kheap_scheme"
  assumes "block_ok (kmem h) (heap_block h)" and "4 \<le> c" "c < 32"
    and "unat (blk_nChunks (kmem h) (heap_block h)) * unat (blk_chunkSize (kmem h) (heap_block h)) < 2 ^ 32"
    and "32 * (c div 4) \<le> unat (blk_chunkSize (kmem h) (heap_block h))"
    and "d = 32 * (c div 4) + (c - 1)" "d < unat (blk_nChunks (kmem h) (heap_block h))"
    and "hdr_chunks (kmem h) (chunk_addr (kmem h) (heap_block h) c) = 1"
  shows "\<exists>h'. kmem_free h (chunk_addr (kmem h) (heap_block h) c + 8) = Inr h' \<and>
    heap_currentObjects h' = heap_currentObjects h - 1 \<and>
    (\<forall>i < unat (blk_nChunks (kmem h) (heap_block h)).
       used (kmem h') (heap_block h) i \<longleftrightarrow> used (kmem h) (heap_block h) i \<and> i \<noteq> d)"
  using assms by (rule kmem_free_high_chunk)

theorem kmem_free_clears_other_chunk_witness:
  "\<exists>h'. kmem_free \<lparr>kmem = demo_mem (- 1), heap_sequence = 64, heap_currentObjects = 64, heap_block = 32768\<rparr> 33336
      = Inr h' \<and> used (kmem h') 32768 4 \<and> \<not> used (kmem h') 32768 35"
  using kmem_free_clears_other_chunk [of
      "\<lparr>kmem = demo_mem (- 1), heap_sequence = 64, heap_currentObjects = 64, heap_block = 32768\<rparr>" 4 35]
  by (auto simp: demo_block_ok demo_mem_fields demo_chunk_addr hdr_chunks_def demo_used)

text \<open>
  C33. A request that needs more than 32 chunks of every block panics with "out of memory",
  however much memory is free.
\<close>

theorem kmem_alloc_large_panics:
  fixes h :: "'a kheap_scheme"
  assumes "block_chain (kmem h) (heap_block h) bs" and "unat sz + 8 < 2 ^ 31"
    and "\<forall>b\<in>set bs. blk_chunkSize (kmem h) b \<noteq> 0 \<and> 32 * unat (blk_chunkSize (kmem h) b) < unat sz + 8"
  shows "kmem_alloc h sz = Inl (Panic ''out of memory'')"
  using assms by (rule kmem_alloc_too_large)

theorem kmem_alloc_large_panics_witness:
  "kmem_alloc \<lparr>kmem = demo_mem 0, heap_sequence = 0, heap_currentObjects = 0, heap_block = 32768\<rparr> 4090
     = Inl (Panic ''out of memory'')"
  by (rule kmem_alloc_large_panics [of _ "[32768]"]) (simp_all add: demo_mem_fields)

text \<open>
  The search runs over \<open>nChunks\<close> mask words, 32 times as many bits as the block has chunks:
  with every chunk of the only block in use, an object of one chunk is still handed out
  as soon as a later mask word has a clear bit, and it lies past the end of the block.
\<close>

theorem kmem_alloc_past_end:
  fixes h :: "'a kheap_scheme"
  assumes "block_chain (kmem h) (heap_block h) [heap_block h]" "block_ok (kmem h) (heap_block h)"
    and "unat (blk_nChunks (kmem h) (heap_block h)) * unat (blk_chunkSize (kmem h) (heap_block h)) < 2 ^ 32"
    and "unat sz + 8 < 2 ^ 31" "unat sz + 8 \<le> unat (blk_chunkSize (kmem h) (heap_block h))"
    and "\<forall>i < unat (blk_nChunks (kmem h) (heap_block h)). used (kmem h) (heap_block h) i"
    and "k < blk_nChunks (kmem h) (heap_block h)" "bt < 32" "\<not> bit (chunkMask (kmem h) (heap_block h) k) bt"
  shows "\<exists>p h'. kmem_alloc h sz = Inr (p, h') \<and>
    unat (kmem_block_start (kmem h) (heap_block h)) +
      unat (blk_nChunks (kmem h) (heap_block h)) * unat (blk_chunkSize (kmem h) (heap_block h)) + 8 \<le> unat p"
  using assms by (rule kmem_alloc_full_block)

theorem kmem_alloc_past_end_witness:
  "\<exists>p h'. kmem_alloc \<lparr>kmem = demo_mem (- 1), heap_sequence = 64, heap_currentObjects = 64, heap_block = 32768\<rparr> 100
      = Inr (p, h') \<and> 32768 + 48 + 64 * 128 + 8 \<le> unat p"
  using kmem_alloc_past_end [of
      "\<lparr>kmem = demo_mem (- 1), heap_sequence = 64, heap_currentObjects = 64, heap_block = 32768\<rparr>" 100 2 0]
    unat_block_start [OF demo_block_ok, of "- 1"]
  by (auto simp: demo_block_ok demo_mem_fields demo_used)

end
