(* ===== verification/KList.thy ===== *)
theory KList
  imports KMemory
begin

text \<open>
  The doubly linked list of src/src/util/list.c. Nodes are a typed store from addresses to
  \<open>struct list_node\<close>, beside the byte memory in which \<open>kmem_alloc\<close> and \<open>kmem_free\<close> keep their
  masks; freeing a node takes it out of the store, so that a later access is a fault.
  \<open>dll\<close> relates a list to the sequence of its node addresses.
\<close>

subsection \<open>State\<close>

record list_node =
  prev :: u64
  nxt :: u64
  payload :: u64

record list_t =
  lhead :: u64
  ltail :: u64

record lheap = kheap +
  nodes :: "u64 \<rightharpoonup> list_node"

definition sizeof_list_node :: u64 where [layout]: "sizeof_list_node = 24"

text \<open>Reading and writing a node through a pointer.\<close>

definition deref :: "(u64 \<rightharpoonup> 'o) \<Rightarrow> u64 \<Rightarrow> 'o res" where
  "deref s a = (if a = 0 then Inl (Fault NullDeref)
     else case s a of None \<Rightarrow> Inl (Fault (BadPointer a)) | Some x \<Rightarrow> Inr x)"

definition node_update :: "('a lheap_scheme) \<Rightarrow> u64 \<Rightarrow> (list_node \<Rightarrow> list_node) \<Rightarrow> 'a lheap_scheme res" where
  "node_update h a f = bind_res (deref (nodes h) a) (\<lambda>n. Inr (h\<lparr>nodes := (nodes h)(a \<mapsto> f n)\<rparr>))"

subsection \<open>Operations\<close>

definition list_create :: list_t where
  "list_create = \<lparr>lhead = 0, ltail = 0\<rparr>"

definition list_append ::
  "'a lheap_scheme \<Rightarrow> list_t \<Rightarrow> u64 \<Rightarrow> (u64 \<times> list_t \<times> 'a lheap_scheme) res" where
  "list_append h l pl =
     bind_res (kmem_alloc h sizeof_list_node) (\<lambda>(node, h).
       if ltail l = 0 then
         Inr (node, l\<lparr>ltail := node, lhead := node\<rparr>,
           h\<lparr>nodes := (nodes h)(node \<mapsto> \<lparr>prev = 0, nxt = 0, payload = pl\<rparr>)\<rparr>)
       else
         let h = h\<lparr>nodes := (nodes h)(node \<mapsto> \<lparr>prev = ltail l, nxt = 0, payload = pl\<rparr>)\<rparr>
         in bind_res (node_update h (ltail l) (\<lambda>n. n\<lparr>nxt := node\<rparr>)) (\<lambda>h.
            bind_res (node_update h node (\<lambda>n. n\<lparr>nxt := 0\<rparr>)) (\<lambda>h.
              Inr (node, l\<lparr>ltail := node\<rparr>, h))))"

definition list_remove_node ::
  "'a lheap_scheme \<Rightarrow> list_t \<Rightarrow> u64 \<Rightarrow> (list_t \<times> 'a lheap_scheme) res" where
  "list_remove_node h l node =
     bind_res (deref (nodes h) node) (\<lambda>n.
       let l = (if lhead l = node then l\<lparr>lhead := nxt n\<rparr> else l);
           l = (if ltail l = node then l\<lparr>ltail := prev n\<rparr> else l)
       in bind_res (if prev n \<noteq> 0 then node_update h (prev n) (\<lambda>p. p\<lparr>nxt := nxt n\<rparr>) else Inr h) (\<lambda>h.
          bind_res (deref (nodes h) node) (\<lambda>n.
          bind_res (if nxt n \<noteq> 0 then node_update h (nxt n) (\<lambda>q. q\<lparr>prev := prev n\<rparr>) else Inr h) (\<lambda>h.
          bind_res (kmem_free h node) (\<lambda>h.
            Inr (l, h\<lparr>nodes := (nodes h)(node := None)\<rparr>))))))"

subsection \<open>The heap operations leave the node store alone\<close>

lemma kmem_alloc_nodes: "kmem_alloc h sz = Inr (p, h') \<Longrightarrow> nodes h' = nodes h"
  using kmem_alloc_frame [of h sz p h'] by auto

lemma kmem_free_nodes: "kmem_free h p = Inr h' \<Longrightarrow> nodes h' = nodes h"
  using kmem_free_frame [of h p h'] by auto

subsection \<open>Node chains\<close>

text \<open>
  \<open>dseg ns p as q\<close>: the nodes at the addresses \<open>as\<close> are linked in this order, the first
  one's prev is \<open>p\<close> and the last one's next is \<open>q\<close>.
\<close>

definition first_or :: "u64 \<Rightarrow> u64 list \<Rightarrow> u64" where
  "first_or q as = (case as of [] \<Rightarrow> q | a # _ \<Rightarrow> a)"

definition last_or :: "u64 \<Rightarrow> u64 list \<Rightarrow> u64" where
  "last_or p as = (if as = [] then p else last as)"

fun dseg :: "(u64 \<rightharpoonup> list_node) \<Rightarrow> u64 \<Rightarrow> u64 list \<Rightarrow> u64 \<Rightarrow> bool" where
  "dseg ns p [] q \<longleftrightarrow> True"
| "dseg ns p (a # as) q \<longleftrightarrow> a \<noteq> 0 \<and>
     (\<exists>n. ns a = Some n \<and> prev n = p \<and> nxt n = first_or q as) \<and> dseg ns a as q"

definition dll :: "(u64 \<rightharpoonup> list_node) \<Rightarrow> list_t \<Rightarrow> u64 list \<Rightarrow> bool" where
  "dll ns l as \<longleftrightarrow> distinct as \<and> dseg ns 0 as 0 \<and> lhead l = first_or 0 as \<and> ltail l = last_or 0 as"

lemma first_or_simps [simp]:
  "first_or q [] = q" "first_or q (a # as) = a" "first_or q (as @ bs) = first_or (first_or q bs) as"
  by (simp_all add: first_or_def split: list.split)

lemma last_or_simps [simp]:
  "last_or p [] = p" "last_or p (a # as) = last_or a as" "last_or p (as @ bs) = last_or (last_or p as) bs"
  by (auto simp: last_or_def)

lemma dseg_append:
  "dseg ns p (as @ bs) q \<longleftrightarrow> dseg ns p as (first_or q bs) \<and> dseg ns (last_or p as) bs q"
  by (induction as arbitrary: p) auto

lemma dseg_frame: "(\<And>a. a \<in> set as \<Longrightarrow> ns' a = ns a) \<Longrightarrow> dseg ns' p as q \<longleftrightarrow> dseg ns p as q"
  by (induction as arbitrary: p) auto

lemma dseg_upd_other [simp]: "a \<notin> set as \<Longrightarrow> dseg (ns(a := v)) p as q \<longleftrightarrow> dseg ns p as q"
  by (rule dseg_frame) auto

lemma dseg_nonnull: "dseg ns p as q \<Longrightarrow> a \<in> set as \<Longrightarrow> a \<noteq> 0 \<and> ns a \<noteq> None"
  by (induction as arbitrary: p) auto

text \<open>Changing the outer link of the last or the first node of a segment.\<close>

lemma dseg_set_last:
  assumes "dseg ns p (as @ [a]) q" "distinct (as @ [a])"
  shows "\<exists>n. ns a = Some n \<and> dseg (ns(a \<mapsto> n\<lparr>nxt := q'\<rparr>)) p (as @ [a]) q'"
  using assms by (auto simp: dseg_append)

lemma dseg_set_first:
  assumes "dseg ns p (a # as) q" "distinct (a # as)"
  shows "\<exists>n. ns a = Some n \<and> dseg (ns(a \<mapsto> n\<lparr>prev := p'\<rparr>)) p' (a # as) q"
  using assms by auto

lemma last_or_0_iff: "dseg ns p as q \<Longrightarrow> last_or 0 as = 0 \<longleftrightarrow> as = []"
  by (cases as rule: rev_cases) (auto simp: dseg_append)

lemma first_or_0_iff: "dseg ns p as q \<Longrightarrow> first_or 0 as = 0 \<longleftrightarrow> as = []"
  by (cases as) auto

lemma list_append_dll:
  assumes dll: "dll (nodes h) l as" and alloc: "kmem_alloc h 24 = Inr (a, h')"
    and fresh: "a \<noteq> 0" "nodes h a = None"
  shows "\<exists>l' h''. list_append h l v = Inr (a, l', h'') \<and> dll (nodes h'') l' (as @ [a]) \<and>
    (\<exists>n. nodes h'' a = Some n \<and> payload n = v) \<and>
    (\<forall>x. x \<noteq> a \<longrightarrow> map_option payload (nodes h'' x) = map_option payload (nodes h x)) \<and>
    (\<forall>x. x \<noteq> a \<and> x \<notin> set as \<longrightarrow> nodes h'' x = nodes h x) \<and>
    heap_block h'' = heap_block h' \<and> kmem h'' = kmem h'"
proof -
  have ns: "nodes h' = nodes h" using kmem_alloc_nodes [OF alloc] .
  have seg: "dseg (nodes h) 0 as 0" and d: "distinct as" and hd: "lhead l = first_or 0 as"
    and tl: "ltail l = last_or 0 as" using dll by (auto simp: dll_def)
  have a: "a \<notin> set as" using fresh dseg_nonnull [OF seg] by blast
  show ?thesis
  proof (cases as rule: rev_cases)
    case Nil
    with hd tl fresh show ?thesis
      by (auto simp: list_append_def alloc layout ns dll_def)
  next
    case (snoc bs b)
    let ?ns = "(nodes h)(a \<mapsto> \<lparr>prev = b, nxt = 0, payload = v\<rparr>)"
    obtain n where n: "nodes h b = Some n" "dseg ((nodes h)(b \<mapsto> n\<lparr>nxt := a\<rparr>)) 0 (bs @ [b]) a"
      using dseg_set_last [of "nodes h" 0 bs b 0] seg d snoc by blast
    have ab: "a \<noteq> b" "b \<noteq> 0" using a snoc dseg_nonnull [OF seg, of b] by auto
    let ?h = "h'\<lparr>nodes := (nodes h)(b \<mapsto> n\<lparr>nxt := a\<rparr>, a \<mapsto> \<lparr>prev = b, nxt = 0, payload = v\<rparr>)\<rparr>"
    have la: "list_append h l v = Inr (a, l\<lparr>ltail := a\<rparr>, ?h)"
      using ab fresh n(1) tl snoc
      by (simp add: list_append_def alloc layout node_update_def deref_def ns fun_upd_twist)
    have "dseg (nodes ?h) 0 (as @ [a]) 0"
      using n(2) a ab fresh snoc by (simp add: dseg_append)
    moreover have "distinct (as @ [a])" using d a by simp
    ultimately have "dll (nodes ?h) (l\<lparr>ltail := a\<rparr>) (as @ [a])"
      using hd snoc by (simp add: dll_def)
    with la n(1) ab snoc show ?thesis by auto
  qed
qed

text \<open>The two pointer writes of a removal, as functions on the store.\<close>

definition set_nxt :: "u64 \<Rightarrow> u64 \<Rightarrow> (u64 \<rightharpoonup> list_node) \<Rightarrow> (u64 \<rightharpoonup> list_node)" where
  "set_nxt p q ns = (if p = 0 then ns else ns(p := map_option (nxt_update (\<lambda>_. q)) (ns p)))"

definition set_prev :: "u64 \<Rightarrow> u64 \<Rightarrow> (u64 \<rightharpoonup> list_node) \<Rightarrow> (u64 \<rightharpoonup> list_node)" where
  "set_prev q p ns = (if q = 0 then ns else ns(q := map_option (prev_update (\<lambda>_. p)) (ns q)))"

lemma set_link_other: "x \<noteq> p \<Longrightarrow> set_nxt p q ns x = ns x" "x \<noteq> p \<Longrightarrow> set_prev p q ns x = ns x"
  by (simp_all add: set_nxt_def set_prev_def)

lemma set_link_payload [simp]:
  "map_option payload (set_nxt p q ns x) = map_option payload (ns x)"
  "map_option payload (set_prev p q ns x) = map_option payload (ns x)"
  by (simp_all add: set_nxt_def set_prev_def option.map_comp comp_def)

lemma dseg_set_nxt:
  assumes "dseg ns 0 as r" "distinct as"
  shows "dseg (set_nxt (last_or 0 as) q ns) 0 as q"
proof (cases as rule: rev_cases)
  case (snoc bs b)
  with assms dseg_set_last [of ns 0 bs b r q] dseg_nonnull [of ns 0 as r b] show ?thesis
    by (auto simp: set_nxt_def)
qed simp

lemma dseg_set_prev:
  assumes "dseg ns r bs 0" "distinct bs"
  shows "dseg (set_prev (first_or 0 bs) p ns) p bs 0"
  using assms by (cases bs) (auto simp: set_prev_def)

lemma last_or_notin: "x \<notin> set as \<Longrightarrow> x \<noteq> 0 \<Longrightarrow> last_or 0 as \<noteq> x"
  by (auto simp: last_or_def)

lemma first_or_notin: "x \<notin> set bs \<Longrightarrow> x \<noteq> 0 \<Longrightarrow> first_or 0 bs \<noteq> x"
  by (cases bs) auto

definition unlink :: "(u64 \<rightharpoonup> list_node) \<Rightarrow> u64 list \<Rightarrow> u64 list \<Rightarrow> (u64 \<rightharpoonup> list_node)" where
  "unlink ns as bs = set_prev (first_or 0 bs) (last_or 0 as) (set_nxt (last_or 0 as) (first_or 0 bs) ns)"

lemma dseg_unlink:
  assumes seg: "dseg ns 0 (as @ a # bs) 0" and d: "distinct (as @ a # bs)"
  shows "dseg ((unlink ns as bs)(a := None)) 0 (as @ bs) 0"
proof -
  let ?p = "last_or 0 as" and ?q = "first_or 0 bs"
  have s: "dseg ns 0 as a" "dseg ns a bs 0" using seg by (auto simp: dseg_append)
  have "dseg (set_nxt ?p ?q ns) 0 as ?q" using s(1) d by (intro dseg_set_nxt) auto
  then have left: "dseg (unlink ns as bs) 0 as ?q"
  proof (rule iffD2 [OF dseg_frame, rotated])
    fix x assume "x \<in> set as"
    then have "x \<noteq> ?q" using d dseg_nonnull [OF s(1)] by (cases bs) auto
    then show "unlink ns as bs x = set_nxt ?p ?q ns x" by (simp add: unlink_def set_link_other)
  qed
  have "dseg (set_nxt ?p ?q ns) a bs 0"
  proof (rule iffD2 [OF dseg_frame, OF _ s(2)])
    fix x assume "x \<in> set bs"
    then have "x \<noteq> ?p" using d dseg_nonnull [OF s(2)] last_or_notin [of x as] by auto
    then show "set_nxt ?p ?q ns x = ns x" by (simp add: set_link_other)
  qed
  then have "dseg (unlink ns as bs) ?p bs 0"
    unfolding unlink_def using d by (intro dseg_set_prev) auto
  with left d show ?thesis by (simp add: dseg_append)
qed

lemma node_update_set_nxt:
  "p = 0 \<or> nodes h p \<noteq> None \<Longrightarrow>
     (if p \<noteq> 0 then node_update h p (\<lambda>n. n\<lparr>nxt := q\<rparr>) else Inr h) = Inr (h\<lparr>nodes := set_nxt p q (nodes h)\<rparr>)"
  by (auto simp: node_update_def deref_def set_nxt_def)

lemma node_update_set_prev:
  "q = 0 \<or> nodes h q \<noteq> None \<Longrightarrow>
     (if q \<noteq> 0 then node_update h q (\<lambda>n. n\<lparr>prev := p\<rparr>) else Inr h) = Inr (h\<lparr>nodes := set_prev q p (nodes h)\<rparr>)"
  by (auto simp: node_update_def deref_def set_prev_def)

lemma list_remove_node_eq:
  fixes h :: "'a lheap_scheme"
  assumes seg: "dseg (nodes h) 0 (as @ a # bs) 0" and d: "distinct (as @ a # bs)"
    and free: "kmem_free h a = Inr h'"
  shows "list_remove_node h l a = Inr
    (l\<lparr>lhead := if lhead l = a then first_or 0 bs else lhead l,
       ltail := if ltail l = a then last_or 0 as else ltail l\<rparr>,
     h\<lparr>nodes := (unlink (nodes h) as bs)(a := None), kmem := kmem h',
       heap_currentObjects := heap_currentObjects h'\<rparr>)"
proof -
  let ?p = "last_or 0 as" and ?q = "first_or 0 bs"
  obtain n where n: "nodes h a = Some n" "a \<noteq> 0" "prev n = ?p" "nxt n = ?q"
    using seg by (auto simp: dseg_append)
  have p: "?p = 0 \<or> nodes h ?p \<noteq> None" using dseg_nonnull [OF seg, of ?p] by (auto simp: last_or_def)
  have q: "?q = 0 \<or> nodes h ?q \<noteq> None" using dseg_nonnull [OF seg, of ?q] by (cases bs) auto
  let ?h1 = "h\<lparr>nodes := set_nxt ?p ?q (nodes h)\<rparr>"
  have ap: "a \<noteq> ?p" using d n(2) last_or_notin [of a as] by auto
  have n1: "nodes ?h1 a = Some n" using ap n(1) by (simp add: set_link_other)
  have q1: "?q = 0 \<or> nodes ?h1 ?q \<noteq> None" using q by (auto simp: set_nxt_def)
  have "same_heap h (?h1\<lparr>nodes := set_prev ?q ?p (nodes ?h1)\<rparr>)" by (simp add: same_heap_def)
  note kf = kmem_free_same [OF free this]
  have d0: "deref (nodes h) a = Inr n" and d1: "deref (nodes ?h1) a = Inr n"
    using n n1 by (simp_all add: deref_def)
  show ?thesis
    unfolding list_remove_node_def d0 bind_res.simps n(3,4) Let_def node_update_set_nxt [OF p] d1
      node_update_set_prev [OF q1] kf
    by (simp add: unlink_def)
qed

lemma list_remove_dll:
  fixes h :: "'a lheap_scheme"
  assumes dll: "dll (nodes h) l (as @ a # bs)" and free: "kmem_free h a = Inr h'"
  shows "\<exists>l' h''. list_remove_node h l a = Inr (l', h'') \<and> dll (nodes h'') l' (as @ bs) \<and>
    nodes h'' a = None \<and> same_heap h' h'' \<and>
    (\<forall>x. x \<noteq> a \<longrightarrow> map_option payload (nodes h'' x) = map_option payload (nodes h x)) \<and>
    (\<forall>x. x \<notin> set (as @ a # bs) \<longrightarrow> nodes h'' x = nodes h x)"
proof -
  have seg: "dseg (nodes h) 0 (as @ a # bs) 0" and d: "distinct (as @ a # bs)"
    and hd: "lhead l = first_or 0 (as @ a # bs)" and tl: "ltail l = last_or 0 (as @ a # bs)"
    using dll by (auto simp: dll_def)
  let ?l = "l\<lparr>lhead := if lhead l = a then first_or 0 bs else lhead l,
       ltail := if ltail l = a then last_or 0 as else ltail l\<rparr>"
  have "lhead ?l = first_or 0 (as @ bs)" using hd d by (cases as) auto
  moreover have "ltail ?l = last_or 0 (as @ bs)" using tl d by (cases bs rule: rev_cases) auto
  ultimately have "dll ((unlink (nodes h) as bs)(a := None)) ?l (as @ bs)"
    using dseg_unlink [OF seg d] d by (auto simp: dll_def)
  moreover have "unlink (nodes h) as bs x = nodes h x" if x: "x \<notin> set (as @ a # bs)" for x
  proof (cases "x = 0")
    case False
    with x show ?thesis
      using last_or_notin [of x as] first_or_notin [of x bs] by (auto simp: unlink_def set_link_other)
  qed (simp add: unlink_def set_nxt_def set_prev_def)
  moreover have "same_heap h' (h\<lparr>nodes := (unlink (nodes h) as bs)(a := None), kmem := kmem h',
       heap_currentObjects := heap_currentObjects h'\<rparr>)"
    using kmem_free_frame [OF free] by (auto simp: same_heap_def)
  ultimately show ?thesis
    unfolding list_remove_node_eq [OF seg d free] by (auto simp: unlink_def)
qed

subsection \<open>Frame\<close>

lemma node_update_frame: "node_update h a f = Inr h' \<Longrightarrow> \<exists>ns. h' = h\<lparr>nodes := ns\<rparr>"
  by (auto simp: node_update_def res_simps)

lemma node_update_if_frame:
  "(if c then node_update h a f else Inr h) = Inr h' \<Longrightarrow> \<exists>ns. h' = h\<lparr>nodes := ns\<rparr>"
  by (cases c) (auto dest: node_update_frame intro: exI [of _ "nodes h"])

lemma list_append_frame:
  fixes h :: "'a lheap_scheme"
  assumes "list_append h l v = Inr (a, l', h')"
  shows "\<exists>m s c ns. h' = h\<lparr>kmem := m, heap_sequence := s, heap_currentObjects := c, nodes := ns\<rparr>"
proof -
  from assms obtain h1 where al: "kmem_alloc h 24 = Inr (a, h1)" and "\<exists>ns. h' = h1\<lparr>nodes := ns\<rparr>"
    by (auto simp: list_append_def res_simps layout Let_def split: if_splits dest!: node_update_frame; blast)
  then obtain ns where "h' = h1\<lparr>nodes := ns\<rparr>" by blast
  moreover from kmem_alloc_frame [OF al] obtain m s c where
    "h1 = h\<lparr>kmem := m, heap_sequence := s, heap_currentObjects := c\<rparr>" by blast
  ultimately have "h' = h\<lparr>kmem := m, heap_sequence := s, heap_currentObjects := c, nodes := ns\<rparr>" by simp
  then show ?thesis by blast
qed

lemma list_remove_frame:
  fixes h :: "'a lheap_scheme"
  assumes "list_remove_node h l a = Inr (l', h')"
  shows "\<exists>m c ns. h' = h\<lparr>kmem := m, heap_currentObjects := c, nodes := ns\<rparr>"
proof -
  from assms obtain n n1 :: list_node and h1 h2 h3 where
    u1: "(if prev n \<noteq> 0 then node_update h (prev n) (\<lambda>p. p\<lparr>nxt := nxt n\<rparr>) else Inr h) = Inr h1"
    and u2: "(if nxt n1 \<noteq> 0 then node_update h1 (nxt n1) (\<lambda>q. q\<lparr>prev := prev n1\<rparr>) else Inr h1) = Inr h2"
    and f: "kmem_free h2 a = Inr h3" and h': "h3\<lparr>nodes := (nodes h3)(a := None)\<rparr> = h'"
    unfolding list_remove_node_def bind_res_Inr_iff Let_def sum.inject prod.inject by blast
  obtain ns1 where 1: "h1 = h\<lparr>nodes := ns1\<rparr>"
    using node_update_if_frame [OF u1] by blast
  obtain ns2 where 2: "h2 = h1\<lparr>nodes := ns2\<rparr>"
    using node_update_if_frame [OF u2] by blast
  obtain m c where 3: "h3 = h2\<lparr>kmem := m, heap_currentObjects := c\<rparr>"
    using kmem_free_frame [OF f] by blast
  have "h' = h\<lparr>kmem := m, heap_currentObjects := c, nodes := (nodes h3)(a := None)\<rparr>"
    unfolding h' [symmetric] unfolding 3 2 1 by simp
  then show ?thesis by blast
qed

subsection \<open>Destroying a list\<close>

text \<open>Every iteration of \<open>list_destroy\<close> takes a node out of the store, so the loop ends.\<close>

lemma node_update_dom:
  "(if c then node_update h a f else Inr h) = Inr h' \<Longrightarrow> dom (nodes h') = dom (nodes h)"
  by (auto simp: node_update_def deref_def res_simps split: if_splits option.splits)

lemma list_remove_node_dom:
  assumes "list_remove_node h l a = Inr (l', h')"
  shows "dom (nodes h') = dom (nodes h) - {a}" "a \<in> dom (nodes h)"
proof -
  from assms show "a \<in> dom (nodes h)"
    by (auto simp: list_remove_node_def deref_def split: if_splits option.splits)
  from assms obtain n n1 :: list_node and h1 h2 h3 where
    u1: "(if prev n \<noteq> 0 then node_update h (prev n) (\<lambda>p. p\<lparr>nxt := nxt n\<rparr>) else Inr h) = Inr h1"
    and u2: "(if nxt n1 \<noteq> 0 then node_update h1 (nxt n1) (\<lambda>q. q\<lparr>prev := prev n1\<rparr>) else Inr h1) = Inr h2"
    and f: "kmem_free h2 a = Inr h3" and h': "h3\<lparr>nodes := (nodes h3)(a := None)\<rparr> = h'"
    unfolding list_remove_node_def bind_res_Inr_iff Let_def sum.inject prod.inject
    by blast
  have "dom (nodes h3) = dom (nodes h)"
    using node_update_dom [OF u1] node_update_dom [OF u2] kmem_free_nodes [OF f] by simp
  then show "dom (nodes h') = dom (nodes h) - {a}" by (simp flip: h')
qed

function list_destroy :: "'a lheap_scheme \<Rightarrow> list_t \<Rightarrow> (list_t \<times> 'a lheap_scheme) res" where
  "list_destroy h l =
     (if lhead l = 0 then Inr (l, h)
      else bind_res (list_remove_node h l (lhead l)) (\<lambda>r. list_destroy (snd r) (fst r)))"
  by pat_completeness auto
termination
proof (relation "measure (\<lambda>(h, l). card (dom (nodes h)))")
  fix h :: "'a lheap_scheme" and l r
  assume "list_remove_node h l (lhead l) = Inr r"
  then have "list_remove_node h l (lhead l) = Inr (fst r, snd r)" by simp
  from list_remove_node_dom [OF this] have "dom (nodes (snd r)) \<subset> dom (nodes h)" by auto
  then show "((snd r, fst r), (h, l)) \<in> measure (\<lambda>(h, l). card (dom (nodes h)))"
    by (simp add: psubset_card_mono)
qed simp

declare list_destroy.simps [simp del]

lemma list_destroy_dll:
  fixes h :: "'a lheap_scheme"
  assumes "dll (nodes h) l as" "heap_ready h" "\<forall>a\<in>set as. heap_owns h a"
  shows "\<exists>l' h'. list_destroy h l = Inr (l', h') \<and> l' = list_create \<and> dom (nodes h') = dom (nodes h) - set as \<and>
    heap_ready h' \<and> heap_currentObjects h' = heap_currentObjects h - of_nat (length as)"
  using assms
proof (induction as arbitrary: h l)
  case Nil
  then have "l = list_create" by (simp add: dll_def list_create_def)
  with Nil show ?case by (simp add: list_destroy.simps list_create_def)
next
  case (Cons a as)
  have hd: "lhead l = a" "a \<noteq> 0" using Cons.prems(1) by (auto simp: dll_def)
  obtain h1 where h1: "kmem_free h a = Inr h1" "heap_ready h1" "heap_owns h1 = heap_owns h"
      "heap_currentObjects h1 = heap_currentObjects h - 1"
    using kmem_free_owned [of h a] Cons.prems by auto
  obtain l2 h2 where r: "list_remove_node h l a = Inr (l2, h2)" "dll (nodes h2) l2 as" "same_heap h1 h2"
    using list_remove_dll [of h l "[]" a as, OF _ h1(1)] Cons.prems(1) by auto
  have "heap_ready h2" "heap_owns h2 = heap_owns h1"
    using r(3) h1(2) heap_ready_cong [of h2 h1] by (simp_all add: same_heap_def)
  with Cons.IH [OF r(2)] h1(3) Cons.prems(3) obtain l3 h3 where
    i: "list_destroy h2 l2 = Inr (l3, h3)" "l3 = list_create" "dom (nodes h3) = dom (nodes h2) - set as"
      "heap_ready h3" "heap_currentObjects h3 = heap_currentObjects h2 - of_nat (length as)"
    by auto
  have "heap_currentObjects h2 = heap_currentObjects h - 1" using r(3) h1(4) by (simp add: same_heap_def)
  with i hd r(1) list_remove_node_dom(1) [OF r(1)] show ?case
    by (subst list_destroy.simps) auto
qed

subsection \<open>Properties\<close>

text \<open>The sequence a list stores: the payloads of its nodes, in order.\<close>

definition list_values :: "(u64 \<rightharpoonup> list_node) \<Rightarrow> u64 list \<Rightarrow> u64 list" where
  "list_values ns as = map (\<lambda>a. payload (the (ns a))) as"

lemma list_values_cong:
  assumes "\<forall>a\<in>set as. ns a \<noteq> None \<and> map_option payload (ns' a) = map_option payload (ns a)"
  shows "list_values ns' as = list_values ns as"
  using assms by (fastforce simp: list_values_def map_option_case split: option.splits)

text \<open>
  C22. \<open>list_append\<close> implements appending to a sequence: the new node is linked last, in both
  directions, and the list then stores the old payloads followed by the new one.
\<close>

theorem list_append_refines:
  fixes h :: "'a lheap_scheme"
  assumes dll: "dll (nodes h) l as" and alloc: "kmem_alloc h 24 = Inr (a, h')"
    and fresh: "a \<noteq> 0" "nodes h a = None"
  shows "\<exists>l' h''. list_append h l v = Inr (a, l', h'') \<and> dll (nodes h'') l' (as @ [a]) \<and>
    list_values (nodes h'') (as @ [a]) = list_values (nodes h) as @ [v]"
proof -
  obtain l' h'' n where r: "list_append h l v = Inr (a, l', h'')" "dll (nodes h'') l' (as @ [a])"
    "nodes h'' a = Some n" "payload n = v"
    "\<forall>x. x \<noteq> a \<longrightarrow> map_option payload (nodes h'' x) = map_option payload (nodes h x)"
    using list_append_dll [OF assms, of v] by blast
  have mem: "\<forall>x\<in>set as. nodes h x \<noteq> None"
    using dll dseg_nonnull [of "nodes h" 0 as 0] by (auto simp: dll_def)
  have "list_values (nodes h'') as = list_values (nodes h) as"
    using mem r(5) fresh by (intro list_values_cong ballI conjI) (blast | metis)+
  then have "list_values (nodes h'') (as @ [a]) = list_values (nodes h) as @ [v]"
    using r(3,4) by (simp add: list_values_def)
  with r(1,2) show ?thesis by blast
qed

theorem list_append_refines_witness:
  "\<exists>(h :: lheap) l' h''. list_append h list_create 7 = Inr (32816, l', h'') \<and>
    dll (nodes h'') l' [32816] \<and> list_values (nodes h'') [32816] = [7]"
proof -
  obtain h h' :: lheap where h: "kmem_alloc h 24 = Inr (32816, h')" "kheap.more h = \<lparr>nodes = Map.empty\<rparr>"
    using boot_alloc [of 24 "\<lparr>nodes = Map.empty\<rparr>"] by auto
  have "nodes h = Map.empty" using h(2) by (cases h) simp
  then have "\<exists>l' h''. list_append h list_create 7 = Inr (32816, l', h'') \<and>
      dll (nodes h'') l' ([] @ [32816]) \<and> list_values (nodes h'') ([] @ [32816]) = list_values (nodes h) [] @ [7]"
    by (intro list_append_refines [OF _ h(1)]) (simp_all add: dll_def list_create_def)
  then show ?thesis by (auto simp: list_values_def)
qed

text \<open>
  C23. \<open>list_remove_node\<close> takes exactly the given node out of the sequence, wherever it is, and
  frees it.
\<close>

theorem list_remove_refines:
  fixes h :: "'a lheap_scheme"
  assumes dll: "dll (nodes h) l (as @ a # bs)" and free: "kmem_free h a = Inr h'"
  shows "\<exists>l' h''. list_remove_node h l a = Inr (l', h'') \<and> dll (nodes h'') l' (as @ bs) \<and>
    nodes h'' a = None \<and> heap_currentObjects h'' = heap_currentObjects h' \<and>
    list_values (nodes h'') (as @ bs) = list_values (nodes h) as @ list_values (nodes h) bs"
proof -
  obtain l' h'' where r: "list_remove_node h l a = Inr (l', h'')" "dll (nodes h'') l' (as @ bs)"
    "nodes h'' a = None" "same_heap h' h''"
    "\<forall>x. x \<noteq> a \<longrightarrow> map_option payload (nodes h'' x) = map_option payload (nodes h x)"
    using list_remove_dll [OF assms] by blast
  have "a \<notin> set (as @ bs)" "\<forall>x\<in>set (as @ bs). nodes h x \<noteq> None"
    using dll dseg_nonnull [of "nodes h" 0 "as @ a # bs" 0] by (auto simp: dll_def)
  then have "list_values (nodes h'') (as @ bs) = list_values (nodes h) (as @ bs)"
    using r(5) by (intro list_values_cong) metis
  with r show ?thesis by (auto simp: list_values_def same_heap_def)
qed

theorem list_remove_refines_witness:
  "\<exists>(h :: lheap) l' h''. list_remove_node h \<lparr>lhead = 32816, ltail = 8\<rparr> 32816 = Inr (l', h'') \<and>
    list_values (nodes h'') [8] = [6]"
proof -
  let ?ns = "[32816 \<mapsto> \<lparr>prev = 0, nxt = 8, payload = 5\<rparr>, 8 \<mapsto> \<lparr>prev = 32816, nxt = 0, payload = 6\<rparr>]"
  obtain h :: lheap where h: "heap_ready h" "heap_owns h 32816" "kheap.more h = \<lparr>nodes = ?ns\<rparr>"
    using boot_alloc [of 24 "\<lparr>nodes = ?ns\<rparr>"] by auto
  obtain h' where f: "kmem_free h 32816 = Inr h'" using kmem_free_owned [OF h(1,2)] by blast
  have ns: "nodes h = ?ns" using h(3) by (cases h) simp
  then have "dll (nodes h) \<lparr>lhead = 32816, ltail = 8\<rparr> ([] @ 32816 # [8])" by (simp add: dll_def)
  from list_remove_refines [OF this f] show ?thesis by (auto simp: list_values_def ns)
qed

text \<open>
  C34. \<open>list_destroy\<close> ends, without a fault or a panic, with the empty list; every node is
  freed, and the object count drops by the length of the list.
\<close>

theorem list_destroy_frees_all:
  fixes h :: "'a lheap_scheme"
  assumes "dll (nodes h) l as" "heap_ready h" "\<forall>a\<in>set as. heap_owns h a"
  shows "\<exists>l' h'. list_destroy h l = Inr (l', h') \<and> l' = list_create \<and> dom (nodes h') = dom (nodes h) - set as \<and>
    heap_ready h' \<and> heap_currentObjects h' = heap_currentObjects h - of_nat (length as)"
  using assms by (rule list_destroy_dll)

theorem list_destroy_frees_all_witness:
  "\<exists>(h :: lheap) l' h'. list_destroy h \<lparr>lhead = 32816, ltail = 32816\<rparr> = Inr (l', h') \<and> nodes h' = Map.empty"
proof -
  let ?ns = "[32816 \<mapsto> \<lparr>prev = 0, nxt = 0, payload = 5\<rparr>]"
  obtain h :: lheap where h: "heap_ready h" "heap_owns h 32816" "kheap.more h = \<lparr>nodes = ?ns\<rparr>"
    using boot_alloc [of 24 "\<lparr>nodes = ?ns\<rparr>"] by auto
  have ns: "nodes h = ?ns" using h(3) by (cases h) simp
  then have "dll (nodes h) \<lparr>lhead = 32816, ltail = 32816\<rparr> [32816]" by (simp add: dll_def)
  from list_destroy_frees_all [OF this h(1)] h(2) show ?thesis by (auto simp: ns)
qed

end
