(* ===== verification/KMap.thy ===== *)
theory KMap
  imports KList
begin

text \<open>
  The hash map of src/src/util/map.c: an array of 191 buckets, each a list of nodes whose
  payloads point to key/value entries. Entries and bucket arrays are typed stores beside
  the nodes. \<open>map_ok\<close> is its invariant, \<open>map_abs\<close> the finite map it stands for.
\<close>

subsection \<open>State\<close>

record bucket_entry =
  ekey :: u32
  evalue :: u64

record map_t =
  data :: u64
  n_buckets :: u32
  hash :: "u32 \<Rightarrow> u32"

record mheap = lheap +
  entries :: "u64 \<rightharpoonup> bucket_entry"
  bucket_arrays :: "u64 \<rightharpoonup> list_t list"

definition map_int_hash :: "u32 \<Rightarrow> u32" where
  "map_int_hash i = i"

subsection \<open>Operations\<close>

text \<open>Fuel of a walk along a list: more than the number of distinct nodes a list can have.\<close>

definition walk_fuel :: nat where
  "walk_fuel = 2 ^ 64"

lemma walk_fuel_pos: "0 < walk_fuel"
  unfolding walk_fuel_def by (rule zero_less_power) simp

text \<open>\<open>LIST_FOREACH\<close> up to the first entry with the key: the node and its payload.\<close>

function find_entry :: "nat \<Rightarrow> 'a mheap_scheme \<Rightarrow> u64 \<Rightarrow> u32 \<Rightarrow> (u64 \<times> u64) option res" where
  "find_entry fuel h node key =
     (if node = 0 then Inr None
      else if fuel = 0 then Inl (Fault Diverges)
      else bind_res (deref (nodes h) node) (\<lambda>n.
           bind_res (deref (entries h) (payload n)) (\<lambda>e.
             if ekey e = key then Inr (Some (node, payload n))
             else find_entry (fuel - 1) h (nxt n) key)))"
  by pat_completeness auto
termination
  by (relation "measure (\<lambda>(fuel, h, node, key). fuel)") auto

declare find_entry.simps [simp del]

definition bucket_add ::
  "'a mheap_scheme \<Rightarrow> list_t \<Rightarrow> u32 \<Rightarrow> u64 \<Rightarrow> (list_t \<times> 'a mheap_scheme) res" where
  "bucket_add h l key v =
     bind_res (find_entry walk_fuel h (lhead l) key) (\<lambda>r. case r of
       Some (node, e) \<Rightarrow>
         bind_res (deref (entries h) e) (\<lambda>en.
           Inr (l, h\<lparr>entries := (entries h)(e \<mapsto> en\<lparr>evalue := v\<rparr>)\<rparr>))
     | None \<Rightarrow>
         bind_res (kmem_alloc h 16) (\<lambda>(item, h).
         bind_res (list_append (h\<lparr>entries := (entries h)(item \<mapsto> \<lparr>ekey = key, evalue = v\<rparr>)\<rparr>) l item)
           (\<lambda>(node, l, h). Inr (l, h))))"

definition map_init :: "'a mheap_scheme \<Rightarrow> map_t \<Rightarrow> (u32 \<Rightarrow> u32) \<Rightarrow> (map_t \<times> 'a mheap_scheme) res" where
  "map_init h m hs =
     (let m = m\<lparr>hash := hs, n_buckets := 191\<rparr>
      in bind_res (kmem_alloc h (16 * ucast (n_buckets m))) (\<lambda>(p, h).
           Inr (m\<lparr>data := p\<rparr>, h\<lparr>bucket_arrays := (bucket_arrays h)(p \<mapsto> replicate (unat (n_buckets m)) list_create)\<rparr>)))"

text \<open>The bucket of a key: its index and the list stored there.\<close>

definition bucket_index :: "map_t \<Rightarrow> u32 \<Rightarrow> nat" where
  "bucket_index m key = unat (hash m key mod n_buckets m)"

definition map_bucket :: "'a mheap_scheme \<Rightarrow> map_t \<Rightarrow> u32 \<Rightarrow> (list_t list \<times> list_t) res" where
  "map_bucket h m key =
     (if n_buckets m = 0 then Inl (Fault DivByZero)
      else bind_res (deref (bucket_arrays h) (data m)) (\<lambda>arr.
        if bucket_index m key < length arr then Inr (arr, arr ! bucket_index m key)
        else Inl (Fault OutOfBounds)))"

definition set_bucket :: "'a mheap_scheme \<Rightarrow> map_t \<Rightarrow> u32 \<Rightarrow> list_t list \<Rightarrow> list_t \<Rightarrow> 'a mheap_scheme" where
  "set_bucket h m key arr l =
     h\<lparr>bucket_arrays := (bucket_arrays h)(data m \<mapsto> arr[bucket_index m key := l])\<rparr>"

definition map_add_kv :: "'a mheap_scheme \<Rightarrow> map_t \<Rightarrow> u32 \<Rightarrow> u64 \<Rightarrow> 'a mheap_scheme res" where
  "map_add_kv h m key v =
     bind_res (map_bucket h m key) (\<lambda>(arr, l).
     bind_res (bucket_add h l key v) (\<lambda>(l, h).
       Inr (set_bucket h m key arr l)))"

definition map_lookup :: "'a mheap_scheme \<Rightarrow> map_t \<Rightarrow> u32 \<Rightarrow> u64 res" where
  "map_lookup h m key =
     bind_res (map_bucket h m key) (\<lambda>(arr, l).
     bind_res (find_entry walk_fuel h (lhead l) key) (\<lambda>r. case r of
       None \<Rightarrow> Inr 0
     | Some (node, e) \<Rightarrow> bind_res (deref (entries h) e) (\<lambda>en. Inr (evalue en))))"

definition map_remove :: "'a mheap_scheme \<Rightarrow> map_t \<Rightarrow> u32 \<Rightarrow> 'a mheap_scheme res" where
  "map_remove h m key =
     bind_res (map_bucket h m key) (\<lambda>(arr, l).
     bind_res (find_entry walk_fuel h (lhead l) key) (\<lambda>r. case r of
       None \<Rightarrow> Inr h
     | Some (node, e) \<Rightarrow>
         bind_res (list_remove_node h l node) (\<lambda>(l, h). Inr (set_bucket h m key arr l))))"

text \<open>\<open>map_destroy\<close>: for every bucket, free the payloads along the list, then destroy the list.\<close>

function free_payloads :: "nat \<Rightarrow> 'a mheap_scheme \<Rightarrow> u64 \<Rightarrow> 'a mheap_scheme res" where
  "free_payloads fuel h node =
     (if node = 0 then Inr h
      else if fuel = 0 then Inl (Fault Diverges)
      else bind_res (deref (nodes h) node) (\<lambda>n.
           bind_res (kmem_free h (payload n)) (\<lambda>h'.
             free_payloads (fuel - 1) (h'\<lparr>entries := (entries h')(payload n := None)\<rparr>) (nxt n))))"
  by pat_completeness auto
termination
  by (relation "measure (\<lambda>(fuel, h, node). fuel)") auto

declare free_payloads.simps [simp del]

fun destroy_buckets :: "'a mheap_scheme \<Rightarrow> list_t list \<Rightarrow> (list_t list \<times> 'a mheap_scheme) res" where
  "destroy_buckets h [] = Inr ([], h)"
| "destroy_buckets h (l # ls) =
     bind_res (free_payloads walk_fuel h (lhead l)) (\<lambda>h.
     bind_res (list_destroy h l) (\<lambda>(l, h).
     bind_res (destroy_buckets h ls) (\<lambda>(ls, h). Inr (l # ls, h))))"

definition map_destroy :: "'a mheap_scheme \<Rightarrow> map_t \<Rightarrow> 'a mheap_scheme res" where
  "map_destroy h m =
     (if n_buckets m = 0 then Inr h
      else bind_res (deref (bucket_arrays h) (data m)) (\<lambda>arr.
        if length arr < unat (n_buckets m) then Inl (Fault OutOfBounds)
        else bind_res (destroy_buckets h (take (unat (n_buckets m)) arr)) (\<lambda>(ls, h).
          Inr (h\<lparr>bucket_arrays := (bucket_arrays h)(data m \<mapsto> ls @ drop (unat (n_buckets m)) arr)\<rparr>))))"

subsection \<open>One bucket\<close>

definition entry_of :: "'a mheap_scheme \<Rightarrow> u64 \<Rightarrow> bucket_entry" where
  "entry_of h a = the (entries h (payload (the (nodes h a))))"

definition bucket_alist :: "'a mheap_scheme \<Rightarrow> u64 list \<Rightarrow> (u32 \<times> u64) list" where
  "bucket_alist h as = map (\<lambda>a. (ekey (entry_of h a), evalue (entry_of h a))) as"

definition bucket_ok :: "'a mheap_scheme \<Rightarrow> list_t \<Rightarrow> u64 list \<Rightarrow> bool" where
  "bucket_ok h l as \<longleftrightarrow> dll (nodes h) l as \<and>
     (\<forall>p\<in>set (list_values (nodes h) as). p \<noteq> 0 \<and> entries h p \<noteq> None) \<and>
     distinct (list_values (nodes h) as) \<and> distinct (map fst (bucket_alist h as))"

lemma bucket_alist_simps [simp]:
  "bucket_alist h [] = []"
  "bucket_alist h (a # as) = (ekey (entry_of h a), evalue (entry_of h a)) # bucket_alist h as"
  "bucket_alist h (as @ bs) = bucket_alist h as @ bucket_alist h bs"
  by (simp_all add: bucket_alist_def)

lemma list_values_simps [simp]:
  "list_values ns [] = []" "list_values ns (a # as) = payload (the (ns a)) # list_values ns as"
  "list_values ns (as @ bs) = list_values ns as @ list_values ns bs"
  by (simp_all add: list_values_def)

lemma dseg_length: "dseg ns p as q \<Longrightarrow> distinct as \<Longrightarrow> length as < 2 ^ 64"
proof -
  assume "dseg ns p as q" "distinct as"
  then have "insert 0 (set as) \<subseteq> UNIV" "0 \<notin> set as" using dseg_nonnull by blast+
  then have "Suc (card (set as)) \<le> card (UNIV :: u64 set)"
    using card_mono [of UNIV "insert 0 (set as)"] by simp
  then show ?thesis using \<open>distinct as\<close> by (simp add: card_word distinct_card)
qed

lemma find_entry_dseg:
  assumes "dseg (nodes h) p as 0" "\<forall>p\<in>set (list_values (nodes h) as). p \<noteq> 0 \<and> entries h p \<noteq> None"
    and "length as \<le> fuel"
  shows "find_entry fuel h (first_or 0 as) key =
    Inr (map_option (\<lambda>a. (a, payload (the (nodes h a)))) (find (\<lambda>a. ekey (entry_of h a) = key) as))"
  using assms
proof (induction as arbitrary: p fuel)
  case Nil
  then show ?case by (simp add: find_entry.simps)
next
  case (Cons a as)
  obtain n where n: "nodes h a = Some n" "nxt n = first_or 0 as" "a \<noteq> 0" using Cons.prems(1) by auto
  obtain e where e: "entries h (payload n) = Some e" "payload n \<noteq> 0" using Cons.prems(2) n by auto
  have f: "fuel \<noteq> 0" "length as \<le> fuel - 1" using Cons.prems(3) by auto
  have "find_entry (fuel - 1) h (first_or 0 as) key =
    Inr (map_option (\<lambda>a. (a, payload (the (nodes h a)))) (find (\<lambda>a. ekey (entry_of h a) = key) as))"
    by (rule Cons.IH [OF _ _ f(2)]) (use Cons.prems in auto)
  then show ?case
    using n e f(1) by (subst find_entry.simps) (simp add: deref_def entry_of_def)
qed

lemma payload_eq:
  "ns a \<noteq> None \<Longrightarrow> map_option payload (ns' a) = map_option payload (ns a) \<Longrightarrow>
     payload (the (ns' a)) = payload (the (ns a))"
  by (auto simp: map_option_case split: option.splits)

lemma bucket_alist_cong:
  assumes "\<forall>a\<in>set as. nodes h a \<noteq> None \<and> map_option payload (nodes h' a) = map_option payload (nodes h a)"
    and "\<forall>p\<in>set (list_values (nodes h) as). entries h' p = entries h p"
  shows "bucket_alist h' as = bucket_alist h as" "list_values (nodes h') as = list_values (nodes h) as"
proof -
  have p: "payload (the (nodes h' a)) = payload (the (nodes h a))" if "a \<in> set as" for a
    using that assms(1) payload_eq [of "nodes h" a "nodes h'"] by blast
  then show "list_values (nodes h') as = list_values (nodes h) as" by (simp add: list_values_def)
  have "entry_of h' a = entry_of h a" if "a \<in> set as" for a
    unfolding entry_of_def p [OF that] using that assms(2) by (simp add: list_values_def)
  then show "bucket_alist h' as = bucket_alist h as" by (simp add: bucket_alist_def)
qed

lemma dll_cong: "(\<And>a. a \<in> set as \<Longrightarrow> ns' a = ns a) \<Longrightarrow> dll ns' l as \<longleftrightarrow> dll ns l as"
  unfolding dll_def using dseg_frame [of as ns' ns 0 0] by blast

lemma dll_nodes: "dll ns l as \<Longrightarrow> a \<in> set as \<Longrightarrow> a \<noteq> 0 \<and> ns a \<noteq> None"
  by (auto simp: dll_def dest: dseg_nonnull)

lemma bucket_frame:
  assumes ok: "bucket_ok h l as" and "\<forall>a\<in>set as. nodes h' a = nodes h a"
    and e: "\<forall>p\<in>set (list_values (nodes h) as). entries h' p = entries h p"
  shows "bucket_ok h' l as" "bucket_alist h' as = bucket_alist h as"
    "list_values (nodes h') as = list_values (nodes h) as"
proof -
  have "\<forall>a\<in>set as. nodes h a \<noteq> None \<and> map_option payload (nodes h' a) = map_option payload (nodes h a)"
    using assms(1,2) dll_nodes [of "nodes h" l as] by (simp add: bucket_ok_def)
  from bucket_alist_cong [OF this e]
  show c: "bucket_alist h' as = bucket_alist h as" "list_values (nodes h') as = list_values (nodes h) as" .
  have "dll (nodes h') l as" using assms dll_cong [of as "nodes h'" "nodes h" l] by (simp add: bucket_ok_def)
  then show "bucket_ok h' l as" using ok e c by (simp add: bucket_ok_def)
qed

lemma bucket_find:
  assumes "bucket_ok h l as"
  shows "find_entry walk_fuel h (lhead l) key =
    Inr (map_option (\<lambda>a. (a, payload (the (nodes h a)))) (find (\<lambda>a. ekey (entry_of h a) = key) as))"
proof -
  have "dseg (nodes h) 0 as 0" "distinct as" "lhead l = first_or 0 as"
    using assms by (auto simp: bucket_ok_def dll_def)
  with find_entry_dseg [of h 0 as walk_fuel key] dseg_length [of "nodes h" 0 as 0] assms show ?thesis
    by (simp add: bucket_ok_def walk_fuel_def)
qed

lemma map_of_bucket_None:
  "map_of (bucket_alist h as) key = None \<longleftrightarrow> find (\<lambda>a. ekey (entry_of h a) = key) as = None"
  by (induction as) auto

lemma map_of_bucket_find:
  "find (\<lambda>a. ekey (entry_of h a) = key) as = Some a \<Longrightarrow>
     map_of (bucket_alist h as) key = Some (evalue (entry_of h a))"
  by (induction as) (auto split: if_splits)

lemma find_split:
  assumes "find P as = Some a"
  obtains ys zs where "as = ys @ a # zs" "P a"
proof -
  from assms obtain i where "i < length as" "P (as ! i)" "a = as ! i" by (auto simp: find_Some_iff)
  then show ?thesis using that [of "take i as" "drop (Suc i) as"] by (simp add: id_take_nth_drop [symmetric])
qed

text \<open>Overwriting the value of a key that is present.\<close>

lemma bucket_set_value:
  fixes v :: u64
  assumes ok: "bucket_ok h l (ys @ a # zs)" and key: "ekey (entry_of h a) = key"
  defines "p \<equiv> payload (the (nodes h a))"
  defines "h' \<equiv> h\<lparr>entries := (entries h)(p \<mapsto> (entry_of h a)\<lparr>evalue := v\<rparr>)\<rparr>"
  shows "bucket_ok h' l (ys @ a # zs)"
    "bucket_alist h' (ys @ a # zs) = bucket_alist h ys @ (key, v) # bucket_alist h zs"
proof -
  have d: "p \<notin> set (list_values (nodes h) ys)" "p \<notin> set (list_values (nodes h) zs)"
    using ok by (auto simp: bucket_ok_def p_def)
  have n: "\<forall>a\<in>set (ys @ zs). nodes h a \<noteq> None" using ok dll_nodes by (fastforce simp: bucket_ok_def)
  have "bucket_alist h' ys = bucket_alist h ys" "bucket_alist h' zs = bucket_alist h zs"
    using n d by (auto intro!: bucket_alist_cong simp: h'_def)
  then show al: "bucket_alist h' (ys @ a # zs) = bucket_alist h ys @ (key, v) # bucket_alist h zs"
    using key by (simp add: h'_def entry_of_def p_def)
  have "map fst (bucket_alist h' (ys @ a # zs)) = map fst (bucket_alist h (ys @ a # zs))"
    unfolding al using key by simp
  then show "bucket_ok h' l (ys @ a # zs)"
    using ok by (auto simp: bucket_ok_def h'_def p_def)
qed

lemma map_of_set_value:
  assumes "distinct (map fst (xs @ (k, w) # ys))"
  shows "map_of (xs @ (k, v) # ys) = (map_of (xs @ (k, w) # ys))(k \<mapsto> v)"
proof -
  have "map_of xs k = None" using assms by (simp add: map_of_eq_None_iff)
  then show ?thesis by (simp add: map_of_append fun_eq_iff Map.map_add_def split: option.split)
qed

lemma map_of_remove:
  assumes "distinct (map fst (xs @ (k, w) # ys))"
  shows "map_of (xs @ ys) = (map_of (xs @ (k, w) # ys))(k := None)"
proof -
  have "map_of xs k = None" "map_of ys k = None" using assms by (simp_all add: map_of_eq_None_iff)
  then show ?thesis by (simp add: map_of_append fun_eq_iff Map.map_add_def split: option.split)
qed

text \<open>Adding an entry for a new key at the end.\<close>

lemma bucket_append:
  fixes h :: "'a mheap_scheme"
  assumes ok: "bucket_ok h l as" and new: "map_of (bucket_alist h as) key = None"
    and a1: "kmem_alloc h 16 = Inr (item, h1)" and item: "item \<noteq> 0" "entries h item = None"
    and a2: "kmem_alloc (h1\<lparr>entries := (entries h)(item \<mapsto> \<lparr>ekey = key, evalue = v\<rparr>)\<rparr>) 24 = Inr (node, h2)"
    and node: "node \<noteq> 0" "nodes h node = None"
  shows "\<exists>l' h'. bucket_add h l key v = Inr (l', h') \<and> bucket_ok h' l' (as @ [node]) \<and>
    bucket_alist h' (as @ [node]) = bucket_alist h as @ [(key, v)] \<and>
    payload (the (nodes h' node)) = item \<and>
    (\<forall>x. x \<noteq> node \<and> x \<notin> set as \<longrightarrow> nodes h' x = nodes h x) \<and>
    (\<forall>x. x \<noteq> item \<longrightarrow> entries h' x = entries h x) \<and> bucket_arrays h' = bucket_arrays h \<and>
    list_values (nodes h') as = list_values (nodes h) as"
proof -
  let ?h1 = "h1\<lparr>entries := (entries h)(item \<mapsto> \<lparr>ekey = key, evalue = v\<rparr>)\<rparr>"
  have f1: "nodes h1 = nodes h" "entries h1 = entries h" "bucket_arrays h1 = bucket_arrays h"
    using kmem_alloc_frame [OF a1] by auto
  have dll: "dll (nodes ?h1) l as" using ok f1 by (simp add: bucket_ok_def)
  obtain l' h' n where r: "list_append ?h1 l item = Inr (node, l', h')" "dll (nodes h') l' (as @ [node])"
    "nodes h' node = Some n" "payload n = item"
    "\<forall>x. x \<noteq> node \<longrightarrow> map_option payload (nodes h' x) = map_option payload (nodes h x)"
    "\<forall>x. x \<noteq> node \<and> x \<notin> set as \<longrightarrow> nodes h' x = nodes h x"
    using list_append_dll [OF dll a2 node(1), of item] node(2) f1 by auto
  have f2: "entries h' = (entries h)(item \<mapsto> \<lparr>ekey = key, evalue = v\<rparr>)" "bucket_arrays h' = bucket_arrays h"
    using list_append_frame [OF r(1)] f1(3) by auto
  have "find (\<lambda>a. ekey (entry_of h a) = key) as = None" using new by (simp add: map_of_bucket_None)
  then have add: "bucket_add h l key v = Inr (l', h')"
    using a1 r(1) f1 by (simp add: bucket_add_def bucket_find [OF ok])
  have n: "\<forall>a\<in>set as. nodes h a \<noteq> None" using ok dll_nodes by (fastforce simp: bucket_ok_def)
  moreover have ent: "\<forall>p\<in>set (list_values (nodes h) as). p \<noteq> 0 \<and> entries h p \<noteq> None"
    using ok by (simp add: bucket_ok_def)
  ultimately have c: "bucket_alist h' as = bucket_alist h as" "list_values (nodes h') as = list_values (nodes h) as"
    using r(5) node(2) item(2) f2(1) by (intro bucket_alist_cong; metis fun_upd_other)+
  have al: "bucket_alist h' (as @ [node]) = bucket_alist h as @ [(key, v)]"
    using r(3,4) f2(1) c(1) by (simp add: entry_of_def)
  have "item \<notin> set (list_values (nodes h) as)" using ent item(2) by blast
  moreover have "key \<notin> fst ` set (bucket_alist h as)" using new by (simp add: map_of_eq_None_iff)
  ultimately have "bucket_ok h' l' (as @ [node])"
    using ok r(2,3,4) c al f2(1) item(1) by (auto simp: bucket_ok_def)
  with add al r(3,4,6) f2 c(2) show ?thesis by auto
qed

text \<open>Removing the entry of a key.\<close>

lemma bucket_remove:
  fixes h :: "'a mheap_scheme"
  assumes ok: "bucket_ok h l (ys @ a # zs)" and free: "kmem_free h a = Inr h1"
  shows "\<exists>l' h'. list_remove_node h l a = Inr (l', h') \<and> bucket_ok h' l' (ys @ zs) \<and>
    bucket_alist h' (ys @ zs) = bucket_alist h ys @ bucket_alist h zs \<and>
    (\<forall>x. x \<notin> set (ys @ a # zs) \<longrightarrow> nodes h' x = nodes h x) \<and>
    list_values (nodes h') (ys @ zs) = list_values (nodes h) (ys @ zs) \<and>
    entries h' = entries h \<and> bucket_arrays h' = bucket_arrays h"
proof -
  have dll: "dll (nodes h) l (ys @ a # zs)" using ok by (simp add: bucket_ok_def)
  obtain l' h' where r: "list_remove_node h l a = Inr (l', h')" "dll (nodes h') l' (ys @ zs)"
    "\<forall>x. x \<noteq> a \<longrightarrow> map_option payload (nodes h' x) = map_option payload (nodes h x)"
    "\<forall>x. x \<notin> set (ys @ a # zs) \<longrightarrow> nodes h' x = nodes h x"
    using list_remove_dll [OF dll free] by blast
  have f: "entries h' = entries h" "bucket_arrays h' = bucket_arrays h"
    using list_remove_frame [OF r(1)] by auto
  have "\<forall>x\<in>set (ys @ zs). nodes h x \<noteq> None" using dll dll_nodes [OF dll] by auto
  moreover have "a \<notin> set (ys @ zs)" using dll by (auto simp: dll_def)
  ultimately have c: "bucket_alist h' (ys @ zs) = bucket_alist h (ys @ zs)"
    "list_values (nodes h') (ys @ zs) = list_values (nodes h) (ys @ zs)"
    using r(3) f(1) by (intro bucket_alist_cong; metis)+
  have "bucket_ok h' l' (ys @ zs)"
    using ok r(2) c f(1) unfolding bucket_ok_def by (auto simp del: bucket_alist_simps(3) list_values_simps(3) simp: bucket_alist_simps list_values_simps)
  with r(1,4) c f show ?thesis by simp
qed

subsection \<open>The whole map\<close>

text \<open>
  \<open>map_ok h m bss\<close>: bucket \<open>i\<close> holds the nodes \<open>bss ! i\<close>, every key is in the bucket it hashes
  to, and no node and no entry belongs to two buckets.
\<close>

definition map_ok :: "'a mheap_scheme \<Rightarrow> map_t \<Rightarrow> u64 list list \<Rightarrow> bool" where
  "map_ok h m bss \<longleftrightarrow> n_buckets m \<noteq> 0 \<and> data m \<noteq> 0 \<and>
     (\<exists>arr. bucket_arrays h (data m) = Some arr \<and> length arr = unat (n_buckets m) \<and>
        length bss = length arr \<and> (\<forall>i < length arr. bucket_ok h (arr ! i) (bss ! i))) \<and>
     (\<forall>i < length bss. \<forall>kv \<in> set (bucket_alist h (bss ! i)). bucket_index m (fst kv) = i) \<and>
     (\<forall>i < length bss. \<forall>j < length bss. i \<noteq> j \<longrightarrow> set (bss ! i) \<inter> set (bss ! j) = {} \<and>
        set (list_values (nodes h) (bss ! i)) \<inter> set (list_values (nodes h) (bss ! j)) = {})"

definition map_abs :: "'a mheap_scheme \<Rightarrow> map_t \<Rightarrow> u64 list list \<Rightarrow> u32 \<rightharpoonup> u64" where
  "map_abs h m bss key = map_of (bucket_alist h (bss ! bucket_index m key)) key"

lemma bucket_index_less: "n_buckets m \<noteq> 0 \<Longrightarrow> bucket_index m key < unat (n_buckets m)"
  by (simp add: bucket_index_def unat_mod_distrib unat_gt_0)

lemma map_bucket_ok:
  assumes "map_ok h m bss"
  shows "\<exists>arr. map_bucket h m key = Inr (arr, arr ! bucket_index m key) \<and>
    bucket_arrays h (data m) = Some arr \<and> length arr = unat (n_buckets m) \<and> length bss = length arr \<and>
    bucket_index m key < length arr \<and> (\<forall>i < length arr. bucket_ok h (arr ! i) (bss ! i))"
proof -
  from assms obtain arr where "bucket_arrays h (data m) = Some arr" "length arr = unat (n_buckets m)"
    "length bss = length arr" "\<forall>i < length arr. bucket_ok h (arr ! i) (bss ! i)"
    "n_buckets m \<noteq> 0" "data m \<noteq> 0" by (auto simp: map_ok_def)
  then show ?thesis using bucket_index_less [of m key] by (simp add: map_bucket_def deref_def)
qed

text \<open>Replacing one bucket of a map by a well-formed one.\<close>

lemma map_ok_update:
  fixes h h' :: "'a mheap_scheme"
  assumes ok: "map_ok h m bss" and arr: "bucket_arrays h' (data m) = Some arr" "bucket_arrays h (data m) = Some arr"
    and b: "bucket_ok h' l' as'" "i = bucket_index m key"
    and keys: "\<forall>kv \<in> set (bucket_alist h' as'). bucket_index m (fst kv) = i"
    and frame: "\<And>j a. j < length bss \<Longrightarrow> j \<noteq> i \<Longrightarrow> a \<in> set (bss ! j) \<Longrightarrow> nodes h' a = nodes h a"
      "\<And>j p. j < length bss \<Longrightarrow> j \<noteq> i \<Longrightarrow> p \<in> set (list_values (nodes h) (bss ! j)) \<Longrightarrow> entries h' p = entries h p"
    and disj: "\<And>j. j < length bss \<Longrightarrow> j \<noteq> i \<Longrightarrow> set as' \<inter> set (bss ! j) = {} \<and>
        set (list_values (nodes h') as') \<inter> set (list_values (nodes h) (bss ! j)) = {}"
  defines "g \<equiv> set_bucket h' m key arr l'"
  shows "map_ok g m (bss[i := as'])"
    "map_abs g m (bss[i := as']) k = (if bucket_index m k = i then map_of (bucket_alist h' as') k else map_abs h m bss k)"
proof -
  have m: "n_buckets m \<noteq> 0" "data m \<noteq> 0" "length arr = unat (n_buckets m)" "length bss = length arr"
    "\<And>j. j < length arr \<Longrightarrow> bucket_ok h (arr ! j) (bss ! j)"
    "\<And>j. j < length bss \<Longrightarrow> \<forall>kv \<in> set (bucket_alist h (bss ! j)). bucket_index m (fst kv) = j"
    using ok arr(2) by (auto simp: map_ok_def)
  have i: "i < length bss" using m bucket_index_less [of m key] b(2) by simp
  have g: "nodes g = nodes h'" "entries g = entries h'" "bucket_arrays g (data m) = Some (arr[i := l'])"
    by (simp_all add: g_def set_bucket_def b(2))
  have al: "bucket_alist g as = bucket_alist h' as" "bucket_ok g l as = bucket_ok h' l as" for l as
    by (simp_all add: bucket_ok_def bucket_alist_def entry_of_def g)
  have other: "bucket_ok h' (arr ! j) (bss ! j)" "bucket_alist h' (bss ! j) = bucket_alist h (bss ! j)"
    "list_values (nodes h') (bss ! j) = list_values (nodes h) (bss ! j)" if j: "j < length bss" "j \<noteq> i" for j
    using bucket_frame [of h "arr ! j" "bss ! j" h'] m(4) m(5) [of j] frame j by auto
  have nth: "bss[i := as'] ! j = (if j = i then as' else bss ! j)" "arr[i := l'] ! j = (if j = i then l' else arr ! j)"
    if "j < length bss" for j using that i m(4) by auto
  have "\<forall>j < length (arr[i := l']). bucket_ok g (arr[i := l'] ! j) (bss[i := as'] ! j)"
    using b(1) other(1) m(4) nth by (simp add: al)
  moreover have "\<forall>j < length (bss[i := as']). \<forall>kv \<in> set (bucket_alist g (bss[i := as'] ! j)). bucket_index m (fst kv) = j"
    using keys m(6) other(2) nth by (simp add: al)
  moreover have "set (bss[i := as'] ! j) \<inter> set (bss[i := as'] ! k) = {} \<and>
      set (list_values (nodes g) (bss[i := as'] ! j)) \<inter> set (list_values (nodes g) (bss[i := as'] ! k)) = {}"
    if jk: "j < length bss" "k < length bss" "j \<noteq> k" for j k
  proof (cases "j = i \<or> k = i")
    case True
    then show ?thesis using jk disj other(3) nth g(1) by (auto simp: Int_commute)
  next
    case False
    have "set (bss ! j) \<inter> set (bss ! k) = {} \<and>
        set (list_values (nodes h) (bss ! j)) \<inter> set (list_values (nodes h) (bss ! k)) = {}"
      using ok jk by (auto simp: map_ok_def)
    with False show ?thesis using jk other(3) nth g(1) by simp
  qed
  ultimately show "map_ok g m (bss[i := as'])"
    unfolding map_ok_def using m(1-4) g(3) by auto
  have "bucket_index m k < length bss" using m bucket_index_less [of m k] by simp
  then show "map_abs g m (bss[i := as']) k = (if bucket_index m k = i then map_of (bucket_alist h' as') k else map_abs h m bss k)"
    using nth other(2) by (simp add: map_abs_def al)
qed

text \<open>The two objects a new key needs: an entry and a list node, at addresses not in use.\<close>

definition map_room :: "'a mheap_scheme \<Rightarrow> bool" where
  "map_room h \<longleftrightarrow> (\<exists>item h1 node h2. kmem_alloc h 16 = Inr (item, h1) \<and> item \<noteq> 0 \<and> entries h item = None \<and>
     kmem_alloc h1 24 = Inr (node, h2) \<and> node \<noteq> 0 \<and> nodes h node = None)"

definition map_rep :: "'a mheap_scheme \<Rightarrow> map_t \<Rightarrow> (u32 \<rightharpoonup> u64) \<Rightarrow> bool" where
  "map_rep h m f \<longleftrightarrow> (\<exists>bss. map_ok h m bss \<and> map_abs h m bss = f)"

lemma map_ok_keys:
  "map_ok h m bss \<Longrightarrow> i < length bss \<Longrightarrow> k \<in> fst ` set (bucket_alist h (bss ! i)) \<Longrightarrow> bucket_index m k = i"
  unfolding map_ok_def by blast

lemma map_ok_disjoint:
  "map_ok h m bss \<Longrightarrow> i < length bss \<Longrightarrow> j < length bss \<Longrightarrow> j \<noteq> i \<Longrightarrow> set (bss ! i) \<inter> set (bss ! j) = {} \<and>
     set (list_values (nodes h) (bss ! i)) \<inter> set (list_values (nodes h) (bss ! j)) = {}"
  unfolding map_ok_def by blast

lemma map_lookup_rep:
  assumes "map_rep h m f"
  shows "map_lookup h m key = Inr (case f key of None \<Rightarrow> 0 | Some v \<Rightarrow> v)"
proof -
  from assms obtain bss where ok: "map_ok h m bss" and f: "f = map_abs h m bss" by (auto simp: map_rep_def)
  let ?i = "bucket_index m key"
  from map_bucket_ok [OF ok, of key] obtain arr where
    b: "map_bucket h m key = Inr (arr, arr ! ?i)" "bucket_ok h (arr ! ?i) (bss ! ?i)" by auto
  show ?thesis
  proof (cases "find (\<lambda>a. ekey (entry_of h a) = key) (bss ! ?i)")
    case None
    then have "f key = None" using map_of_bucket_None [of h "bss ! ?i" key] by (simp add: f map_abs_def)
    then show ?thesis using b(1) None by (simp add: map_lookup_def bucket_find [OF b(2)])
  next
    case (Some a)
    then obtain ys zs where sp: "bss ! ?i = ys @ a # zs" by (rule find_split)
    have "f key = Some (evalue (entry_of h a))" using map_of_bucket_find [OF Some] by (simp add: f map_abs_def)
    moreover have "deref (entries h) (payload (the (nodes h a))) = Inr (entry_of h a)"
      using b(2) sp by (auto simp: bucket_ok_def deref_def entry_of_def)
    ultimately show ?thesis using b(1) Some by (simp add: map_lookup_def bucket_find [OF b(2)])
  qed
qed

lemma map_add_existing:
  fixes h :: "'a mheap_scheme"
  assumes ok: "map_ok h m bss" and some: "map_abs h m bss key = Some w"
  shows "\<exists>h'. map_add_kv h m key v = Inr h' \<and> map_ok h' m bss \<and> map_abs h' m bss = (map_abs h m bss)(key \<mapsto> v)"
proof -
  let ?i = "bucket_index m key" and ?f = "find (\<lambda>a. ekey (entry_of h a) = key)"
  from map_bucket_ok [OF ok, of key] obtain arr where
    b: "map_bucket h m key = Inr (arr, arr ! ?i)" "bucket_ok h (arr ! ?i) (bss ! ?i)"
      "bucket_arrays h (data m) = Some arr" "?i < length bss" by auto
  from some obtain a where fa: "?f (bss ! ?i) = Some a"
    using map_of_bucket_None [of h "bss ! ?i" key] by (auto simp: map_abs_def)
  then obtain ys zs where sp: "bss ! ?i = ys @ a # zs" and key: "ekey (entry_of h a) = key" by (rule find_split)
  let ?p = "payload (the (nodes h a))"
  let ?h = "h\<lparr>entries := (entries h)(?p \<mapsto> (entry_of h a)\<lparr>evalue := v\<rparr>)\<rparr>"
  have "deref (entries h) ?p = Inr (entry_of h a)" using b(2) sp by (auto simp: bucket_ok_def deref_def entry_of_def)
  then have add: "map_add_kv h m key v = Inr (set_bucket ?h m key arr (arr ! ?i))"
    using b(1) fa by (simp add: map_add_kv_def bucket_add_def bucket_find [OF b(2)])
  note set = bucket_set_value [OF b(2) [unfolded sp] key, where v = v, folded sp]
  have fst: "map fst (bucket_alist ?h (bss ! ?i)) = map fst (bucket_alist h (bss ! ?i))"
    unfolding set(2) using key by (simp add: sp)
  have "fst ` set (bucket_alist ?h (bss ! ?i)) = fst ` set (bucket_alist h (bss ! ?i))"
    using arg_cong [OF fst, of set] by simp
  then have keys: "\<forall>kv \<in> set (bucket_alist ?h (bss ! ?i)). bucket_index m (fst kv) = ?i"
    using map_ok_keys [OF ok b(4)] by blast
  have p: "?p \<in> set (list_values (nodes h) (bss ! ?i))" by (simp add: sp)
  note disj = map_ok_disjoint [OF ok b(4)]
  have arr': "bucket_arrays ?h (data m) = Some arr" using b(3) by simp
  have fr: "entries ?h q = entries h q"
    if "j < length bss" "j \<noteq> ?i" "q \<in> set (list_values (nodes h) (bss ! j))" for j q
    using disj [OF that(1,2)] that(3) p by auto
  have dj: "set (bss ! ?i) \<inter> set (bss ! j) = {} \<and>
      set (list_values (nodes ?h) (bss ! ?i)) \<inter> set (list_values (nodes h) (bss ! j)) = {}"
    if "j < length bss" "j \<noteq> ?i" for j using disj [OF that] by simp
  have up: "map_ok (set_bucket ?h m key arr (arr ! ?i)) m (bss[?i := (bss ! ?i)])"
    "map_abs (set_bucket ?h m key arr (arr ! ?i)) m (bss[?i := (bss ! ?i)]) k =
      (if bucket_index m k = ?i then map_of (bucket_alist ?h (bss ! ?i)) k else map_abs h m bss k)" for k
    by (rule map_ok_update [OF ok arr' b(3) set(1) refl keys], simp, erule (2) fr, erule (1) dj)+
  have "map_of (bucket_alist ?h (bss ! ?i)) = (map_of (bucket_alist h (bss ! ?i)))(key \<mapsto> v)"
    unfolding set(2) unfolding sp bucket_alist_simps key
    by (rule map_of_set_value) (use b(2) in \<open>simp add: bucket_ok_def sp key\<close>)
  then have "map_abs (set_bucket ?h m key arr (arr ! ?i)) m bss = (map_abs h m bss)(key \<mapsto> v)"
    using up(2) by (auto simp: fun_eq_iff map_abs_def)
  with add up(1) show ?thesis by auto
qed

lemma map_add_new:
  fixes h :: "'a mheap_scheme"
  assumes ok: "map_ok h m bss" and none: "map_abs h m bss key = None" and room: "map_room h"
  shows "\<exists>h' bss'. map_add_kv h m key v = Inr h' \<and> map_ok h' m bss' \<and> map_abs h' m bss' = (map_abs h m bss)(key \<mapsto> v)"
proof -
  let ?i = "bucket_index m key"
  from map_bucket_ok [OF ok, of key] obtain arr where
    b: "map_bucket h m key = Inr (arr, arr ! ?i)" "bucket_ok h (arr ! ?i) (bss ! ?i)"
      "bucket_arrays h (data m) = Some arr" "?i < length bss" "length bss = length arr"
      "\<forall>j < length arr. bucket_ok h (arr ! j) (bss ! j)" by auto
  from room obtain item h1 node h2 where al: "kmem_alloc h 16 = Inr (item, h1)" "item \<noteq> 0" "entries h item = None"
    "kmem_alloc h1 24 = Inr (node, h2)" "node \<noteq> 0" "nodes h node = None" by (auto simp: map_room_def)
  obtain h3 where al2: "kmem_alloc (h1\<lparr>entries := (entries h)(item \<mapsto> \<lparr>ekey = key, evalue = v\<rparr>)\<rparr>) 24 = Inr (node, h3)"
    using kmem_alloc_same [OF al(4), of "h1\<lparr>entries := (entries h)(item \<mapsto> \<lparr>ekey = key, evalue = v\<rparr>)\<rparr>"]
    by (auto simp: same_heap_def)
  have new: "map_of (bucket_alist h (bss ! ?i)) key = None" using none by (simp add: map_abs_def)
  let ?as = "bss ! ?i @ [node]"
  obtain l' h' where r: "bucket_add h (arr ! ?i) key v = Inr (l', h')" "bucket_ok h' l' ?as"
    "bucket_alist h' ?as = bucket_alist h (bss ! ?i) @ [(key, v)]" "payload (the (nodes h' node)) = item"
    "\<forall>x. x \<noteq> node \<and> x \<notin> set (bss ! ?i) \<longrightarrow> nodes h' x = nodes h x"
    "\<forall>x. x \<noteq> item \<longrightarrow> entries h' x = entries h x" "bucket_arrays h' = bucket_arrays h"
    "list_values (nodes h') (bss ! ?i) = list_values (nodes h) (bss ! ?i)"
    using bucket_append [OF b(2) new al(1,2,3) al2 al(5,6)] by blast
  note disj = map_ok_disjoint [OF ok b(4)]
  have fresh: "node \<notin> set (bss ! j)" "item \<notin> set (list_values (nodes h) (bss ! j))" if "j < length bss" for j
  proof -
    have "bucket_ok h (arr ! j) (bss ! j)" using that b(5,6) by simp
    then show "node \<notin> set (bss ! j)" "item \<notin> set (list_values (nodes h) (bss ! j))"
      using al(3,6) dll_nodes [of "nodes h" "arr ! j" "bss ! j" node] by (auto simp: bucket_ok_def)
  qed
  have keys: "\<forall>kv \<in> set (bucket_alist h' ?as). bucket_index m (fst kv) = ?i"
  proof
    fix kv assume "kv \<in> set (bucket_alist h' ?as)"
    then have "kv \<in> set (bucket_alist h (bss ! ?i)) \<or> kv = (key, v)" unfolding r(3) by auto
    then show "bucket_index m (fst kv) = ?i"
      using map_ok_keys [OF ok b(4), of "fst kv"] by (elim disjE) (blast, simp)
  qed
  have arr': "bucket_arrays h' (data m) = Some arr" using b(3) r(7) by simp
  have fn: "nodes h' a = nodes h a" if "j < length bss" "j \<noteq> ?i" "a \<in> set (bss ! j)" for j a
  proof -
    have "a \<noteq> node" using fresh(1) [OF that(1)] that(3) by auto
    moreover have "a \<notin> set (bss ! ?i)" using disj [OF that(1,2)] that(3) by blast
    ultimately show ?thesis using r(5) by simp
  qed
  have fr: "entries h' q = entries h q"
    if "j < length bss" "j \<noteq> ?i" "q \<in> set (list_values (nodes h) (bss ! j))" for j q
  proof -
    have "q \<noteq> item" using fresh(2) [OF that(1)] that(3) by auto
    then show ?thesis using r(6) by simp
  qed
  have dj: "set ?as \<inter> set (bss ! j) = {} \<and>
      set (list_values (nodes h') ?as) \<inter> set (list_values (nodes h) (bss ! j)) = {}"
    if "j < length bss" "j \<noteq> ?i" for j using disj [OF that] fresh [OF that(1)] r(4,8) by simp
  have up: "map_ok (set_bucket h' m key arr l') m (bss[?i := ?as])"
    "map_abs (set_bucket h' m key arr l') m (bss[?i := ?as]) k =
      (if bucket_index m k = ?i then map_of (bucket_alist h' (?as)) k else map_abs h m bss k)" for k
    by (rule map_ok_update [OF ok arr' b(3) r(2) refl keys], erule (2) fn, erule (2) fr, erule (1) dj)+
  have "map_of (bucket_alist h' ?as) = (map_of (bucket_alist h (bss ! ?i)))(key \<mapsto> v)"
    unfolding r(3) using new by (simp add: map_of_append fun_eq_iff Map.map_add_def split: option.split)
  then have "map_abs (set_bucket h' m key arr l') m (bss[?i := ?as]) = (map_abs h m bss)(key \<mapsto> v)"
    using up(2) by (auto simp: fun_eq_iff map_abs_def)
  moreover have "map_add_kv h m key v = Inr (set_bucket h' m key arr l')"
    using b(1) r(1) by (simp add: map_add_kv_def)
  ultimately show ?thesis using up(1) by blast
qed

lemma map_remove_present:
  fixes h :: "'a mheap_scheme"
  assumes ok: "map_ok h m bss" and some: "map_abs h m bss key = Some w"
    and free: "\<And>a. a \<in> set (concat bss) \<Longrightarrow> \<exists>h'. kmem_free h a = Inr h'"
  shows "\<exists>h' bss'. map_remove h m key = Inr h' \<and> map_ok h' m bss' \<and> map_abs h' m bss' = (map_abs h m bss)(key := None)"
proof -
  let ?i = "bucket_index m key" and ?f = "find (\<lambda>a. ekey (entry_of h a) = key)"
  from map_bucket_ok [OF ok, of key] obtain arr where
    b: "map_bucket h m key = Inr (arr, arr ! ?i)" "bucket_ok h (arr ! ?i) (bss ! ?i)"
      "bucket_arrays h (data m) = Some arr" "?i < length bss" by auto
  from some obtain a where fa: "?f (bss ! ?i) = Some a"
    using map_of_bucket_None [of h "bss ! ?i" key] by (auto simp: map_abs_def)
  then obtain ys zs where sp: "bss ! ?i = ys @ a # zs" and key: "ekey (entry_of h a) = key" by (rule find_split)
  have "bss ! ?i \<in> set bss" using b(4) by simp
  then have "a \<in> set (concat bss)" using sp by force
  with free obtain h1 where h1: "kmem_free h a = Inr h1" by blast
  obtain l' h' where r: "list_remove_node h (arr ! ?i) a = Inr (l', h')" "bucket_ok h' l' (ys @ zs)"
    "bucket_alist h' (ys @ zs) = bucket_alist h ys @ bucket_alist h zs"
    "\<forall>x. x \<notin> set (ys @ a # zs) \<longrightarrow> nodes h' x = nodes h x"
    "list_values (nodes h') (ys @ zs) = list_values (nodes h) (ys @ zs)"
    "entries h' = entries h" "bucket_arrays h' = bucket_arrays h"
    using bucket_remove [OF b(2) [unfolded sp] h1] by blast
  note disj = map_ok_disjoint [OF ok b(4), unfolded sp]
  have keys: "\<forall>kv \<in> set (bucket_alist h' (ys @ zs)). bucket_index m (fst kv) = ?i"
  proof
    fix kv assume "kv \<in> set (bucket_alist h' (ys @ zs))"
    then have "kv \<in> set (bucket_alist h (bss ! ?i))" unfolding r(3) sp by auto
    then show "bucket_index m (fst kv) = ?i" using map_ok_keys [OF ok b(4), of "fst kv"] by blast
  qed
  have arr': "bucket_arrays h' (data m) = Some arr" using b(3) r(7) by simp
  have fn: "nodes h' x = nodes h x" if "j < length bss" "j \<noteq> ?i" "x \<in> set (bss ! j)" for j x
    using r(4) disj [OF that(1,2)] that(3) by blast
  have fr: "entries h' q = entries h q" for q using r(6) by simp
  have dj: "set (ys @ zs) \<inter> set (bss ! j) = {} \<and>
      set (list_values (nodes h') (ys @ zs)) \<inter> set (list_values (nodes h) (bss ! j)) = {}"
    if "j < length bss" "j \<noteq> ?i" for j using disj [OF that] unfolding r(5) by auto
  have up: "map_ok (set_bucket h' m key arr l') m (bss[?i := ys @ zs])"
    "map_abs (set_bucket h' m key arr l') m (bss[?i := ys @ zs]) k =
      (if bucket_index m k = ?i then map_of (bucket_alist h' (ys @ zs)) k else map_abs h m bss k)" for k
    by (rule map_ok_update [OF ok arr' b(3) r(2) refl keys], erule (2) fn, rule fr, erule (1) dj)+
  have "map_of (bucket_alist h' (ys @ zs)) = (map_of (bucket_alist h (bss ! ?i)))(key := None)"
    unfolding r(3) unfolding sp bucket_alist_simps key
    by (rule map_of_remove) (use b(2) in \<open>simp add: bucket_ok_def sp key\<close>)
  then have "map_abs (set_bucket h' m key arr l') m (bss[?i := ys @ zs]) = (map_abs h m bss)(key := None)"
    using up(2) by (auto simp: fun_eq_iff map_abs_def)
  moreover have "map_remove h m key = Inr (set_bucket h' m key arr l')"
    using b(1) r(1) fa by (simp add: map_remove_def bucket_find [OF b(2)])
  ultimately show ?thesis using up(1) by blast
qed

lemma map_remove_absent:
  assumes ok: "map_ok h m bss" and none: "map_abs h m bss key = None"
  shows "map_remove h m key = Inr h"
proof -
  let ?i = "bucket_index m key"
  from map_bucket_ok [OF ok, of key] obtain arr where
    b: "map_bucket h m key = Inr (arr, arr ! ?i)" "bucket_ok h (arr ! ?i) (bss ! ?i)" by auto
  with none map_of_bucket_None [of h "bss ! ?i" key] show ?thesis
    by (simp add: map_remove_def bucket_find [OF b(2)] map_abs_def)
qed

text \<open>A new map is empty.\<close>

lemma map_init_rep:
  fixes h :: "'a mheap_scheme"
  assumes "kmem_alloc h 3056 = Inr (p, h')" "p \<noteq> 0"
  shows "\<exists>m' h''. map_init h m hs = Inr (m', h'') \<and> hash m' = hs \<and> map_rep h'' m' Map.empty"
proof -
  let ?m = "m\<lparr>hash := hs, n_buckets := 191, data := p\<rparr>"
  let ?h = "h'\<lparr>bucket_arrays := (bucket_arrays h')(p \<mapsto> replicate 191 list_create)\<rparr>"
  have init: "map_init h m hs = Inr (?m, ?h)" using assms(1) by (simp add: map_init_def)
  have e: "bucket_ok ?h list_create []" by (simp add: bucket_ok_def dll_def list_create_def)
  then have ok: "map_ok ?h ?m (replicate 191 [])" using assms(2) by (simp add: map_ok_def)
  have "map_abs ?h ?m (replicate 191 []) = Map.empty"
    using bucket_index_less [of ?m] by (simp add: map_abs_def fun_eq_iff)
  then have "map_rep ?h ?m Map.empty" using ok by (auto simp: map_rep_def)
  then show ?thesis unfolding init by auto
qed

subsection \<open>The map interface\<close>

text \<open>
  What a client of the map relies on: \<open>rep s f\<close> says that the state \<open>s\<close> stands for the finite
  map \<open>f\<close>; \<open>room\<close> and \<open>removable\<close> are what the heap must provide for an addition or a removal.
\<close>

locale finite_map =
  fixes rep :: "'s \<Rightarrow> ('k \<rightharpoonup> 'v) \<Rightarrow> bool" and room :: "'s \<Rightarrow> bool" and removable :: "'s \<Rightarrow> bool"
    and lookup :: "'s \<Rightarrow> 'k \<Rightarrow> 'v res" and add :: "'s \<Rightarrow> 'k \<Rightarrow> 'v \<Rightarrow> 's res"
    and remove :: "'s \<Rightarrow> 'k \<Rightarrow> 's res" and nil :: 'v
  assumes lookup_rep: "rep s f \<Longrightarrow> lookup s k = Inr (case f k of None \<Rightarrow> nil | Some v \<Rightarrow> v)"
    and add_rep: "rep s f \<Longrightarrow> room s \<Longrightarrow> \<exists>s'. add s k v = Inr s' \<and> rep s' (f(k \<mapsto> v))"
    and remove_rep: "rep s f \<Longrightarrow> removable s \<Longrightarrow> \<exists>s'. remove s k = Inr s' \<and> rep s' (f(k := None))"
begin

lemma lookup_add:
  assumes "rep s f" "room s"
  shows "\<exists>s'. add s k v = Inr s' \<and> rep s' (f(k \<mapsto> v)) \<and> lookup s' k = Inr v \<and>
    (\<forall>k'. k' \<noteq> k \<longrightarrow> lookup s' k' = lookup s k')"
proof -
  obtain s' where s': "add s k v = Inr s'" "rep s' (f(k \<mapsto> v))" using add_rep [OF assms] by blast
  then show ?thesis using lookup_rep [OF s'(2)] lookup_rep [OF assms(1)] by simp
qed

lemma lookup_remove:
  assumes "rep s f" "removable s"
  shows "\<exists>s'. remove s k = Inr s' \<and> rep s' (f(k := None)) \<and> lookup s' k = Inr nil \<and>
    (\<forall>k'. k' \<noteq> k \<longrightarrow> lookup s' k' = lookup s k')"
proof -
  obtain s' where s': "remove s k = Inr s'" "rep s' (f(k := None))" using remove_rep [OF assms] by blast
  then show ?thesis using lookup_rep [OF s'(2)] lookup_rep [OF assms(1)] by simp
qed

end

definition map_removable :: "'a mheap_scheme \<Rightarrow> bool" where
  "map_removable h \<longleftrightarrow> heap_ready h \<and> (\<forall>a\<in>dom (nodes h). heap_owns h a)"

lemma map_remove_rep:
  fixes h :: "'a mheap_scheme"
  assumes "map_rep h m f" "map_removable h"
  shows "\<exists>h'. map_remove h m key = Inr h' \<and> map_rep h' m (f(key := None))"
proof -
  from assms(1) obtain bss where ok: "map_ok h m bss" and f: "f = map_abs h m bss" by (auto simp: map_rep_def)
  show ?thesis
  proof (cases "map_abs h m bss key")
    case None
    then have "f(key := None) = f" by (simp add: f fun_upd_idem)
    then show ?thesis using map_remove_absent [OF ok None] assms(1) by simp
  next
    case (Some w)
    have "\<exists>h'. kmem_free h a = Inr h'" if a: "a \<in> set (concat bss)" for a
    proof -
      obtain as where as: "as \<in> set bss" "a \<in> set as" using a by auto
      then obtain i where i: "i < length bss" "a \<in> set (bss ! i)" by (auto simp: in_set_conv_nth [of as])
      obtain arr where "length bss = length arr" "\<forall>i < length arr. bucket_ok h (arr ! i) (bss ! i)"
        using ok by (auto simp: map_ok_def)
      then have "nodes h a \<noteq> None" using i dll_nodes [of "nodes h" "arr ! i" "bss ! i" a] by (simp add: bucket_ok_def)
      then have "heap_owns h a" using assms(2) by (auto simp: map_removable_def)
      then show ?thesis using kmem_free_owned [of h a] assms(2) by (auto simp: map_removable_def)
    qed
    from map_remove_present [OF ok Some this] show ?thesis unfolding f map_rep_def by blast
  qed
qed

lemma map_add_rep:
  fixes h :: "'a mheap_scheme"
  assumes "map_rep h m f" "map_room h"
  shows "\<exists>h'. map_add_kv h m key v = Inr h' \<and> map_rep h' m (f(key \<mapsto> v))"
proof -
  from assms(1) obtain bss where ok: "map_ok h m bss" and f: "f = map_abs h m bss" by (auto simp: map_rep_def)
  show ?thesis
    using map_add_existing [OF ok, of key _ v] map_add_new [OF ok _ assms(2), of key v]
    unfolding f map_rep_def by (cases "map_abs h m bss key") blast+
qed

interpretation kernel_map: finite_map "\<lambda>s. map_rep (fst s) (snd s)" "\<lambda>s. map_room (fst s)"
  "\<lambda>s. map_removable (fst s)" "\<lambda>s. map_lookup (fst s) (snd s)"
  "\<lambda>s k v. bind_res (map_add_kv (fst s) (snd s) k v) (\<lambda>h. Inr (h, snd s))"
  "\<lambda>s k. bind_res (map_remove (fst s) (snd s) k) (\<lambda>h. Inr (h, snd s))" 0
proof
  fix s :: "'a mheap_scheme \<times> map_t" and f k v
  assume r: "map_rep (fst s) (snd s) f"
  show "map_lookup (fst s) (snd s) k = Inr (case f k of None \<Rightarrow> 0 | Some v \<Rightarrow> v)"
    by (rule map_lookup_rep [OF r])
  show "\<exists>s'. bind_res (map_add_kv (fst s) (snd s) k v) (\<lambda>h. Inr (h, snd s)) = Inr s' \<and>
    map_rep (fst s') (snd s') (f(k \<mapsto> v))" if "map_room (fst s)"
    using map_add_rep [OF r that, of k v] by auto
  show "\<exists>s'. bind_res (map_remove (fst s) (snd s) k) (\<lambda>h. Inr (h, snd s)) = Inr s' \<and>
    map_rep (fst s') (snd s') (f(k := None))" if "map_removable (fst s)"
    using map_remove_rep [OF r that, of k] by auto
qed

subsection \<open>Properties\<close>

text \<open>
  C8. After \<open>map_add\<close> the map returns the new value for the key, whether the key was present or
  not, and for every other key what it returned before.
\<close>

theorem map_add_then_lookup:
  fixes h :: "'a mheap_scheme"
  assumes "map_rep h m f" "map_room h"
  shows "\<exists>h'. map_add_kv h m key v = Inr h' \<and> map_rep h' m (f(key \<mapsto> v)) \<and> map_lookup h' m key = Inr v \<and>
    (\<forall>k. k \<noteq> key \<longrightarrow> map_lookup h' m k = map_lookup h m k)"
  using kernel_map.lookup_add [of "(h, m)" f key v] assms by (auto simp: res_simps)

text \<open>A map with no entries in an otherwise empty store, on the boot heap.\<close>

definition empty_map :: map_t where
  "empty_map = \<lparr>data = 8, n_buckets = 191, hash = map_int_hash\<rparr>"

lemma empty_map_rep:
  assumes "bucket_arrays h = [8 \<mapsto> replicate 191 list_create]"
  shows "map_rep h empty_map Map.empty"
proof -
  have "bucket_ok h list_create []" by (simp add: bucket_ok_def dll_def list_create_def)
  then have "map_ok h empty_map (replicate 191 [])" using assms by (simp add: map_ok_def empty_map_def)
  moreover have "map_abs h empty_map (replicate 191 []) = Map.empty"
    using bucket_index_less [of empty_map] by (simp add: map_abs_def fun_eq_iff empty_map_def)
  ultimately show ?thesis by (auto simp: map_rep_def)
qed

theorem map_add_then_lookup_witness:
  "\<exists>(h :: mheap) h'. map_add_kv h empty_map 5 9 = Inr h' \<and> map_lookup h' empty_map 5 = Inr 9"
proof -
  obtain h h1 h2 :: mheap where h: "kmem_alloc h 16 = Inr (32816, h1)" "kmem_alloc h1 24 = Inr (32944, h2)"
    "kheap.more h = \<lparr>nodes = Map.empty, entries = Map.empty, bucket_arrays = [8 \<mapsto> replicate 191 list_create]\<rparr>"
    using boot_alloc_two [of 16 24 "\<lparr>nodes = Map.empty, entries = Map.empty, bucket_arrays = [8 \<mapsto> replicate 191 list_create]\<rparr>"]
    by auto
  have f: "nodes h = Map.empty" "entries h = Map.empty" "bucket_arrays h = [8 \<mapsto> replicate 191 list_create]"
    using h(3) by (cases h; simp)+
  have "map_room h" using h(1,2) f by (auto simp: map_room_def)
  from map_add_then_lookup [OF empty_map_rep [OF f(3)] this] show ?thesis by blast
qed

text \<open>
  C21. After \<open>map_remove\<close> the key is absent (\<open>map_lookup\<close> returns NULL), and every other key is
  as before.
\<close>

theorem map_remove_then_lookup:
  fixes h :: "'a mheap_scheme"
  assumes "map_rep h m f" "map_removable h"
  shows "\<exists>h'. map_remove h m key = Inr h' \<and> map_rep h' m (f(key := None)) \<and> map_lookup h' m key = Inr 0 \<and>
    (\<forall>k. k \<noteq> key \<longrightarrow> map_lookup h' m k = map_lookup h m k)"
  using kernel_map.lookup_remove [of "(h, m)" f key] assms by (auto simp: res_simps)

theorem map_remove_then_lookup_witness:
  "\<exists>(h :: mheap) h'. map_remove h empty_map 5 = Inr h' \<and> map_lookup h' empty_map 5 = Inr 0"
proof -
  obtain h :: mheap where h: "heap_ready h"
    "kheap.more h = \<lparr>nodes = Map.empty, entries = Map.empty, bucket_arrays = [8 \<mapsto> replicate 191 list_create]\<rparr>"
    using boot_alloc_two [of 16 24 "\<lparr>nodes = Map.empty, entries = Map.empty, bucket_arrays = [8 \<mapsto> replicate 191 list_create]\<rparr>"]
    by auto
  have f: "nodes h = Map.empty" "bucket_arrays h = [8 \<mapsto> replicate 191 list_create]"
    using h(2) by (cases h; simp)+
  have "map_removable h" using h(1) f by (simp add: map_removable_def)
  from map_remove_then_lookup [OF empty_map_rep [OF f(2)] this] show ?thesis by blast
qed

end
