(* ===== verification/KTask.thy ===== *)
theory KTask
  imports KMap
begin

text \<open>
  The task queue of src/src/task.c: a singly linked queue of reference-counted tasks. Tasks
  are a typed store; a tasklet is the address of its code, and what running it does is a
  parameter. The queue refines a FIFO sequence; the interface is shared with the keyboard
  buffer.
\<close>

subsection \<open>The interface of a queue\<close>

locale fifo =
  fixes rep :: "'s \<Rightarrow> 'x list \<Rightarrow> bool" and accepts :: "'s \<Rightarrow> 'x \<Rightarrow> bool"
    and enq :: "'s \<Rightarrow> 'x \<Rightarrow> 's res" and deq :: "'s \<Rightarrow> ('x option \<times> 's) res"
  assumes enq_rep: "rep s xs \<Longrightarrow> accepts s x \<Longrightarrow> \<exists>s'. enq s x = Inr s' \<and> rep s' (xs @ [x])"
    and deq_Nil: "rep s [] \<Longrightarrow> deq s = Inr (None, s)"
    and deq_Cons: "rep s (x # xs) \<Longrightarrow> \<exists>s'. deq s = Inr (Some x, s') \<and> rep s' xs"
begin

fun drain :: "nat \<Rightarrow> 's \<Rightarrow> ('x list \<times> 's) res" where
  "drain 0 s = Inr ([], s)"
| "drain (Suc n) s = bind_res (deq s) (\<lambda>(r, s). case r of
       None \<Rightarrow> Inr ([], s)
     | Some x \<Rightarrow> bind_res (drain n s) (\<lambda>(xs, s). Inr (x # xs, s)))"

lemma drain_all: "rep s xs \<Longrightarrow> length xs \<le> n \<Longrightarrow> \<exists>s'. drain n s = Inr (xs, s') \<and> rep s' []"
proof (induction xs arbitrary: n s)
  case Nil
  then show ?case by (cases n) (auto simp: deq_Nil)
next
  case (Cons x xs)
  then obtain k where n: "n = Suc k" "length xs \<le> k" by (cases n) auto
  obtain s1 where "deq s = Inr (Some x, s1)" "rep s1 xs" using deq_Cons [OF Cons.prems(1)] by blast
  with Cons.IH [of s1 k] n show ?case by auto
qed

lemma enq_then_drain:
  assumes "rep s xs" "accepts s x"
  shows "\<exists>s' s''. enq s x = Inr s' \<and> drain (Suc (length xs)) s' = Inr (xs @ [x], s'') \<and> rep s'' []"
proof -
  obtain s' where s': "enq s x = Inr s'" "rep s' (xs @ [x])" using enq_rep [OF assms] by blast
  with drain_all [OF s'(2), of "Suc (length xs)"] show ?thesis by auto
qed

end

subsection \<open>State\<close>

record Task =
  task_fn :: u64
  user :: u64
  refs :: u32
  tnext :: u64

record theap = mheap +
  tasks :: "u64 \<rightharpoonup> Task"
  thead :: u64
  ttail :: u64
  irq_on :: bool
  interrupt_handlers :: "u8 \<Rightarrow> u64 \<times> u64"

definition sizeof_Task :: u64 where [layout]: "sizeof_Task = 32"

definition task_update :: "'a theap_scheme \<Rightarrow> u64 \<Rightarrow> (Task \<Rightarrow> Task) \<Rightarrow> 'a theap_scheme res" where
  "task_update h a f = bind_res (deref (tasks h) a) (\<lambda>t. Inr (h\<lparr>tasks := (tasks h)(a \<mapsto> f t)\<rparr>))"

definition disable_interrupts :: "'a theap_scheme \<Rightarrow> 'a theap_scheme" where
  "disable_interrupts h = h\<lparr>irq_on := False\<rparr>"

definition enable_interrupts :: "'a theap_scheme \<Rightarrow> 'a theap_scheme" where
  "enable_interrupts h = h\<lparr>irq_on := True\<rparr>"

subsection \<open>Operations\<close>

definition task_alloc :: "'a theap_scheme \<Rightarrow> u64 \<Rightarrow> u64 \<Rightarrow> (u64 \<times> 'a theap_scheme) res" where
  "task_alloc h callback usr =
     bind_res (kmem_alloc h sizeof_Task) (\<lambda>(t, h).
       Inr (t, h\<lparr>tasks := (tasks h)(t \<mapsto> \<lparr>task_fn = callback, user = usr, refs = 0, tnext = 0\<rparr>)\<rparr>))"

definition add_ref :: "'a theap_scheme \<Rightarrow> u64 \<Rightarrow> 'a theap_scheme res" where
  "add_ref h t = task_update h t (\<lambda>k. k\<lparr>refs := refs k + 1\<rparr>)"

definition release_ref :: "'a theap_scheme \<Rightarrow> u64 \<Rightarrow> 'a theap_scheme res" where
  "release_ref h t =
     bind_res (task_update h t (\<lambda>k. k\<lparr>refs := refs k - 1\<rparr>)) (\<lambda>h.
     bind_res (deref (tasks h) t) (\<lambda>k.
       if refs k = 0 then
         bind_res (kmem_free h t) (\<lambda>h. Inr (h\<lparr>tasks := (tasks h)(t := None)\<rparr>))
       else Inr h))"

definition task_enqueue :: "'a theap_scheme \<Rightarrow> u64 \<Rightarrow> 'a theap_scheme res" where
  "task_enqueue h t =
     bind_res (deref (tasks h) t) (\<lambda>k.
       if tnext k \<noteq> 0 \<or> thead h = t then Inr h
       else bind_res (add_ref h t) (\<lambda>h.
         if thead h = 0 then Inr (h\<lparr>ttail := t, thead := t\<rparr>)
         else if ttail h \<noteq> 0 then
           bind_res (task_update h (ttail h) (\<lambda>k. k\<lparr>tnext := t\<rparr>)) (\<lambda>h. Inr (h\<lparr>ttail := t\<rparr>))
         else Inl (Panic ''Head without a tail'')))"

definition task_enqueue_easy :: "'a theap_scheme \<Rightarrow> u64 \<Rightarrow> u64 \<Rightarrow> 'a theap_scheme res" where
  "task_enqueue_easy h callback usr =
     bind_res (task_alloc h callback usr) (\<lambda>(t, h). task_enqueue h t)"

definition task_get :: "'a theap_scheme \<Rightarrow> (u64 \<times> 'a theap_scheme) res" where
  "task_get h =
     (if thead h \<noteq> 0 then
        let h = disable_interrupts h; tmp = thead h
        in bind_res (deref (tasks h) tmp) (\<lambda>k.
           bind_res (task_update (enable_interrupts (h\<lparr>thead := tnext k\<rparr>)) tmp (\<lambda>k. k\<lparr>tnext := 0\<rparr>)) (\<lambda>h.
             Inr (tmp, h)))
      else Inr (0, h))"

text \<open>\<open>run f u\<close> is the effect of the call \<open>t->task(t->user)\<close>; a queue that never empties diverges.\<close>

fun task_poll_for_work ::
  "(u64 \<Rightarrow> u64 \<Rightarrow> 'a theap_scheme \<Rightarrow> 'a theap_scheme res) \<Rightarrow> nat \<Rightarrow> 'a theap_scheme \<Rightarrow> 'a theap_scheme res" where
  "task_poll_for_work run 0 h = Inl (Fault Diverges)"
| "task_poll_for_work run (Suc fuel) h =
     bind_res (task_get h) (\<lambda>(t, h).
       if t = 0 then Inr h
       else bind_res (deref (tasks h) t) (\<lambda>k.
            bind_res (run (task_fn k) (user k) h) (\<lambda>h.
            bind_res (release_ref h t) (\<lambda>h.
              task_poll_for_work run fuel h))))"

subsection \<open>The queue as a sequence\<close>

fun tseg :: "(u64 \<rightharpoonup> Task) \<Rightarrow> u64 list \<Rightarrow> bool" where
  "tseg ts [] \<longleftrightarrow> True"
| "tseg ts (a # as) \<longleftrightarrow> a \<noteq> 0 \<and> (\<exists>t. ts a = Some t \<and> tnext t = first_or 0 as) \<and> tseg ts as"

definition tqueue :: "'a theap_scheme \<Rightarrow> u64 list \<Rightarrow> bool" where
  "tqueue h as \<longleftrightarrow> distinct as \<and> tseg (tasks h) as \<and> thead h = first_or 0 as \<and> (as \<noteq> [] \<longrightarrow> ttail h = last as)"

lemma tseg_frame:
  "(\<And>a. a \<in> set as \<Longrightarrow> map_option tnext (ts' a) = map_option tnext (ts a)) \<Longrightarrow> tseg ts' as \<longleftrightarrow> tseg ts as"
proof (induction as)
  case (Cons a as)
  have "map_option tnext (ts' a) = map_option tnext (ts a)" using Cons.prems by simp
  then have "(\<exists>t. ts' a = Some t \<and> tnext t = x) \<longleftrightarrow> (\<exists>t. ts a = Some t \<and> tnext t = x)" for x
    by (cases "ts a"; cases "ts' a") auto
  with Cons show ?case by auto
qed simp

lemma tseg_upd_other [simp]: "a \<notin> set as \<Longrightarrow> tseg (ts(a := v)) as \<longleftrightarrow> tseg ts as"
  by (rule tseg_frame) auto

lemma tseg_mem: "tseg ts as \<Longrightarrow> a \<in> set as \<Longrightarrow> a \<noteq> 0 \<and> ts a \<noteq> None"
  by (induction as) auto

lemma tseg_snoc:
  assumes "tseg ts as" "distinct (as @ [b])" "b \<noteq> 0" "ts b = Some k" "tnext k = 0" "as \<noteq> []"
  shows "\<exists>t. ts (last as) = Some t \<and> tseg (ts(last as \<mapsto> t\<lparr>tnext := b\<rparr>)) (as @ [b])"
  using assms
proof (induction as)
  case (Cons a as)
  show ?case
  proof (cases "as = []")
    case True
    then show ?thesis using Cons.prems by auto
  next
    case False
    have "\<exists>t. ts (last as) = Some t \<and> tseg (ts(last as \<mapsto> t\<lparr>tnext := b\<rparr>)) (as @ [b])"
      by (rule Cons.IH) (use Cons.prems False in auto)
    then obtain t where t: "ts (last as) = Some t" "tseg (ts(last as \<mapsto> t\<lparr>tnext := b\<rparr>)) (as @ [b])" by blast
    have "last as \<noteq> a" using Cons.prems False by auto
    moreover have "first_or 0 (as @ [b]) = first_or 0 as" using False by (cases as) auto
    ultimately have "tseg (ts(last as \<mapsto> t\<lparr>tnext := b\<rparr>)) ((a # as) @ [b])"
      using t(2) Cons.prems by simp
    then show ?thesis unfolding last_ConsR [OF False] using t(1) by blast
  qed
qed simp

lemma task_enqueue_queue:
  fixes h :: "'a theap_scheme"
  assumes q: "tqueue h as" and t: "t \<noteq> 0" "tasks h t = Some k" "tnext k = 0" "t \<notin> set as"
  shows "\<exists>h'. task_enqueue h t = Inr h' \<and> tqueue h' (as @ [t]) \<and>
    (\<exists>k'. tasks h' t = Some k' \<and> task_fn k' = task_fn k \<and> user k' = user k \<and> refs k' = refs k + 1)"
proof (cases "as = []")
  case True
  then show ?thesis
    using q t by (auto simp: task_enqueue_def add_ref_def task_update_def deref_def tqueue_def)
next
  case False
  let ?ts = "(tasks h)(t \<mapsto> k\<lparr>refs := refs k + 1\<rparr>)"
  have seg: "tseg ?ts as" "distinct (as @ [t])" "thead h = first_or 0 as" "ttail h = last as"
    using q t(4) False by (simp_all add: tqueue_def)
  obtain l where l: "?ts (last as) = Some l" "tseg (?ts(last as \<mapsto> l\<lparr>tnext := t\<rparr>)) (as @ [t])"
    using tseg_snoc [OF seg(1,2) t(1), of "k\<lparr>refs := refs k + 1\<rparr>"] t(3) False by auto
  have "thead h \<noteq> 0" "thead h \<noteq> t" using seg(3) False t(4) tseg_mem [OF seg(1)] by (cases as; auto)+
  moreover have "last as \<noteq> 0" using tseg_mem [OF seg(1), of "last as"] False by simp
  ultimately have "task_enqueue h t = Inr (h\<lparr>tasks := ?ts(last as \<mapsto> l\<lparr>tnext := t\<rparr>), ttail := t\<rparr>)"
    using t l(1) seg(4) by (simp add: task_enqueue_def add_ref_def task_update_def deref_def)
  moreover have "first_or 0 (as @ [t]) = first_or 0 as" using False by (cases as) auto
  moreover have "last as \<noteq> t" using t(4) False by auto
  ultimately show ?thesis using l seg by (auto simp: tqueue_def)
qed

lemma task_get_queue:
  fixes h :: "'a theap_scheme"
  assumes q: "tqueue h (a # as)"
  shows "\<exists>h' k. task_get h = Inr (a, h') \<and> tqueue h' as \<and> tasks h a = Some k \<and> a \<noteq> 0 \<and>
    h' = h\<lparr>tasks := (tasks h)(a \<mapsto> k\<lparr>tnext := 0\<rparr>), thead := first_or 0 as, irq_on := True\<rparr>"
proof -
  obtain k where k: "a \<noteq> 0" "tasks h a = Some k" "tnext k = first_or 0 as" "thead h = a"
    using q by (auto simp: tqueue_def)
  let ?h = "h\<lparr>tasks := (tasks h)(a \<mapsto> k\<lparr>tnext := 0\<rparr>), thead := first_or 0 as, irq_on := True\<rparr>"
  have "task_get h = Inr (a, ?h)"
    using k by (simp add: task_get_def task_update_def deref_def disable_interrupts_def enable_interrupts_def)
  moreover have "tqueue ?h as"
    using q by (simp add: tqueue_def split: if_splits)
  ultimately show ?thesis using k by auto
qed

lemma task_get_empty: "tqueue h [] \<Longrightarrow> task_get h = Inr (0, h)"
  by (simp add: tqueue_def task_get_def)

text \<open>A task that can be put in the queue: one that exists and is not linked.\<close>

definition task_idle :: "'a theap_scheme \<Rightarrow> u64 \<Rightarrow> bool" where
  "task_idle h t \<longleftrightarrow> t \<noteq> 0 \<and> (\<exists>k. tasks h t = Some k \<and> tnext k = 0) \<and> (\<forall>as. tqueue h as \<longrightarrow> t \<notin> set as)"

interpretation task_fifo: fifo tqueue task_idle task_enqueue
  "\<lambda>h. bind_res (task_get h) (\<lambda>(t, h). Inr (if t = 0 then None else Some t, h))"
proof
  fix h :: "'a theap_scheme" and as t
  show "\<exists>h'. task_enqueue h t = Inr h' \<and> tqueue h' (as @ [t])" if "tqueue h as" "task_idle h t"
    using that task_enqueue_queue [of h as t] by (auto simp: task_idle_def)
  show "bind_res (task_get h) (\<lambda>(t, h). Inr (if t = 0 then None else Some t, h)) = Inr (None, h)" if "tqueue h []"
    using task_get_empty [OF that] by simp
  show "\<exists>h'. bind_res (task_get h) (\<lambda>(t, h). Inr (if t = 0 then None else Some t, h)) = Inr (Some t, h') \<and>
    tqueue h' as" if "tqueue h (t # as)"
    using task_get_queue [OF that] by auto
qed

subsection \<open>Running the queue\<close>

lemma tqueue_cong:
  assumes "thead g = thead h" "ttail g = ttail h" "\<forall>a\<in>set as. tasks g a = tasks h a"
  shows "tqueue g as \<longleftrightarrow> tqueue h as"
  using assms tseg_frame [of as "tasks g" "tasks h"] by (simp add: tqueue_def)

lemma release_ref_eq:
  fixes h :: "'a theap_scheme"
  assumes t: "t \<noteq> 0" "tasks h t = Some k" and heap: "heap_ready h" "heap_owns h t"
  shows "\<exists>h'. release_ref h t = Inr h' \<and> heap_ready h' \<and> heap_owns h' = heap_owns h \<and>
    tasks h' = (tasks h)(t := if refs k = 1 then None else Some (k\<lparr>refs := refs k - 1\<rparr>)) \<and>
    thead h' = thead h \<and> ttail h' = ttail h \<and> nodes h' = nodes h \<and> entries h' = entries h \<and>
    bucket_arrays h' = bucket_arrays h \<and> interrupt_handlers h' = interrupt_handlers h \<and> theap.more h' = theap.more h"
proof (cases "refs k = 1")
  case False
  let ?h = "h\<lparr>tasks := (tasks h)(t \<mapsto> k\<lparr>refs := refs k - 1\<rparr>)\<rparr>"
  have "release_ref h t = Inr ?h"
    using t False by (simp add: release_ref_def task_update_def deref_def)
  moreover have "heap_ready ?h = heap_ready h" "heap_owns ?h = heap_owns h"
    by (rule heap_ready_cong; simp)+
  ultimately show ?thesis using False heap by simp
next
  case True
  let ?h = "h\<lparr>tasks := (tasks h)(t \<mapsto> k\<lparr>refs := 0\<rparr>)\<rparr>"
  have same: "heap_ready ?h = heap_ready h" "heap_owns ?h = heap_owns h"
    by (rule heap_ready_cong; simp)+
  obtain g where g: "kmem_free ?h t = Inr g" "heap_ready g" "heap_owns g = heap_owns ?h"
    using kmem_free_owned [of ?h t] heap same by auto
  obtain m c where gm: "g = ?h\<lparr>kmem := m, heap_currentObjects := c\<rparr>" using kmem_free_frame [OF g(1)] by blast
  have "release_ref h t = Inr (g\<lparr>tasks := (tasks g)(t := None)\<rparr>)"
    using t True g(1) by (simp add: release_ref_def task_update_def deref_def)
  moreover have "heap_ready (g\<lparr>tasks := (tasks g)(t := None)\<rparr>) = heap_ready g"
    "heap_owns (g\<lparr>tasks := (tasks g)(t := None)\<rparr>) = heap_owns g"
    by (rule heap_ready_cong; simp)+
  ultimately show ?thesis using True g(2,3) same(2) by (simp add: gm)
qed

text \<open>
  What a tasklet may do. \<open>rest_of as w\<close> is the state apart from byte memory, the queue and its
  tasks \<open>as\<close>: which objects the heap owns, the typed stores, the other tasks, the handlers and
  all that extends the record. \<open>tasklet_ok\<close>: on a ready heap that owns the tasks, and when
  \<open>ok\<close> holds of the rest, the tasklet returns, leaves the queue and its tasks alone and the
  heap ready, and changes the rest as \<open>step\<close> says. It may allocate, free and use everything else.
\<close>

definition rest_of where
  "rest_of as w = (heap_owns w, nodes w, entries w, bucket_arrays w, restrict_map (tasks w) (- set as),
     interrupt_handlers w, theap.more w)"

definition tasklet_ok where
  "tasklet_ok ok step as run f u \<longleftrightarrow>
     (\<forall>w. heap_ready w \<and> (\<forall>b\<in>set as. heap_owns w b) \<and> ok (rest_of as w) \<longrightarrow>
       (\<exists>w'. run f u w = Inr w' \<and> heap_ready w' \<and> thead w' = thead w \<and> ttail w' = ttail w \<and>
          (\<forall>b\<in>set as. heap_owns w' b \<and> tasks w' b = tasks w b) \<and>
          ok (rest_of as w') \<and> step f u (rest_of as w) (rest_of as w')))"

fun runs_all :: "(u64 \<Rightarrow> u64 \<Rightarrow> 'r \<Rightarrow> 'r \<Rightarrow> bool) \<Rightarrow> (u64 \<times> u64) list \<Rightarrow> 'r \<Rightarrow> 'r \<Rightarrow> bool" where
  "runs_all step [] r r' \<longleftrightarrow> r' = r"
| "runs_all step ((f, u) # fs) r r' \<longleftrightarrow> (\<exists>r1. step f u r r1 \<and> runs_all step fs r1 r')"

definition tasklets :: "'a theap_scheme \<Rightarrow> u64 list \<Rightarrow> (u64 \<times> u64) list" where
  "tasklets h as = map (\<lambda>a. (task_fn (the (tasks h a)), user (the (tasks h a)))) as"

lemma rest_of_cong:
  assumes "heap_owns w' = heap_owns w" "nodes w' = nodes w" "entries w' = entries w" "bucket_arrays w' = bucket_arrays w"
    "\<And>b. b \<notin> set as \<Longrightarrow> tasks w' b = tasks w b" "interrupt_handlers w' = interrupt_handlers w"
    "theap.more w' = theap.more w"
  shows "rest_of as w' = rest_of as w"
  using assms by (auto simp: rest_of_def restrict_map_def fun_eq_iff)

lemma task_poll_runs:
  fixes h :: "'a theap_scheme"
  assumes "tqueue h as" "set as \<subseteq> set qs" "heap_ready h" "\<forall>a\<in>set qs. heap_owns h a" "length as < fuel"
    and "ok (rest_of qs h)" "\<forall>(f, u) \<in> set (tasklets h as). tasklet_ok ok step qs run f u"
  shows "\<exists>h'. task_poll_for_work run fuel h = Inr h' \<and> tqueue h' [] \<and> heap_ready h' \<and>
    runs_all step (tasklets h as) (rest_of qs h) (rest_of qs h') \<and>
    (\<forall>a\<in>set as. map_option refs (tasks h' a) =
      (let r = refs (the (tasks h a)) in if r = 1 then None else Some (r - 1))) \<and>
    (\<forall>b\<in>set qs. b \<notin> set as \<longrightarrow> tasks h' b = tasks h b)"
  using assms
proof (induction as arbitrary: h fuel)
  case Nil
  then show ?case by (cases fuel) (simp_all add: task_get_empty tasklets_def)
next
  case (Cons a as)
  obtain fl where fuel: "fuel = Suc fl" "length as < fl" using Cons.prems(5) by (cases fuel) auto
  obtain h1 k where h1: "task_get h = Inr (a, h1)" "tqueue h1 as" "tasks h a = Some k" "a \<noteq> 0"
    "h1 = h\<lparr>tasks := (tasks h)(a \<mapsto> k\<lparr>tnext := 0\<rparr>), thead := first_or 0 as, irq_on := True\<rparr>"
    using task_get_queue [OF Cons.prems(1)] by blast
  have aq: "a \<in> set qs" using Cons.prems(2) by simp
  have heap1: "heap_ready h1 = heap_ready h" "heap_owns h1 = heap_owns h" by (rule heap_ready_cong; simp add: h1(5))+
  have rest1: "rest_of qs h1 = rest_of qs h" by (rule rest_of_cong) (use aq heap1 in \<open>auto simp: h1(5)\<close>)
  have "tasklet_ok ok step qs run (task_fn k) (user k)" using Cons.prems(7) h1(3) by (simp add: tasklets_def)
  then obtain h2 where h2: "run (task_fn k) (user k) h1 = Inr h2" "heap_ready h2" "thead h2 = thead h1" "ttail h2 = ttail h1"
    "\<forall>b\<in>set qs. heap_owns h2 b \<and> tasks h2 b = tasks h1 b" "ok (rest_of qs h2)"
    "step (task_fn k) (user k) (rest_of qs h) (rest_of qs h2)"
    using Cons.prems(3,4,6) heap1 rest1 unfolding tasklet_ok_def by metis
  have t2: "tasks h2 a = Some (k\<lparr>tnext := 0\<rparr>)" using h2(5) aq by (simp add: h1(5))
  have own: "heap_owns h2 a" using h2(5) aq by blast
  obtain h3 where h3: "release_ref h2 a = Inr h3" "heap_ready h3" "heap_owns h3 = heap_owns h2"
    "tasks h3 = (tasks h2)(a := if refs k = 1 then None else Some (k\<lparr>tnext := 0, refs := refs k - 1\<rparr>))"
    "thead h3 = thead h2" "ttail h3 = ttail h2" "nodes h3 = nodes h2" "entries h3 = entries h2"
    "bucket_arrays h3 = bucket_arrays h2" "interrupt_handlers h3 = interrupt_handlers h2" "theap.more h3 = theap.more h2"
    using release_ref_eq [OF h1(4) t2 h2(2) own] by auto
  have rest3: "rest_of qs h3 = rest_of qs h2" by (rule rest_of_cong) (use aq h3 in auto)
  have notin: "a \<notin> set as" "distinct as" using Cons.prems(1) by (auto simp: tqueue_def)
  have same: "tasks h3 b = tasks h b" if "b \<in> set qs" "b \<noteq> a" for b
    using that h3(4) h2(5) by (simp add: h1(5))
  then have same': "\<forall>b\<in>set as. tasks h3 b = tasks h b" using Cons.prems(2) notin(1) by auto
  have "tqueue h3 as = tqueue h1 as"
    by (rule tqueue_cong) (use same' notin(1) h3(5,6) h2(3,4) in \<open>auto simp: h1(5)\<close>)
  then have q3: "tqueue h3 as" using h1(2) by simp
  have tl: "tasklets h3 as = tasklets h as" using same' by (simp add: tasklets_def)
  have "\<forall>b\<in>set qs. heap_owns h3 b" using h2(5) h3(3) by simp
  moreover have "\<forall>(f, u) \<in> set (tasklets h3 as). tasklet_ok ok step qs run f u"
    using Cons.prems(7) unfolding tl by (simp add: tasklets_def)
  moreover have "set as \<subseteq> set qs" "ok (rest_of qs h3)" using Cons.prems(2) h2(6) rest3 by simp_all
  ultimately obtain h' where h': "task_poll_for_work run fl h3 = Inr h'" "tqueue h' []" "heap_ready h'"
    "runs_all step (tasklets h3 as) (rest_of qs h3) (rest_of qs h')"
    "\<forall>b\<in>set as. map_option refs (tasks h' b) = (let r = refs (the (tasks h3 b)) in if r = 1 then None else Some (r - 1))"
    "\<forall>b\<in>set qs. b \<notin> set as \<longrightarrow> tasks h' b = tasks h3 b"
    using Cons.IH [OF q3 _ h3(2) _ fuel(2)] by blast
  have t1: "tasks h1 a = Some (k\<lparr>tnext := 0\<rparr>)" using h1(5) by simp
  have "task_poll_for_work run fuel h = Inr h'"
    using fuel(1) h1(1,4) t1 h2(1) h3(1) h'(1) by (simp add: deref_def)
  moreover have "runs_all step (tasklets h (a # as)) (rest_of qs h) (rest_of qs h')"
  proof -
    have "tasklets h (a # as) = (task_fn k, user k) # tasklets h as" using h1(3) by (simp add: tasklets_def)
    then show ?thesis using h2(7) h'(4) unfolding tl rest3 by (simp only: runs_all.simps) blast
  qed
  moreover have "map_option refs (tasks h' b) = (let r = refs (the (tasks h b)) in if r = 1 then None else Some (r - 1))"
    if "b \<in> set (a # as)" for b
    using that notin(1) aq h'(5,6) h3(4) h1(3) same' by (auto simp: Let_def)
  moreover have "\<forall>b\<in>set qs. b \<notin> set (a # as) \<longrightarrow> tasks h' b = tasks h b" using h'(6) same by auto
  ultimately show ?case using h'(2,3) by blast
qed

lemma task_enqueue_tail:
  fixes h :: "'a theap_scheme"
  assumes q: "tqueue h (as @ [t])" and ne: "as \<noteq> []"
  shows "\<exists>h' k. task_enqueue h t = Inr h' \<and> tasks h' t = Some k \<and> tnext k = t \<and> thead h' = thead h"
proof -
  have seg: "tseg (tasks h) (as @ [t])" "distinct (as @ [t])" "thead h = first_or t as" "ttail h = t"
    using q by (auto simp: tqueue_def)
  obtain k where k: "tasks h t = Some k" "tnext k = 0" "t \<noteq> 0"
    using seg(1) by (induction as) auto
  have "thead h \<noteq> 0" "thead h \<noteq> t" using seg ne tseg_mem [OF seg(1)] by (cases as; auto)+
  then show ?thesis
    using k seg(4) by (simp add: task_enqueue_def add_ref_def task_update_def deref_def)
qed

subsection \<open>Properties\<close>

text \<open>
  C17. The task queue is first in, first out: enqueueing an idle task puts it last, and
  repeated \<open>task_get\<close> returns the tasks in the order they were enqueued and then NULL.
\<close>

theorem task_queue_fifo:
  fixes h :: "'a theap_scheme"
  assumes "tqueue h as" "task_idle h t"
  shows "\<exists>h' h''. task_enqueue h t = Inr h' \<and> tqueue h' (as @ [t]) \<and>
    task_fifo.drain (Suc (length as)) h' = Inr (as @ [t], h'') \<and> task_get h'' = Inr (0, h'')"
proof -
  obtain h' where h': "task_enqueue h t = Inr h'" "tqueue h' (as @ [t])"
    using task_fifo.enq_rep [OF assms] by blast
  obtain h'' where "task_fifo.drain (Suc (length as)) h' = Inr (as @ [t], h'')" "tqueue h'' []"
    using task_fifo.drain_all [OF h'(2), of "Suc (length as)"] by auto
  then show ?thesis using h' task_get_empty by blast
qed

definition demo_theap :: "(u64 \<rightharpoonup> Task) \<Rightarrow> u64 \<Rightarrow> u64 \<Rightarrow> theap" where
  "demo_theap ts p q = \<lparr>kmem = (\<lambda>_. 0), heap_sequence = 0, heap_currentObjects = 0, heap_block = 0,
     nodes = Map.empty, entries = Map.empty, bucket_arrays = Map.empty, tasks = ts, thead = p, ttail = q,
     irq_on = True, interrupt_handlers = (\<lambda>_. (0, 0))\<rparr>"

lemma tqueue_inj: "tqueue h as \<Longrightarrow> tqueue h bs \<Longrightarrow> as = bs"
proof -
  have "tseg ts as \<Longrightarrow> tseg ts bs \<Longrightarrow> first_or 0 as = first_or 0 bs \<Longrightarrow> as = bs" for ts
  proof (induction as arbitrary: bs)
    case Nil
    then show ?case by (cases bs) auto
  next
    case (Cons a as)
    then obtain cs where "bs = a # cs" by (cases bs) auto
    with Cons show ?case by auto
  qed
  then show "tqueue h as \<Longrightarrow> tqueue h bs \<Longrightarrow> as = bs" by (auto simp: tqueue_def)
qed

theorem task_queue_fifo_witness:
  "\<exists>h' h''. task_enqueue (demo_theap [8 \<mapsto> \<lparr>task_fn = 1, user = 0, refs = 1, tnext = 0\<rparr>,
       16 \<mapsto> \<lparr>task_fn = 2, user = 0, refs = 0, tnext = 0\<rparr>] 8 8) 16 = Inr h' \<and>
     task_fifo.drain 2 h' = Inr ([8, 16], h'')"
proof -
  let ?h = "demo_theap [8 \<mapsto> \<lparr>task_fn = 1, user = 0, refs = 1, tnext = 0\<rparr>,
       16 \<mapsto> \<lparr>task_fn = 2, user = 0, refs = 0, tnext = 0\<rparr>] 8 8"
  have q: "tqueue ?h [8]" by (simp add: tqueue_def demo_theap_def)
  have "16 \<notin> set as" if "tqueue ?h as" for as using tqueue_inj [OF q that] by auto
  then have "task_idle ?h 16" unfolding task_idle_def by (simp add: demo_theap_def)
  from task_queue_fifo [OF q this] show ?thesis by (auto simp: numeral_2_eq_2)
qed

text \<open>
  C18. \<open>task_poll_for_work\<close> ends when the tasklets return and leave the queue alone: it runs each
  queued tasklet once, in queue order, on its user argument, empties the queue, drops one
  reference of each task, and frees those whose count reaches zero. The tasklets may allocate and
  free memory and change everything but the queue and its tasks (\<open>tasklet_ok\<close>); their effects
  \<open>step\<close> are chained in queue order.
\<close>

theorem task_poll_runs_in_order:
  fixes h :: "'a theap_scheme"
  assumes "tqueue h as" "heap_ready h" "\<forall>a\<in>set as. heap_owns h a" "length as < fuel"
    and "ok (rest_of as h)" "\<forall>(f, u) \<in> set (tasklets h as). tasklet_ok ok step as run f u"
  shows "\<exists>h'. task_poll_for_work run fuel h = Inr h' \<and> tqueue h' [] \<and> heap_ready h' \<and>
    runs_all step (tasklets h as) (rest_of as h) (rest_of as h') \<and>
    (\<forall>a\<in>set as. map_option refs (tasks h' a) =
      (let r = refs (the (tasks h a)) in if r = 1 then None else Some (r - 1)))"
  using task_poll_runs [OF assms(1) order.refl assms(2-6)] by blast

text \<open>A tasklet that frees the object it is given and notes that it ran.\<close>

definition demo_free_task :: "u64 \<Rightarrow> u64 \<Rightarrow> u64 list theap_scheme \<Rightarrow> u64 list theap_scheme res" where
  "demo_free_task f u w = bind_res (kmem_free w u) (\<lambda>w. Inr (theap.more_update (\<lambda>l. l @ [f, u]) w))"

definition demo_step where
  "demo_step f u r r' \<longleftrightarrow> snd (snd (snd (snd (snd (snd r'))))) = snd (snd (snd (snd (snd (snd r))))) @ [f, u :: u64]"

lemma demo_free_task_ok: "tasklet_ok (\<lambda>r. fst r 32944) demo_step qs demo_free_task 7 32944"
  unfolding tasklet_ok_def
proof (intro allI impI)
  fix w :: "u64 list theap_scheme"
  assume w: "heap_ready w \<and> (\<forall>b\<in>set qs. heap_owns w b) \<and> fst (rest_of qs w) 32944"
  then have own: "heap_ready w" "heap_owns w 32944" by (simp_all add: rest_of_def)
  obtain g where g: "kmem_free w 32944 = Inr g" "heap_ready g" "heap_owns g = heap_owns w"
    using kmem_free_owned [OF own] by auto
  obtain m c where gm: "g = w\<lparr>kmem := m, heap_currentObjects := c\<rparr>" using kmem_free_frame [OF g(1)] by blast
  let ?w = "theap.more_update (\<lambda>l. l @ [7, 32944]) g"
  have "heap_ready ?w = heap_ready g" "heap_owns ?w = heap_owns g" by (rule heap_ready_cong; simp)+
  then show "\<exists>w'. demo_free_task 7 32944 w = Inr w' \<and> heap_ready w' \<and> thead w' = thead w \<and> ttail w' = ttail w \<and>
      (\<forall>b\<in>set qs. heap_owns w' b \<and> tasks w' b = tasks w b) \<and> fst (rest_of qs w') 32944 \<and>
      demo_step 7 32944 (rest_of qs w) (rest_of qs w')"
    using g w own by (intro exI [of _ ?w]) (simp add: demo_free_task_def demo_step_def rest_of_def gm)
qed

theorem task_poll_runs_in_order_witness:
  "\<exists>(h :: u64 list theap_scheme) h'. task_poll_for_work demo_free_task 2 h = Inr h' \<and>
     theap.more h' = [7, 32944] \<and> tasks h' 32816 = None \<and> thead h' = 0"
proof -
  let ?x = "\<lparr>nodes = Map.empty, entries = Map.empty, bucket_arrays = Map.empty,
    tasks = [32816 \<mapsto> \<lparr>task_fn = 7, user = 32944, refs = 1, tnext = 0\<rparr>], thead = 32816, ttail = 32816, irq_on = True,
    interrupt_handlers = (\<lambda>_. (0, 0)), \<dots> = []\<rparr>"
  obtain h :: "u64 list theap_scheme" where b: "boot_heap h 0" and x: "kheap.more h = ?x"
    using boot_heap_0 [of ?x] by blast
  have h: "heap_ready h" "heap_owns h 32816" "heap_owns h 32944"
    using boot_heap_ready(1) [OF b] boot_heap_ready(2) [OF b, of 0] boot_heap_ready(2) [OF b, of 1] by simp_all
  have f: "tasks h = [32816 \<mapsto> \<lparr>task_fn = 7, user = 32944, refs = 1, tnext = 0\<rparr>]" "thead h = 32816" "ttail h = 32816"
    "theap.more h = []" using x by (cases h; simp)+
  have q: "tqueue h [32816]" by (simp add: tqueue_def f)
  have tl: "tasklets h [32816] = [(7, 32944)]" by (simp add: tasklets_def f)
  have own: "\<forall>a\<in>set [32816]. heap_owns h a" and len: "length [32816 :: u64] < 2" using h(2) by simp_all
  have ok: "fst (rest_of [32816] h) 32944" using h(3) by (simp add: rest_of_def)
  have "\<forall>(f, u) \<in> set (tasklets h [32816]). tasklet_ok (\<lambda>r. fst r 32944) demo_step [32816] demo_free_task f u"
    unfolding tl using demo_free_task_ok by simp
  from task_poll_runs_in_order [where ok = "\<lambda>r. fst r 32944", OF q h(1) own len ok this]
  obtain h' where h': "task_poll_for_work demo_free_task 2 h = Inr h'" "tqueue h' []"
    "runs_all demo_step (tasklets h [32816]) (rest_of [32816] h) (rest_of [32816] h')"
    "\<forall>a\<in>set [32816]. map_option refs (tasks h' a) = (let r = refs (the (tasks h a)) in if r = 1 then None else Some (r - 1))"
    by blast
  from h'(3) have "theap.more h' = [7, 32944]" unfolding tl by (auto simp: demo_step_def rest_of_def f)
  moreover have "thead h' = 0" using h'(2) by (simp add: tqueue_def first_or_def)
  moreover have "tasks h' 32816 = None" using h'(4) by (simp add: f Let_def)
  ultimately show ?thesis using h'(1) by blast
qed

text \<open>
  Enqueueing the last task of a queue of two or more again links it to itself: the guard
  of \<open>task_enqueue\<close> tests only the task's own next pointer and the head.
\<close>

theorem task_enqueue_tail_cycles:
  fixes h :: "'a theap_scheme"
  assumes "tqueue h (as @ [t])" "as \<noteq> []"
  shows "\<exists>h' k. task_enqueue h t = Inr h' \<and> tasks h' t = Some k \<and> tnext k = t \<and> thead h' = thead h"
  using assms by (rule task_enqueue_tail)

theorem task_enqueue_tail_cycles_witness:
  "\<exists>h' k. task_enqueue (demo_theap [8 \<mapsto> \<lparr>task_fn = 1, user = 0, refs = 1, tnext = 16\<rparr>,
       16 \<mapsto> \<lparr>task_fn = 2, user = 0, refs = 1, tnext = 0\<rparr>] 8 16) 16 = Inr h' \<and> tasks h' 16 = Some k \<and> tnext k = 16"
proof -
  have "tqueue (demo_theap [8 \<mapsto> \<lparr>task_fn = 1, user = 0, refs = 1, tnext = 16\<rparr>,
       16 \<mapsto> \<lparr>task_fn = 2, user = 0, refs = 1, tnext = 0\<rparr>] 8 16) ([8] @ [16])"
    by (simp add: tqueue_def demo_theap_def)
  from task_enqueue_tail_cycles [OF this] show ?thesis by blast
qed

end
