(* ===== verification/Console.thy ===== *)
theory Console
  imports CString "HOL-Library.Signed_Division"
begin

text \<open>
  The text console of src/src/console.c, with \<open>panic\<close> and \<open>warn\<close> of panic.c and the serial
  output of serial.c. The screen is the 4000 bytes at \<open>VideoStart\<close>, a write outside it is a
  fault; what goes to the serial line and to the CRT controller ports is logged. The wait
  for the serial transmitter is taken to end.
\<close>

unbundle bit_operations_syntax

subsection \<open>State\<close>

record console =
  video :: "u8 list"
  current :: u64
  current_color :: u32
  serial :: "u8 list"
  ports :: "(u16 \<times> u8) list"

definition VideoStart :: u64 where [layout]: "VideoStart = 0xB8000"

definition lines :: nat where [layout]: "lines = 25"

definition cols :: nat where [layout]: "cols = 160"

definition console_boot :: "u8 list \<Rightarrow> console" where
  "console_boot v = \<lparr>video = v, current = VideoStart, current_color = 7, serial = [], ports = []\<rparr>"

definition str :: "string \<Rightarrow> u8 list" where
  "str s = map of_char s"

text \<open>A byte load and a byte store through a pointer into the screen.\<close>

definition peek :: "u64 \<Rightarrow> console \<Rightarrow> u8 res" where
  "peek p c = (let i = unat (p - VideoStart)
     in if i < length (video c) then Inr (video c ! i) else Inl (Fault OutOfBounds))"

definition poke :: "u64 \<Rightarrow> u8 \<Rightarrow> console \<Rightarrow> console res" where
  "poke p v c = (let i = unat (p - VideoStart)
     in if i < length (video c) then Inr (c\<lparr>video := (video c)[i := v]\<rparr>) else Inl (Fault OutOfBounds))"

subsection \<open>Operations\<close>

definition console_set_color :: "u32 \<Rightarrow> u32 \<Rightarrow> console \<Rightarrow> console" where
  "console_set_color fore back c = c\<lparr>current_color := push_bit 4 back OR fore\<rparr>"

definition hex :: "int \<Rightarrow> u8" where
  "hex i = (if 16 < i then 63 else if 9 < i then 65 + word_of_int (i - 10) else 48 + word_of_int i)"

text \<open>A counted loop whose body may fault.\<close>

fun for_each :: "('i \<Rightarrow> 's \<Rightarrow> 's res) \<Rightarrow> 'i list \<Rightarrow> 's \<Rightarrow> 's res" where
  "for_each f [] s = Inr s"
| "for_each f (i # is) s = bind_res (f i s) (for_each f is)"

definition move_up :: "nat \<Rightarrow> console \<Rightarrow> console res" where
  "move_up pos c = bind_res (peek (VideoStart + of_nat (pos + cols)) c) (\<lambda>v. poke (VideoStart + of_nat pos) v c)"

definition scroll_rows :: "console \<Rightarrow> console res" where
  "scroll_rows = for_each (\<lambda>row. for_each (\<lambda>col. move_up (row * cols + col)) [0..<cols]) [0..<lines - 1]"

definition clear_last_line :: "console \<Rightarrow> console res" where
  "clear_last_line =
     (let lastLine = VideoStart + of_nat ((lines - 1) * cols)
      in for_each (\<lambda>i c. bind_res (poke (lastLine + of_nat (2 * i)) 32 c)
           (\<lambda>c. poke (lastLine + of_nat (2 * i + 1)) (ucast (current_color c)) c)) [0..<cols div 2])"

definition scroll :: "console \<Rightarrow> console res" where
  "scroll c = bind_res (scroll_rows c) (\<lambda>c. bind_res (clear_last_line c) (\<lambda>c.
     Inr (c\<lparr>current := current c - of_nat cols\<rparr>)))"

definition outb :: "u16 \<Rightarrow> u8 \<Rightarrow> console \<Rightarrow> console" where
  "outb port v c = c\<lparr>ports := ports c @ [(port, v)]\<rparr>"

definition set_cursor :: "console \<Rightarrow> console" where
  "set_cursor c =
     (let position = word_of_int (sint (current c - VideoStart) sdiv 2) :: u16;
          c = outb 0x3d5 14 (outb 0x3d4 0x0b (outb 0x3d5 13 (outb 0x3d4 0x0a c)))
      in if position < 80 * 25
         then outb 0x3d5 (ucast (position AND 0xff)) (outb 0x3d4 0x0f
             (outb 0x3d5 (ucast (drop_bit 8 position AND 0xff)) (outb 0x3d4 0x0e c)))
         else c)"

definition serial_put :: "u8 \<Rightarrow> console \<Rightarrow> console" where
  "serial_put ch c = c\<lparr>serial := serial c @ [ch]\<rparr>"

text \<open>The loop \<open>while (current >= VideoStart + (lines - 1) * cols) scroll()\<close>.\<close>

lemma for_each_keeps:
  assumes "for_each f is s = Inr s'" "\<And>i s s'. f i s = Inr s' \<Longrightarrow> q s' = q s"
  shows "q s' = q s"
  using assms(1) by (induction "is" arbitrary: s) (auto simp: res_simps assms(2))

lemma poke_current: "poke p v c = Inr c' \<Longrightarrow> current c' = current c"
  by (auto simp: poke_def Let_def split: if_splits)

lemma scroll_current:
  assumes "scroll c = Inr c'"
  shows "current c' = current c - of_nat cols"
proof -
  have up: "current d = current c" if "move_up pos c = Inr d" for pos c d
    using that by (auto simp: move_up_def res_simps poke_current)
  obtain c1 c2 where c1: "scroll_rows c = Inr c1" and c2: "clear_last_line c1 = Inr c2"
      and c': "c' = c2\<lparr>current := current c2 - of_nat cols\<rparr>"
    using assms by (auto simp: scroll_def res_simps)
  have "current c1 = current c"
    by (rule for_each_keeps [OF c1 [unfolded scroll_rows_def]]) (erule for_each_keeps, rule up)
  moreover have "current c2 = current c1"
    by (rule for_each_keeps [OF c2 [unfolded clear_last_line_def Let_def]]) (auto simp: res_simps dest!: poke_current)
  ultimately show ?thesis by (simp add: c')
qed

function scroll_loop :: "console \<Rightarrow> console res" where
  "scroll_loop c =
     (if VideoStart + of_nat ((lines - 1) * cols) \<le> current c then bind_res (scroll c) scroll_loop else Inr c)"
  by pat_completeness auto
termination
proof (relation "measure (\<lambda>c. unat (current c))")
  fix c c' :: console
  assume "VideoStart + of_nat ((lines - 1) * cols) \<le> current c" "scroll c = Inr c'"
  then have "757504 \<le> unat (current c)" "current c' = current c - of_nat cols"
    by (simp_all add: word_le_nat_alt layout scroll_current)
  then show "(c', c) \<in> measure (\<lambda>c. unat (current c))"
    by (simp add: layout unat_sub_if')
qed simp

declare scroll_loop.simps [simp del]

definition console_put :: "u8 \<Rightarrow> console \<Rightarrow> console res" where
  "console_put ch c =
     (let c = serial_put ch c
      in bind_res
        (if ch = 10 then
           let cur = current c + of_nat cols; dist = cur - VideoStart
           in Inr (c\<lparr>current := VideoStart + (dist div of_nat cols) * of_nat cols\<rparr>)
         else if ch = 8 then
           let cur = current c - 2; cur = (if cur < VideoStart then VideoStart else cur)
           in bind_res (poke cur 32 (c\<lparr>current := cur\<rparr>)) (\<lambda>c. poke (cur + 1) (ucast (current_color c)) c)
         else
           bind_res (poke (current c) ch c) (\<lambda>c.
           bind_res (poke (current c + 1) (ucast (current_color c)) c) (\<lambda>c.
             Inr (c\<lparr>current := current c + 2\<rparr>))))
        (\<lambda>c. bind_res (scroll_loop c) (\<lambda>c. Inr (set_cursor c))))"

definition console_clear_screen :: "console \<Rightarrow> console res" where
  "console_clear_screen c =
     bind_res (for_each (\<lambda>i. poke (VideoStart + of_nat (2 * i)) 32) [0..<lines * cols div 2] c)
       (\<lambda>c. Inr (set_cursor (c\<lparr>current := VideoStart\<rparr>)))"

fun console_put_string_raw :: "u8 list \<Rightarrow> console \<Rightarrow> console res" where
  "console_put_string_raw [] c = Inr c"
| "console_put_string_raw (ch # s) c = bind_res (console_put ch c) (console_put_string_raw s)"

definition console_put_hex8 :: "u8 \<Rightarrow> console \<Rightarrow> console res" where
  "console_put_hex8 v c =
     bind_res (console_put (hex (uint (drop_bit 4 v AND 0xf))) c) (console_put (hex (uint (v AND 0xf))))"

definition console_put_hex16 :: "u16 \<Rightarrow> console \<Rightarrow> console res" where
  "console_put_hex16 v c = bind_res (console_put_hex8 (ucast (drop_bit 8 v)) c) (console_put_hex8 (ucast v))"

text \<open>\<open>for (int i = 28; i >= 0; i -= 4)\<close> counts the nibbles down; \<open>n\<close> nibbles are left.\<close>

fun put_nibbles :: "nat \<Rightarrow> 'w::len word \<Rightarrow> console \<Rightarrow> console res" where
  "put_nibbles 0 v c = Inr c"
| "put_nibbles (Suc n) v c =
     bind_res (console_put (hex (uint (drop_bit (4 * n) v AND 0xf))) c) (put_nibbles n v)"

definition console_put_hex :: "u32 \<Rightarrow> console \<Rightarrow> console res" where
  "console_put_hex v c = put_nibbles 8 v c"

definition console_put_hex64 :: "u64 \<Rightarrow> console \<Rightarrow> console res" where
  "console_put_hex64 v c = put_nibbles 16 v c"

text \<open>
  \<open>console_put_dec\<close> fills \<open>str\<close> from index 9 down; \<open>p\<close> is the index to be written next, and
  an index below the buffer is a fault.
\<close>

function put_dec_loop :: "u32 \<Rightarrow> int \<Rightarrow> u8 list \<Rightarrow> (int \<times> u8 list) res" where
  "put_dec_loop v p buf =
     (if v = 0 then Inr (p, buf)
      else if p < 0 then Inl (Fault OutOfBounds)
      else put_dec_loop (v div 10) (p - 1) (buf[nat p := ucast (v mod 10) + 48]))"
  by pat_completeness auto
termination
  by (relation "measure (\<lambda>(v, p, buf). unat v)") (auto simp: unat_div_distrib unat_gt_0 intro!: div_less_dividend)

declare put_dec_loop.simps [simp del]

text \<open>
  Arguments of a variadic call; reading one of the wrong kind or past the last is a fault.
  \<open>print_fmt\<close> is the loop of \<open>console_print_string\<close>, with the routine for the d conversion
  given: \<open>console_put_dec\<close> prints through \<open>console_print_string\<close> a string of digits.
  A percent sign at the end makes the loop step over the terminating zero.
\<close>

datatype fmt_arg = AStr "u8 list" | AInt u32 | APtr u64

fun print_fmt :: "(u32 \<Rightarrow> console \<Rightarrow> console res) \<Rightarrow> u8 list \<Rightarrow> fmt_arg list \<Rightarrow> console \<Rightarrow> console res" where
  "print_fmt pd [] args c = Inr c"
| "print_fmt pd (ch # s) args c =
     (if ch = 37 then
        case s of
          [] \<Rightarrow> bind_res (console_put 0 c) (\<lambda>c. Inl (Fault OutOfBounds))
        | f # s' \<Rightarrow>
            if f = 115 then (case args of
                AStr a # as \<Rightarrow> bind_res (console_put_string_raw a c) (print_fmt pd s' as)
              | _ \<Rightarrow> Inl (Fault OutOfBounds))
            else if f = 100 then (case args of
                AInt v # as \<Rightarrow> bind_res (pd v c) (print_fmt pd s' as)
              | _ \<Rightarrow> Inl (Fault OutOfBounds))
            else if f = 120 then (case args of
                AInt v # as \<Rightarrow> bind_res (console_put_hex v c) (print_fmt pd s' as)
              | _ \<Rightarrow> Inl (Fault OutOfBounds))
            else if f = 112 then (case args of
                APtr v # as \<Rightarrow> bind_res (console_put_hex64 v c) (print_fmt pd s' as)
              | _ \<Rightarrow> Inl (Fault OutOfBounds))
            else bind_res (console_put f c) (print_fmt pd s' args)
      else bind_res (console_put ch c) (print_fmt pd s args))"

definition put_dec_via :: "(u8 list \<Rightarrow> console \<Rightarrow> console res) \<Rightarrow> u32 \<Rightarrow> console \<Rightarrow> console res" where
  "put_dec_via print v c =
     (if v = 0 then console_put 48 c
      else bind_res (put_dec_loop v 9 (replicate 11 0)) (\<lambda>(p, buf).
        print (takeWhile (\<lambda>b. b \<noteq> 0) (drop (nat (p + 1)) buf)) c))"

definition console_put_dec :: "u32 \<Rightarrow> console \<Rightarrow> console res" where
  "console_put_dec = put_dec_via (\<lambda>s. print_fmt (\<lambda>_ _. Inl (Fault Diverges)) s [])"

definition console_print_string :: "u8 list \<Rightarrow> fmt_arg list \<Rightarrow> console \<Rightarrow> console res" where
  "console_print_string fmt args c = print_fmt console_put_dec fmt args c"

text \<open>panic.c\<close>

definition panic :: "u8 list \<Rightarrow> console \<Rightarrow> console res" where
  "panic why c = console_print_string (str ''PANIC: %s'') [AStr why] (console_set_color 4 0 c)"

definition warn :: "u8 list \<Rightarrow> console \<Rightarrow> console res" where
  "warn what c =
     bind_res (console_print_string (str ''WARN : %s'' @ [10]) [AStr what] (console_set_color (8 OR 6) 0 c))
       (\<lambda>c. Inr (console_set_color 7 0 c))"

subsection \<open>Scrolling\<close>

lemma fold_shift:
  fixes v :: "'a list" and a :: nat
  assumes "b + k \<le> length v"
  defines "w \<equiv> fold (\<lambda>p v. v[p := v ! (p + k)]) [a..<b] v"
  shows "length w = length v" "i < length v \<Longrightarrow> w ! i = (if a \<le> i \<and> i < b then v ! (i + k) else v ! i)"
proof -
  have "length w = length v \<and> (\<forall>i < length v. w ! i = (if a \<le> i \<and> i < b then v ! (i + k) else v ! i))"
    using assms(1) unfolding w_def
  proof (induction b)
    case (Suc b)
    show ?case
    proof (cases "a \<le> b")
      case True
      with Suc show ?thesis by (auto simp: nth_list_update less_Suc_eq)
    qed (use Suc in auto)
  qed simp
  then show "length w = length v" "i < length v \<Longrightarrow> w ! i = (if a \<le> i \<and> i < b then v ! (i + k) else v ! i)"
    by auto
qed

lemma fold_rows:
  "fold (\<lambda>row v. fold (\<lambda>col v. f (row * n + col) v) [0..<n] v) [0..<m] v = fold f [0..<m * n] v"
proof (induction m)
  case (Suc m)
  have "[0..<Suc m * n] = [0..<m * n] @ map (\<lambda>c. m * n + c) [0..<n]"
    using map_add_upt [of "m * n" n] upt_add_eq_append [of 0 "m * n" n] by (simp add: add.commute)
  then show ?case using Suc by (simp add: fold_map comp_def)
qed simp

text \<open>A loop of stores inside the screen returns, and does to the screen what the fold of the list updates does.\<close>

lemma poke_in:
  "unat (p - VideoStart) < length (video c) \<Longrightarrow> poke p v c = Inr (c\<lparr>video := (video c)[unat (p - VideoStart) := v]\<rparr>)"
  by (simp add: poke_def)

lemma poke_at:
  "i < length (video c) \<Longrightarrow> length (video c) \<le> 4000 \<Longrightarrow>
     poke (VideoStart + of_nat i) v c = Inr (c\<lparr>video := (video c)[i := v]\<rparr>)"
  by (simp add: poke_def unat_of_nat_small)

lemma for_each_video:
  assumes step: "\<And>i c. i \<in> set xs \<Longrightarrow> length (video c) = n \<Longrightarrow> current_color c = a \<Longrightarrow>
      f i c = Inr (c\<lparr>video := g i (video c)\<rparr>) \<and> length (g i (video c)) = n"
    and c: "length (video c) = n" "current_color c = a"
  shows "for_each f xs c = Inr (c\<lparr>video := fold g xs (video c)\<rparr>) \<and> length (fold g xs (video c)) = n"
  using assms
proof (induction xs arbitrary: c)
  case (Cons i xs)
  have "f i c = Inr (c\<lparr>video := g i (video c)\<rparr>)" "length (g i (video c)) = n"
    using Cons.prems by auto
  then show ?case using Cons.IH [of "c\<lparr>video := g i (video c)\<rparr>"] Cons.prems by simp
qed simp

definition rows_up :: "u8 list \<Rightarrow> u8 list" where
  "rows_up v = fold (\<lambda>p v. v[p := v ! (p + 160)]) [0..<3840] v"

definition blank_last :: "u8 \<Rightarrow> u8 list \<Rightarrow> u8 list" where
  "blank_last a v = fold (\<lambda>i v. v[3840 + 2 * i := 32, 3840 + 2 * i + 1 := a]) [0..<80] v"

definition scrolled :: "console \<Rightarrow> console" where
  "scrolled c = c\<lparr>video := blank_last (ucast (current_color c)) (rows_up (video c)), current := current c - of_nat cols\<rparr>"

lemma rows_up_nth:
  assumes "length v = 4000"
  shows "length (rows_up v) = 4000"
    "i < 4000 \<Longrightarrow> rows_up v ! i = (if i < 3840 then v ! (i + 160) else v ! i)"
  unfolding rows_up_def using assms fold_shift(1) [of 3840 160 v 0] fold_shift(2) [of 3840 160 v i 0] by simp_all

lemma move_up_eq:
  assumes "pos + 160 < 4000" "length (video c) = 4000"
  shows "move_up pos c = Inr (c\<lparr>video := (video c)[pos := video c ! (pos + 160)]\<rparr>)"
proof -
  have "peek (VideoStart + of_nat (pos + cols)) c = Inr (video c ! (pos + 160))"
    using assms unfolding peek_def Let_def by (simp add: layout unat_of_nat_small del: of_nat_add)
  then show ?thesis using assms by (simp add: move_up_def poke_at del: of_nat_add)
qed

lemma scroll_rows_eq:
  assumes "length (video c) = 4000"
  shows "scroll_rows c = Inr (c\<lparr>video := rows_up (video c)\<rparr>)"
proof -
  let ?f = "\<lambda>p v. v[p := v ! (p + 160)]"
  have row: "for_each (\<lambda>col. move_up (row * cols + col)) [0..<cols] c =
      Inr (c\<lparr>video := fold (\<lambda>col. ?f (row * 160 + col)) [0..<160] (video c)\<rparr>) \<and>
      length (fold (\<lambda>col. ?f (row * 160 + col)) [0..<160] (video c)) = 4000"
    if "row \<in> set [0..<24]" "length (video c) = 4000" "current_color c = a" for row c a
    using that unfolding cols_def
    by (intro for_each_video [where a = a]) (auto simp: move_up_eq layout)
  have "for_each (\<lambda>row. for_each (\<lambda>col. move_up (row * cols + col)) [0..<cols]) [0..<24] c =
      Inr (c\<lparr>video := fold (\<lambda>row. fold (\<lambda>col. ?f (row * 160 + col)) [0..<160]) [0..<24] (video c)\<rparr>) \<and>
      length (fold (\<lambda>row. fold (\<lambda>col. ?f (row * 160 + col)) [0..<160]) [0..<24] (video c)) = 4000"
    by (rule for_each_video [OF _ assms refl]) (rule row)
  then have "scroll_rows c = Inr (c\<lparr>video := fold (\<lambda>row. fold (\<lambda>col. ?f (row * 160 + col)) [0..<160]) [0..<24] (video c)\<rparr>)"
    by (simp add: scroll_rows_def lines_def)
  then show ?thesis using fold_rows [of ?f 160 24 "video c"] by (simp add: rows_up_def)
qed

lemma fold_pairs:
  fixes v :: "'a list" and x y :: 'a
  assumes "base + 2 * n \<le> length v"
  defines "w \<equiv> fold (\<lambda>i v. v[base + 2 * i := x, base + 2 * i + 1 := y]) [0..<n] v"
  shows "length w = length v \<and> (\<forall>j < length v. w ! j =
    (if base \<le> j \<and> j < base + 2 * n then if even (j - base) then x else y else v ! j))"
  using assms(1) unfolding w_def
proof (induction n)
  case (Suc n)
  let ?w = "fold (\<lambda>i v. v[base + 2 * i := x, base + 2 * i + 1 := y]) [0..<n] v"
  have len: "length ?w = length v" and nth: "\<And>j. j < length v \<Longrightarrow> ?w ! j =
    (if base \<le> j \<and> j < base + 2 * n then if even (j - base) then x else y else v ! j)"
    using Suc by auto
  have "?w[base + 2 * n := x, base + 2 * n + 1 := y] ! j =
    (if base \<le> j \<and> j < base + 2 * Suc n then if even (j - base) then x else y else v ! j)" if j: "j < length v" for j
  proof -
    consider "j = base + 2 * n" | "j = base + 2 * n + 1" | "j < base + 2 * n" | "base + 2 * n + 1 < j" by linarith
    then show ?thesis using j len nth [OF j] Suc.prems by cases (simp_all add: nth_list_update)
  qed
  then show ?case using len by simp
qed auto

lemma clear_last_line_eq:
  assumes "length (video c) = 4000"
  shows "clear_last_line c = Inr (c\<lparr>video := blank_last (ucast (current_color c)) (video c)\<rparr>)"
proof -
  have step: "bind_res (poke (VideoStart + of_nat ((lines - 1) * cols) + of_nat (2 * i)) 32 c)
        (\<lambda>c. poke (VideoStart + of_nat ((lines - 1) * cols) + of_nat (2 * i + 1)) (ucast (current_color c)) c) =
      Inr (c\<lparr>video := (video c)[3840 + 2 * i := 32, 3840 + 2 * i + 1 := ucast a]\<rparr>) \<and>
      length ((video c)[3840 + 2 * i := 32, 3840 + 2 * i + 1 := ucast a :: u8]) = 4000"
    if "i \<in> set [0..<80]" "length (video c) = 4000" "current_color c = a" for i c and a :: u32
  proof -
    have e: "VideoStart + of_nat ((lines - 1) * cols) + of_nat k = VideoStart + of_nat (3840 + k)" for k
      by (simp add: layout)
    show ?thesis using that unfolding e by (simp add: poke_at del: of_nat_add)
  qed
  have "for_each (\<lambda>i c. bind_res (poke (VideoStart + of_nat ((lines - 1) * cols) + of_nat (2 * i)) 32 c)
        (\<lambda>c. poke (VideoStart + of_nat ((lines - 1) * cols) + of_nat (2 * i + 1)) (ucast (current_color c)) c)) [0..<80] c =
      Inr (c\<lparr>video := blank_last (ucast (current_color c)) (video c)\<rparr>) \<and>
      length (blank_last (ucast (current_color c)) (video c)) = 4000"
    unfolding blank_last_def by (rule for_each_video [OF _ assms refl]) (rule step)
  then show ?thesis by (simp add: clear_last_line_def Let_def cols_def)
qed

text \<open>On a screen of 4000 bytes \<open>scroll\<close> never leaves the screen.\<close>

lemma scroll_eq:
  assumes "length (video c) = 4000"
  shows "scroll c = Inr (scrolled c)"
proof -
  have "length (video (c\<lparr>video := rows_up (video c)\<rparr>)) = 4000" using rows_up_nth [OF assms] by simp
  from clear_last_line_eq [OF this] show ?thesis
    by (simp add: scroll_def scroll_rows_eq [OF assms] scrolled_def)
qed

lemma scrolled_video:
  assumes "length (video c) = 4000"
  shows "length (video (scrolled c)) = 4000"
    "i < 4000 \<Longrightarrow> video (scrolled c) ! i =
      (if i < 3840 then video c ! (i + 160) else if even i then 32 else ucast (current_color c))"
  using rows_up_nth [OF assms] fold_pairs [of 3840 80 "rows_up (video c)" 32 "ucast (current_color c)"]
  by (auto simp: scrolled_def blank_last_def)

subsection \<open>The cursor invariant\<close>

definition cursor :: "console \<Rightarrow> nat" where
  "cursor c = unat (current c - VideoStart)"

definition console_ok :: "console \<Rightarrow> bool" where
  "console_ok c \<longleftrightarrow> length (video c) = 4000 \<and> cursor c < 3840 \<and> even (cursor c)"

lemma current_cursor: "current c = VideoStart + of_nat (cursor c)"
  by (simp add: cursor_def)

lemma cursor_set: "n < 2 ^ 64 \<Longrightarrow> cursor (c\<lparr>current := VideoStart + of_nat n\<rparr>) = n"
  by (simp add: cursor_def unat_of_nat_small)

lemma set_cursor_simps [simp]:
  "video (set_cursor c) = video c" "current (set_cursor c) = current c" "serial (set_cursor c) = serial c"
  "current_color (set_cursor c) = current_color c" "cursor (set_cursor c) = cursor c"
  by (simp_all add: set_cursor_def outb_def cursor_def Let_def)

lemma cursor_ge_iff:
  assumes "cursor c < 8000"
  shows "VideoStart + of_nat ((lines - 1) * cols) \<le> current c \<longleftrightarrow> 3840 \<le> cursor c"
proof -
  have "unat (current c) = 753664 + cursor c"
    using assms by (subst current_cursor) (simp add: layout unat_plus_if' unat_of_nat_small)
  then show ?thesis by (simp add: word_le_nat_alt layout)
qed

lemma cursor_scrolled:
  assumes "3840 \<le> cursor c" "cursor c < 8000"
  shows "cursor (scrolled c) = cursor c - 160"
proof -
  have "current c - of_nat cols = VideoStart + of_nat (cursor c - 160)"
    using assms by (subst current_cursor) (simp add: layout)
  then have "current (scrolled c) - VideoStart = of_nat (cursor c - 160)" by (simp add: scrolled_def)
  then show ?thesis unfolding cursor_def [of "scrolled c"]
    using assms by (simp only:) (rule unat_of_nat_small, simp)
qed

text \<open>With the cursor on the last line at most one scroll is needed.\<close>

lemma scroll_loop_eq:
  assumes "cursor c < 4000" "length (video c) = 4000"
  shows "scroll_loop c = Inr (if 3840 \<le> cursor c then scrolled c else c)"
proof (cases "3840 \<le> cursor c")
  case True
  have "cursor (scrolled c) = cursor c - 160" using True assms by (intro cursor_scrolled) simp_all
  moreover have "cursor c - 160 < 3840" using assms by linarith
  ultimately have "scroll_loop (scrolled c) = Inr (scrolled c)"
    using cursor_ge_iff [of "scrolled c"] by (subst scroll_loop.simps) (simp del: of_nat_mult)
  then show ?thesis
    using True assms cursor_ge_iff [of c] by (subst scroll_loop.simps) (simp add: scroll_eq del: of_nat_mult)
next
  case False
  with assms show ?thesis using cursor_ge_iff [of c] by (subst scroll_loop.simps) simp
qed

lemma poke_next:
  assumes "Suc i < length (video c)" "length (video c) \<le> 4000"
  shows "poke (VideoStart + of_nat i + 1) v c = Inr (c\<lparr>video := (video c)[Suc i := v]\<rparr>)"
  using poke_at [OF assms, of v] by (simp add: ac_simps)

text \<open>What the body of \<open>console_put\<close> does before scrolling, in terms of the cursor.\<close>

definition put_body :: "u8 \<Rightarrow> console \<Rightarrow> console" where
  "put_body ch c =
     (if ch = 10 then c\<lparr>current := VideoStart + of_nat ((cursor c div 160 + 1) * 160)\<rparr>
      else if ch = 8 then
        let n = cursor c - 2
        in c\<lparr>current := VideoStart + of_nat n, video := (video c)[n := 32, n + 1 := ucast (current_color c)]\<rparr>
      else c\<lparr>video := (video c)[cursor c := ch, cursor c + 1 := ucast (current_color c)],
             current := VideoStart + of_nat (cursor c + 2)\<rparr>)"

lemma serial_put_simps [simp]:
  "video (serial_put ch c) = video c" "current (serial_put ch c) = current c"
  "current_color (serial_put ch c) = current_color c" "serial (serial_put ch c) = serial c @ [ch]"
  "cursor (serial_put ch c) = cursor c"
  by (simp_all add: serial_put_def cursor_def)

lemma put_newline:
  assumes "cursor c < 3840"
  shows "VideoStart + ((current c + of_nat cols - VideoStart) div of_nat cols) * of_nat cols =
    VideoStart + of_nat ((cursor c div 160 + 1) * 160)"
proof -
  have "current c + of_nat cols - VideoStart = of_nat (cursor c + 160)"
    by (subst current_cursor) (simp add: layout)
  then have "unat (current c + of_nat cols - VideoStart) = cursor c + 160"
    using assms by (simp only:) (rule unat_of_nat_small, simp)
  then have "unat ((current c + of_nat cols - VideoStart) div of_nat cols) = cursor c div 160 + 1"
    by (simp add: unat_div_distrib layout)
  then have "(current c + of_nat cols - VideoStart) div of_nat cols = of_nat (cursor c div 160 + 1)"
    by (metis of_nat_unat ucast_id)
  then show ?thesis by (simp add: layout)
qed

lemma put_backspace:
  assumes "cursor c < 3840"
  shows "(if current c - 2 < VideoStart then VideoStart else current c - 2) = VideoStart + of_nat (cursor c - 2)"
proof -
  have u: "unat (current c) = 753664 + cursor c"
    using assms by (subst current_cursor) (simp add: layout unat_plus_if' unat_of_nat_small)
  then have u2: "unat (current c - 2) = 753662 + cursor c" by (simp add: unat_sub_if')
  show ?thesis
  proof (cases "2 \<le> cursor c")
    case True
    then have "current c - 2 = VideoStart + of_nat (cursor c - 2)"
      by (subst current_cursor) (simp add: of_nat_diff)
    moreover have "\<not> current c - 2 < VideoStart" using u2 True by (simp add: word_less_nat_alt layout)
    ultimately show ?thesis by simp
  next
    case False
    then have "current c - 2 < VideoStart" using u2 by (simp add: word_less_nat_alt layout)
    then show ?thesis using False by simp
  qed
qed

lemma console_put_eq:
  assumes ok: "console_ok c"
  shows "console_put ch c =
    bind_res (scroll_loop (put_body ch (serial_put ch c))) (\<lambda>c. Inr (set_cursor c))"
proof -
  have n: "cursor c < 3840" "length (video c) = 4000" "even (cursor c)" using ok by (auto simp: console_ok_def)
  let ?c = "serial_put ch c"
  have n': "cursor ?c < 3840" using n by simp
  consider "ch = 10" | "ch = 8" | "ch \<noteq> 10" "ch \<noteq> 8" by blast
  then show ?thesis
  proof cases
    case 1
    then show ?thesis using put_newline [OF n'] by (simp add: console_put_def put_body_def Let_def)
  next
    case 2
    have "poke (VideoStart + of_nat (cursor c - 2)) 32 (?c\<lparr>current := VideoStart + of_nat (cursor c - 2)\<rparr>) =
        Inr (?c\<lparr>current := VideoStart + of_nat (cursor c - 2), video := (video c)[cursor c - 2 := 32]\<rparr>)"
      using n by (simp add: poke_at)
    then show ?thesis
      unfolding console_put_def Let_def put_backspace [OF n']
      using 2 n poke_next [of "cursor c - 2"] by (simp add: put_body_def Let_def)
  next
    case 3
    have cur: "current c = VideoStart + of_nat (cursor c)" by (rule current_cursor)
    have "poke (current c) ch ?c = Inr (?c\<lparr>video := (video c)[cursor c := ch]\<rparr>)"
      unfolding cur using n by (simp add: poke_at)
    moreover have "poke (current c + 1) v d = Inr (d\<lparr>video := (video d)[Suc (cursor c) := v]\<rparr>)"
      if "length (video d) = 4000" for v d
      unfolding cur using that n by (intro poke_next) auto
    moreover have e: "VideoStart + (2 + of_nat (cursor c)) = current c + 2" by (subst cur) (simp add: ac_simps)
    ultimately show ?thesis
      using 3 n by (simp add: console_put_def put_body_def Let_def e)
  qed
qed

lemma put_body_cursor:
  assumes "console_ok c"
  shows "cursor (put_body ch c) = (if ch = 10 then (cursor c div 160 + 1) * 160
      else if ch = 8 then cursor c - 2 else cursor c + 2)"
    "length (video (put_body ch c)) = 4000"
    "cursor (put_body ch c) < 4000" "even (cursor (put_body ch c))"
proof -
  have n: "cursor c < 3840" "length (video c) = 4000" "even (cursor c)" using assms by (auto simp: console_ok_def)
  have "(cursor c div 160 + 1) * 160 < 4000" using n(1) by simp
  then show eq: "cursor (put_body ch c) = (if ch = 10 then (cursor c div 160 + 1) * 160
      else if ch = 8 then cursor c - 2 else cursor c + 2)"
    using n(1) cursor_set [of "(cursor c div 160 + 1) * 160"] cursor_set [of "cursor c - 2"] cursor_set [of "cursor c + 2"]
    by (simp add: put_body_def Let_def cursor_def del: of_nat_add of_nat_mult)
  show "length (video (put_body ch c)) = 4000" using n(2) by (simp add: put_body_def Let_def)
  show "cursor (put_body ch c) < 4000" "even (cursor (put_body ch c))"
    unfolding eq using n(1,3) \<open>_ < 4000\<close> by auto
qed

lemma console_put_scrolled:
  assumes ok: "console_ok c"
  shows "console_put ch c = Inr (set_cursor (let b = put_body ch (serial_put ch c)
    in if 3840 \<le> cursor b then scrolled b else b))"
proof -
  have "console_ok (serial_put ch c)" using ok by (simp add: console_ok_def)
  note b = put_body_cursor [OF this, of ch]
  show ?thesis using scroll_loop_eq [OF b(3,2)] by (simp add: console_put_eq [OF ok])
qed

lemma console_put_step:
  assumes ok: "console_ok c"
  shows "\<exists>c'. console_put ch c = Inr c' \<and> console_ok c' \<and> serial c' = serial c @ [ch] \<and>
    current_color c' = current_color c"
proof -
  let ?c = "serial_put ch c"
  let ?b = "put_body ch ?c"
  have ok': "console_ok ?c" using ok by (simp add: console_ok_def)
  note b = put_body_cursor [OF ok', of ch]
  let ?d = "if 3840 \<le> cursor ?b then scrolled ?b else ?b"
  have "console_ok ?d"
    using b scrolled_video [of ?b] cursor_scrolled [of ?b] by (auto simp: console_ok_def)
  moreover have "serial ?d = serial c @ [ch]" "current_color ?d = current_color c"
    by (simp_all add: scrolled_def put_body_def Let_def)
  ultimately show ?thesis using console_put_scrolled [OF ok, of ch] by (simp add: console_ok_def Let_def)
qed

text \<open>\<open>console_clear_screen\<close> blanks every character, keeps the colours and puts the cursor at the start.\<close>

lemma fold_even:
  fixes v :: "'a list"
  assumes "2 * n \<le> length v + 1"
  shows "length (fold (\<lambda>i v. v[2 * i := x]) [0..<n] v) = length v \<and>
    (\<forall>j < length v. fold (\<lambda>i v. v[2 * i := x]) [0..<n] v ! j = (if even j \<and> j < 2 * n then x else v ! j))"
  using assms
proof (induction n)
  case (Suc n)
  then show ?case by (auto simp: nth_list_update less_Suc_eq)
qed simp

lemma console_clear_screen_eq:
  assumes "length (video c) = 4000"
  shows "\<exists>c'. console_clear_screen c = Inr c' \<and> console_ok c' \<and> cursor c' = 0 \<and>
    (\<forall>j < 4000. video c' ! j = (if even j then 32 else video c ! j))"
proof -
  let ?w = "fold (\<lambda>i v. v[2 * i := 32]) [0..<2000] (video c)"
  have "for_each (\<lambda>i. poke (VideoStart + of_nat (2 * i)) 32) [0..<2000] c = Inr (c\<lparr>video := ?w\<rparr>) \<and> length ?w = 4000"
    by (rule for_each_video [OF _ assms refl]) (simp add: poke_at del: of_nat_mult)
  then have "console_clear_screen c = Inr (set_cursor (c\<lparr>video := ?w, current := VideoStart\<rparr>))" "length ?w = 4000"
    by (simp_all add: console_clear_screen_def layout)
  then show ?thesis using fold_even [of 2000 "video c" 32] assms
    by (simp add: console_ok_def cursor_def)
qed

subsection \<open>Output\<close>

text \<open>A routine emits \<open>out\<close>: it returns, keeps the console well formed and sends \<open>out\<close> to the serial line.\<close>

definition emits :: "console \<Rightarrow> u8 list \<Rightarrow> console res \<Rightarrow> bool" where
  "emits c out r \<longleftrightarrow> (\<exists>c'. r = Inr c' \<and> console_ok c' \<and> serial c' = serial c @ out)"

lemma emits_put [intro]: "console_ok c \<Longrightarrow> emits c [ch] (console_put ch c)"
  using console_put_step [of c ch] by (auto simp: emits_def)

lemma emits_bind:
  assumes "emits c o1 r" "\<And>c'. console_ok c' \<Longrightarrow> emits c' o2 (f c')"
  shows "emits c (o1 @ o2) (bind_res r f)"
  using assms by (fastforce simp: emits_def)

lemma emits_raw: "console_ok c \<Longrightarrow> emits c s (console_put_string_raw s c)"
proof (induction s arbitrary: c)
  case (Cons ch s)
  from emits_bind [OF emits_put [OF Cons.prems, of ch] Cons.IH] show ?case by simp
qed (simp add: emits_def)

text \<open>Hexadecimal digits, most significant first.\<close>

fun hex_digits :: "nat \<Rightarrow> 'w::len word \<Rightarrow> u8 list" where
  "hex_digits 0 v = []"
| "hex_digits (Suc n) v = hex (uint (drop_bit (4 * n) v AND 0xf)) # hex_digits n v"

lemma emits_nibbles: "console_ok c \<Longrightarrow> emits c (hex_digits n v) (put_nibbles n v c)"
proof (induction n arbitrary: c)
  case (Suc n)
  from emits_bind [OF emits_put [OF Suc.prems, of "hex (uint (drop_bit (4 * n) v AND 0xf))"] Suc.IH]
  show ?case by simp
qed (simp add: emits_def)

lemma decimal_rev_digits: "d \<in> set (decimal_rev n) \<Longrightarrow> 48 \<le> unat d \<and> unat d \<le> 57"
proof (induction n rule: decimal_rev.induct)
  case (1 n)
  show ?case
  proof (cases "n = 0")
    case False
    have "unat (of_nat (n mod 10 + 48) :: u8) = n mod 10 + 48" by (rule unat_of_nat_small) simp
    moreover have "d = of_nat (n mod 10 + 48) \<or> d \<in> set (decimal_rev (n div 10))"
      using "1.prems" False by (subst (asm) decimal_rev.simps) auto
    ultimately show ?thesis using "1.IH" [OF False] by auto
  qed (use "1.prems" in \<open>simp add: decimal_rev.simps\<close>)
qed

lemma put_dec_loop_eq:
  "length (decimal_rev (unat v)) \<le> k \<Longrightarrow> k \<le> length buf \<Longrightarrow>
     put_dec_loop v (int k - 1) buf =
       Inr (int k - 1 - int (length (decimal_rev (unat v))),
            take (k - length (decimal_rev (unat v))) buf @ rev (decimal_rev (unat v)) @ drop k buf)"
proof (induction "unat v" arbitrary: v k buf rule: less_induct)
  case less
  show ?case
  proof (cases "v = 0")
    case True
    then show ?thesis by (simp add: put_dec_loop.simps decimal_rev.simps)
  next
    case False
    let ?ds = "decimal_rev (unat (v div 10))"
    let ?d = "ucast (v mod 10) + 48 :: u8"
    have uv: "unat (v div 10) = unat v div 10" by (simp add: unat_div_distrib)
    have d: "of_nat (unat v mod 10 + 48) = ?d"
      by (simp add: word_unat_eq_iff unat_mod_distrib unsigned_ucast_eq unat_word_ariths take_bit_nat_eq_self unat_of_nat)
    have ds: "decimal_rev (unat v) = ?d # ?ds"
      using False by (subst decimal_rev.simps) (simp add: uv d [symmetric] unat_eq_zero)
    obtain j where k: "k = Suc j" "length ?ds \<le> j" "j < length buf" using less.prems ds by (cases k) auto
    have lt: "unat (v div 10) < unat v" using False by (simp add: uv unat_gt_0)
    have "put_dec_loop v (int k - 1) buf = put_dec_loop (v div 10) (int j - 1) (buf[j := ?d])"
      using False k(1) by (subst put_dec_loop.simps) simp
    also have "\<dots> = Inr (int j - 1 - int (length ?ds),
        take (j - length ?ds) (buf[j := ?d]) @ rev ?ds @ drop j (buf[j := ?d]))"
      using less.hyps [OF lt, of j "buf[j := ?d]"] k by simp
    also have "drop j (buf[j := ?d]) = ?d # drop k buf"
      using k by (simp add: Cons_nth_drop_Suc [symmetric])
    finally show ?thesis using ds k by simp
  qed
qed

lemma print_fmt_plain: "37 \<notin> set s \<Longrightarrow> print_fmt pd s [] c = console_put_string_raw s c"
  by (induction s arbitrary: c) (auto intro: bind_res_cong)

lemma decimal_rev_no_percent: "37 \<notin> set (decimal_rev n)" "0 \<notin> set (decimal_rev n)"
  using decimal_rev_digits [of 37 n] decimal_rev_digits [of 0 n] by auto

lemma put_dec_via_eq:
  "put_dec_via print v c = (if v = 0 then console_put 48 c else print (rev (decimal_rev (unat v))) c)"
proof (cases "v = 0")
  case False
  let ?ds = "decimal_rev (unat v)"
  have len: "length ?ds \<le> 10" using length_decimal [of v] False by (simp add: decimal_def unat_eq_zero)
  have "put_dec_loop v 9 (replicate 11 0) = Inr (9 - int (length ?ds),
      replicate (10 - length ?ds) 0 @ rev ?ds @ [0])"
    using put_dec_loop_eq [of v 10 "replicate 11 0"] len by simp
  moreover have "nat (9 - int (length ?ds) + 1) = 10 - length ?ds" using len by simp
  moreover have "takeWhile (\<lambda>b. b \<noteq> 0) (rev ?ds @ [0]) = rev ?ds"
    using decimal_rev_no_percent(2) [of "unat v"] by (subst takeWhile_append2) auto
  ultimately show ?thesis using False by (simp add: put_dec_via_def)
qed (simp add: put_dec_via_def)

lemma emits_dec:
  assumes "console_ok c"
  shows "emits c (decimal (unat v)) (console_put_dec v c)"
proof (cases "v = 0")
  case True
  then show ?thesis using assms by (auto simp: console_put_dec_def put_dec_via_eq decimal_def)
next
  case False
  then have "console_put_dec v c = console_put_string_raw (rev (decimal_rev (unat v))) c"
    using decimal_rev_no_percent by (simp add: console_put_dec_def put_dec_via_eq print_fmt_plain)
  then show ?thesis using emits_raw [OF assms] False by (simp add: decimal_def unat_eq_zero)
qed

text \<open>\<open>console_put_dec\<close> satisfies the recursive equation of the code.\<close>

lemma console_put_dec_rec: "console_put_dec = put_dec_via (\<lambda>s. console_print_string s [])"
  using decimal_rev_no_percent
  by (simp add: fun_eq_iff console_put_dec_def put_dec_via_eq print_fmt_plain console_print_string_def)

text \<open>What a format stands for: the text printed, or nothing when an argument is missing or wrong.\<close>

fun render :: "u8 list \<Rightarrow> fmt_arg list \<Rightarrow> u8 list option" where
  "render [] args = Some []"
| "render (ch # s) args =
     (if ch = 37 then
        case s of
          [] \<Rightarrow> None
        | f # s' \<Rightarrow>
            if f = 115 then (case args of AStr a # as \<Rightarrow> map_option (append a) (render s' as) | _ \<Rightarrow> None)
            else if f = 100 then (case args of AInt v # as \<Rightarrow> map_option (append (decimal (unat v))) (render s' as) | _ \<Rightarrow> None)
            else if f = 120 then (case args of AInt v # as \<Rightarrow> map_option (append (hex_digits 8 v)) (render s' as) | _ \<Rightarrow> None)
            else if f = 112 then (case args of APtr v # as \<Rightarrow> map_option (append (hex_digits 16 v)) (render s' as) | _ \<Rightarrow> None)
            else map_option (append [f]) (render s' args)
      else map_option (append [ch]) (render s args))"

definition prints :: "console \<Rightarrow> u8 list option \<Rightarrow> console res \<Rightarrow> bool" where
  "prints c t r \<longleftrightarrow> (case t of Some out \<Rightarrow> emits c out r | None \<Rightarrow> r = Inl (Fault OutOfBounds))"

lemma prints_bind:
  assumes "emits c o1 r" "\<And>c'. console_ok c' \<Longrightarrow> prints c' t (f c')"
  shows "prints c (map_option (append o1) t) (bind_res r f)"
proof (cases t)
  case None
  obtain c' where "r = Inr c'" "console_ok c'" using assms(1) by (auto simp: emits_def)
  then show ?thesis using assms(2) [of c'] None by (simp add: prints_def)
next
  case (Some out)
  then show ?thesis using emits_bind [of c o1 r out f] assms by (simp add: prints_def)
qed

lemma print_fmt_renders:
  "console_ok c \<Longrightarrow> prints c (render fmt args) (print_fmt console_put_dec fmt args c)"
proof (induction fmt args arbitrary: c rule: render.induct)
  case (1 args)
  then show ?case by (simp add: prints_def emits_def)
next
  case (2 ch s args)
  show ?case
  proof (cases "ch = 37")
    case False
    then show ?thesis using prints_bind [OF emits_put [OF "2.prems", of ch] "2.IH"(6)] by simp
  next
    case ch: True
    show ?thesis
    proof (cases s)
      case Nil
      obtain c' where "console_put 0 c = Inr c'" using emits_put [OF "2.prems", of 0] by (auto simp: emits_def)
      then show ?thesis using ch Nil by (simp add: prints_def)
    next
      case (Cons f s')
      note IH = "2.IH"(1-5) [OF ch Cons]
      have none: "prints c None (Inl (Fault OutOfBounds))" by (simp add: prints_def)
      consider "f = 115" | "f = 100" | "f = 120" | "f = 112" | "f \<noteq> 115" "f \<noteq> 100" "f \<noteq> 120" "f \<noteq> 112" by blast
      then show ?thesis
      proof cases
        case 1
        then show ?thesis using ch Cons none IH(1) emits_raw [OF "2.prems"]
          by (auto split: list.split fmt_arg.split intro!: prints_bind)
      next
        case 2
        then show ?thesis using ch Cons none IH(2) emits_dec [OF "2.prems"]
          by (auto split: list.split fmt_arg.split intro!: prints_bind)
      next
        case 3
        then show ?thesis using ch Cons none IH(3) emits_nibbles [OF "2.prems"]
          by (auto simp: console_put_hex_def split: list.split fmt_arg.split intro!: prints_bind)
      next
        case 4
        then show ?thesis using ch Cons none IH(4) emits_nibbles [OF "2.prems"]
          by (auto simp: console_put_hex64_def split: list.split fmt_arg.split intro!: prints_bind)
      next
        case 5
        then show ?thesis using ch Cons prints_bind [OF emits_put [OF "2.prems", of f] IH(5)] by simp
      qed
    qed
  qed
qed

subsection \<open>Reading hexadecimal digits back\<close>

definition hexval :: "u8 \<Rightarrow> nat" where
  "hexval b = (if 65 \<le> unat b then unat b - 55 else unat b - 48)"

definition parse_hex :: "u8 list \<Rightarrow> nat" where
  "parse_hex bs = foldl (\<lambda>acc b. 16 * acc + hexval b) 0 bs"

lemma hexval_hex:
  assumes "n < 16"
  shows "hexval (hex (int n)) = n"
proof (cases "n \<le> 9")
  case True
  have "unat (48 + of_nat n :: u8) = 48 + n"
    using True unat_of_nat_small [of "48 + n", where 'a = 8] by simp
  then show ?thesis using True by (simp add: hex_def hexval_def)
next
  case False
  define k where "k = n - 10"
  have k: "n = 10 + k" "k < 6" using False assms by (simp_all add: k_def)
  have "unat (65 + of_nat k :: u8) = 65 + k"
    using k(2) unat_of_nat_small [of "65 + k", where 'a = 8] by simp
  then show ?thesis using k by (simp add: hex_def hexval_def)
qed

lemma nibble: "uint (drop_bit (4 * n) v AND 0xf) = int (unat v div 16 ^ n mod 16)" for v :: "'w::len word"
proof -
  have "(0xf :: 'w word) = mask 4" by (simp add: mask_eq_exp_minus_1)
  then have "drop_bit (4 * n) v AND 0xf = take_bit 4 (drop_bit (4 * n) v)" by (simp add: take_bit_eq_mask)
  then have "unat (drop_bit (4 * n) v AND 0xf) = take_bit 4 (drop_bit (4 * n) (unat v))"
    using take_bit_nat_eq_self [OF unat_less_2p [of v]] by (simp add: unsigned_take_bit_eq unsigned_drop_bit_eq)
  also have "\<dots> = unat v div 16 ^ n mod 16"
    by (simp add: take_bit_eq_mod drop_bit_eq_div power_mult)
  finally show ?thesis unfolding uint_nat by simp
qed

lemma parse_hex_digits_aux:
  "foldl (\<lambda>acc b. 16 * acc + hexval b) a (hex_digits n v) = a * 16 ^ n + unat v mod 16 ^ n"
  for v :: "'w::len word"
proof (induction n arbitrary: a)
  case (Suc n)
  have hd: "hexval (hex (uint (drop_bit (4 * n) v AND 0xf))) = unat v div 16 ^ n mod 16"
    unfolding nibble by (rule hexval_hex) simp
  have "unat v mod 16 ^ Suc n = 16 ^ n * (unat v div 16 ^ n mod 16) + unat v mod 16 ^ n"
    using mod_mult2_eq [of "unat v" "16 ^ n" 16] by (simp add: mult.commute)
  then have "a * 16 ^ Suc n + unat v mod 16 ^ Suc n =
      (16 * a + unat v div 16 ^ n mod 16) * 16 ^ n + unat v mod 16 ^ n" by (simp add: algebra_simps)
  then show ?case using Suc [of "16 * a + unat v div 16 ^ n mod 16"] hd by simp
qed simp

lemma parse_hex_digits:
  "parse_hex (hex_digits 8 (v :: u32)) = unat v" "parse_hex (hex_digits 16 (w :: u64)) = unat w"
  using unat_less_2p [of v] unat_less_2p [of w] by (simp_all add: parse_hex_def parse_hex_digits_aux)

subsection \<open>Properties\<close>

text \<open>
  C24. The console never accesses memory outside the screen. From a well-formed console (4000
  bytes, the cursor at an even offset above the last line) \<open>console_put\<close> returns for every
  character, scrolling included, although each of its loads and stores is checked; the console
  is well formed again and the character is sent to the serial line. \<open>console_clear_screen\<close>
  returns too, with every character blank and the cursor at the start.
\<close>

theorem console_put_safe:
  assumes "console_ok c"
  shows "\<exists>c' c''. console_put ch c = Inr c' \<and> console_ok c' \<and> serial c' = serial c @ [ch] \<and>
    current_color c' = current_color c \<and>
    console_clear_screen c = Inr c'' \<and> console_ok c'' \<and> cursor c'' = 0 \<and>
    (\<forall>j < 4000. video c'' ! j = (if even j then 32 else video c ! j))"
  using console_put_step [OF assms, of ch] console_clear_screen_eq [of c] assms
  unfolding console_ok_def [of c] by blast

theorem console_put_safe_witness:
  "\<exists>c'. console_put 65 (console_boot (replicate 4000 0)) = Inr c' \<and> console_ok c'"
proof -
  have "console_ok (console_boot (replicate 4000 0))" by (simp add: console_ok_def console_boot_def cursor_def)
  from console_put_safe [OF this, of 65] show ?thesis by blast
qed

text \<open>
  A character other than newline and backspace is stored with the current colour at the
  cursor; the rest of the screen is unchanged unless the cursor reaches the last line, and
  then every line moves up by one and the last line is blank.
\<close>

theorem console_put_char:
  assumes ok: "console_ok c" and ch: "ch \<noteq> 10" "ch \<noteq> 8"
  defines "w \<equiv> (video c)[cursor c := ch, cursor c + 1 := ucast (current_color c)]"
  shows "\<exists>c'. console_put ch c = Inr c' \<and>
    (if cursor c + 2 < 3840 then video c' = w \<and> cursor c' = cursor c + 2
     else cursor c' = cursor c - 158 \<and> (\<forall>i < 4000. video c' ! i =
       (if i < 3840 then w ! (i + 160) else if even i then 32 else ucast (current_color c))))"
proof -
  let ?b = "put_body ch (serial_put ch c)"
  have ok': "console_ok (serial_put ch c)" using ok by (simp add: console_ok_def)
  note b = put_body_cursor [OF ok', of ch]
  have v: "video ?b = w" "current_color ?b = current_color c" "cursor ?b = cursor c + 2"
    using ch b(1) by (simp_all add: put_body_def w_def)
  have "console_put ch c = Inr (set_cursor (if 3840 \<le> cursor ?b then scrolled ?b else ?b))"
    using console_put_scrolled [OF ok, of ch] by (simp add: Let_def)
  then show ?thesis
    using v b scrolled_video [of ?b] cursor_scrolled [of ?b] by (auto simp del: One_nat_def)
qed

theorem console_put_char_witness:
  "\<exists>c'. console_put 65 (console_boot (replicate 4000 0)) = Inr c' \<and> cursor c' = 2 \<and>
     video c' = (replicate 4000 0)[0 := 65, 1 := 7]"
  using console_put_char [of "console_boot (replicate 4000 0)" 65]
  by (simp add: console_ok_def console_boot_def cursor_def del: add_2_eq_Suc') blast

text \<open>
  C27. \<open>console_print_string\<close> prints what the format denotes: s, d, x and p conversions consume
  one argument each, any other character after a percent sign is printed as it is; it
  returns for every format and fails exactly when an argument is missing or of the wrong
  kind, or the format ends in a percent sign.
\<close>

theorem console_print_string_renders:
  assumes "console_ok c"
  shows "case render fmt args of
      Some out \<Rightarrow> \<exists>c'. console_print_string fmt args c = Inr c' \<and> console_ok c' \<and> serial c' = serial c @ out
    | None \<Rightarrow> console_print_string fmt args c = Inl (Fault OutOfBounds)"
  using print_fmt_renders [OF assms, of fmt args]
  by (simp add: prints_def emits_def console_print_string_def split: option.splits)

theorem console_print_string_renders_witness:
  "\<exists>c'. console_print_string (str ''n=%d'') [AInt 42] (console_boot (replicate 4000 0)) = Inr c' \<and>
     serial c' = str ''n=42''"
proof -
  have "decimal_rev 42 = [50, 52]" by (simp add: decimal_rev.simps)
  then have "render (str ''n=%d'') [AInt 42] = Some (str ''n=42'')"
    by (simp add: str_def decimal_def)
  then show ?thesis
    using console_print_string_renders [of "console_boot (replicate 4000 0)" "str ''n=%d''" "[AInt 42]"]
    by (simp add: console_ok_def console_boot_def cursor_def) blast
qed

text \<open>
  C35. The numbers the console prints read back: the hexadecimal digits of a 32-bit and of a
  64-bit value and the decimal digits of a 32-bit value denote the value.
\<close>

theorem console_numbers_read_back:
  assumes "console_ok c"
  shows "\<exists>c1 c2 c3 hs ds ws. console_put_hex v c = Inr c1 \<and> serial c1 = serial c @ hs \<and> parse_hex hs = unat v \<and>
    console_put_dec v c = Inr c2 \<and> serial c2 = serial c @ ds \<and> parse_decimal ds = unat v \<and>
    console_put_hex64 w c = Inr c3 \<and> serial c3 = serial c @ ws \<and> parse_hex ws = unat w"
  using emits_nibbles [OF assms, of 8 v] emits_nibbles [OF assms, of 16 w] emits_dec [OF assms, of v]
    parse_hex_digits(1) [of v] parse_hex_digits(2) [of w] parse_decimal_decimal [of "unat v"]
  unfolding emits_def console_put_hex_def console_put_hex64_def by blast

theorem console_numbers_read_back_witness:
  "\<exists>c1 hs. console_put_hex 255 (console_boot (replicate 4000 0)) = Inr c1 \<and> serial c1 = hs \<and> parse_hex hs = 255"
  using console_numbers_read_back [of "console_boot (replicate 4000 0)" 255 0]
  by (auto simp: console_ok_def console_boot_def cursor_def)

end
