(* ===== verification/Interrupt.thy ===== *)
theory Interrupt
  imports KTask Console
begin

unbundle bit_operations_syntax

text \<open>
  Interrupt dispatch of src/src/interrupt.c: the table of handlers and the gates that
  \<open>init_interrupts\<close> creates. A handler is the address of its code; calling it is a parameter.
  \<open>create_gate\<close> is assembly in entry.asm: it stores an entry point in the IDT.
\<close>

datatype gate = Isr nat | Irq nat

record iworld = theap +
  con :: console
  idt :: "nat \<rightharpoonup> gate"

definition register_interrupt_handler :: "u8 \<Rightarrow> u64 \<Rightarrow> u64 \<Rightarrow> 'a theap_scheme \<Rightarrow> 'a theap_scheme" where
  "register_interrupt_handler n handler usr w =
     w\<lparr>interrupt_handlers := (interrupt_handlers w)(n := (handler, usr))\<rparr>"

definition isr_handler ::
  "(u64 \<Rightarrow> u64 \<Rightarrow> 'a iworld_scheme \<Rightarrow> 'a iworld_scheme res) \<Rightarrow> u8 \<Rightarrow> 'a iworld_scheme \<Rightarrow> 'a iworld_scheme res" where
  "isr_handler call n w =
     (let (handler, usr) = interrupt_handlers w n
      in if handler \<noteq> 0 then call handler usr w
         else bind_res (console_print_string (str ''Unhandled ISR %d'' @ [10, 32]) [AInt (ucast n)] (con w)) (\<lambda>c.
              bind_res (panic (str ''unhandled exception'') c) (\<lambda>_. Inl (Panic ''unhandled exception''))))"

definition irq_handler ::
  "(u64 \<Rightarrow> u64 \<Rightarrow> 'a theap_scheme \<Rightarrow> 'a theap_scheme res) \<Rightarrow> u8 \<Rightarrow> 'a theap_scheme \<Rightarrow> 'a theap_scheme res" where
  "irq_handler call n w =
     (let (handler, usr) = interrupt_handlers w n
      in if handler \<noteq> 0 then call handler usr w else Inr w)"

definition create_gate :: "nat \<Rightarrow> gate \<Rightarrow> 'a iworld_scheme \<Rightarrow> 'a iworld_scheme" where
  "create_gate n g w = w\<lparr>idt := (idt w)(n \<mapsto> g)\<rparr>"

definition init_interrupts :: "'a iworld_scheme \<Rightarrow> 'a iworld_scheme" where
  "init_interrupts w =
     (let w = disable_interrupts w;
          w = w\<lparr>con := outb 0xa1 0 (outb 0x21 0 (con w))\<rparr>;
          w = fold (\<lambda>x. create_gate (32 + x) (Irq x)) [0..<16] w;
          w = fold (\<lambda>x. create_gate x (Isr x)) [0..<20] w
      in enable_interrupts w)"

text \<open>A descriptor of the IDT as \<open>dump_idt\<close> reads it, and the state \<open>sidt\<close> returns.\<close>

record IdtDescr =
  offset_1 :: u16
  selector :: u16
  ist :: u8
  type_attr :: u8
  offset_2 :: u16
  offset_3 :: u32

definition idt_entry_point :: "IdtDescr \<Rightarrow> u64" where
  "idt_entry_point d = ucast (offset_1 d) OR push_bit 16 (ucast (offset_2 d)) OR push_bit 32 (ucast (offset_3 d))"

fun dump_entries :: "nat \<Rightarrow> IdtDescr list \<Rightarrow> console \<Rightarrow> console res" where
  "dump_entries i [] c = Inr c"
| "dump_entries i (d # ds) c =
     bind_res (console_print_string (str ''%d fn: %p, sel %x type %x'' @ [10])
         [AInt (of_nat i), APtr (idt_entry_point d), AInt (ucast (selector d)), AInt (ucast (type_attr d))] c)
       (dump_entries (Suc i) ds)"

definition dump_idt :: "u16 \<Rightarrow> u64 \<Rightarrow> (nat \<Rightarrow> IdtDescr) \<Rightarrow> console \<Rightarrow> console res" where
  "dump_idt limit ids descr c =
     bind_res (console_print_string (str ''IDTR: limit %d at %p'' @ [10]) [AInt (ucast limit), APtr ids] c)
       (dump_entries 0 (map descr [0..<16]))"

lemma fold_create_gate:
  "idt (fold (\<lambda>x. create_gate (b + x) (g x)) [0..<n] w) k =
     (if b \<le> k \<and> k < b + n then Some (g (k - b)) else idt w k)"
  by (induction n) (auto simp: create_gate_def less_Suc_eq)

text \<open>Every CPU exception and every IRQ has its own gate, and no other vector is touched.\<close>

lemma init_interrupts_idt:
  "idt (init_interrupts w) k =
     (if k < 20 then Some (Isr k) else if 32 \<le> k \<and> k < 48 then Some (Irq (k - 32)) else idt w k)"
  "irq_on (init_interrupts w)"
  by (simp_all add: init_interrupts_def enable_interrupts_def disable_interrupts_def Let_def
      fold_create_gate fold_create_gate [of 0, simplified])

end
