(* ===== verification/Keyboard.thy ===== *)
theory Keyboard
  imports Interrupt
begin

text \<open>
  The keyboard driver of src/src/keyboard.c: the interrupt pushes scan codes into a ring
  buffer of 32 bytes and enqueues the task that pops them and prints the keys. The waits on
  the controller status port are taken to end; what the breakpoint of a function key does
  is a parameter.
\<close>

unbundle bit_operations_syntax

subsection \<open>Tables and state\<close>

definition scancode :: "u8 list" where
  "scancode =
    [0, 27, 49, 50, 51, 52, 53, 54, 55, 56, 57, 48, 45, 61, 8, 9, 113, 119, 101, 114, 116,
     121, 117, 105, 111, 112, 91, 93, 10, 0, 97, 115, 100, 102, 103, 104, 106, 107, 108, 59,
     39, 96, 0, 92, 122, 120, 99, 118, 98, 110, 109, 44, 46, 47, 0, 42, 0, 32, 0, 70, 70, 70,
     70, 70, 70, 70, 70, 70, 70, 0, 0, 55, 56, 57, 52, 53, 54, 49, 50, 51, 48, 46, 0, 0, 0, 70,
     70, 0, 0, 0, 0]"

definition scancodeCap :: "u8 list" where
  "scancodeCap =
    [0, 0, 33, 64, 35, 36, 37, 94, 38, 42, 40, 41, 95, 43, 8, 9, 81, 87, 69, 82, 84, 89, 85,
     73, 79, 80, 123, 125, 10, 0, 65, 83, 68, 70, 71, 72, 74, 75, 76, 58, 34, 126, 0, 124, 90,
     88, 67, 86, 66, 78, 77, 60, 62, 63, 0, 42, 0, 32, 0, 70, 70, 70, 70, 70, 70, 70, 70, 70,
     70, 0, 0, 55, 56, 57, 52, 53, 54, 49, 50, 51, 48, 46, 0, 0, 0, 70, 70, 0, 0, 0, 0]"

datatype KeyState = UP | DOWN

record kbd_buffer =
  bdata :: "u8 list"
  br :: int
  bw :: int

record keyboard =
  shift :: KeyState
  control :: KeyState
  alt :: KeyState
  capsEnabled :: bool
  numEnabled :: bool
  scrollEnabled :: bool

record kworld = iworld +
  kb :: keyboard
  buffer :: kbd_buffer
  readKeybd :: u64

subsection \<open>The ring buffer\<close>

definition KeyboardBufferSize :: int where [layout]: "KeyboardBufferSize = 32"

definition buffer_init :: "kbd_buffer \<Rightarrow> kbd_buffer" where
  "buffer_init b = b\<lparr>br := 0, bw := 0\<rparr>"

definition buffer_has_data :: "kbd_buffer \<Rightarrow> bool" where
  "buffer_has_data b \<longleftrightarrow> br b \<noteq> bw b"

definition buffer_pop :: "kbd_buffer \<Rightarrow> (u8 \<times> kbd_buffer) res" where
  "buffer_pop b =
     (let b = (if br b + 1 = KeyboardBufferSize then b\<lparr>br := 0\<rparr> else b\<lparr>br := br b + 1\<rparr>)
      in if 0 \<le> br b \<and> nat (br b) < length (bdata b) then Inr (bdata b ! nat (br b), b)
         else Inl (Fault OutOfBounds))"

definition buffer_push :: "kbd_buffer \<Rightarrow> u8 \<Rightarrow> kbd_buffer res" where
  "buffer_push b c =
     (let b = (if bw b + 1 = KeyboardBufferSize then b\<lparr>bw := 0\<rparr> else b\<lparr>bw := bw b + 1\<rparr>)
      in if 0 \<le> bw b \<and> nat (bw b) < length (bdata b) then Inr (b\<lparr>bdata := (bdata b)[nat (bw b) := c]\<rparr>)
         else Inl (Fault OutOfBounds))"

subsection \<open>Keys\<close>

definition updateLedState :: "keyboard \<Rightarrow> console \<Rightarrow> console" where
  "updateLedState k c =
     (let state = (if capsEnabled k then 4 else 0) OR (if numEnabled k then 2 else 0) OR
            (if scrollEnabled k then 1 else 0)
      in outb 0x60 state (outb 0x60 0xed c))"

definition numLock :: "KeyState \<Rightarrow> keyboard \<times> console \<Rightarrow> keyboard \<times> console" where
  "numLock state s = (case s of (k, c) \<Rightarrow>
     if state = DOWN then let k = k\<lparr>numEnabled := \<not> numEnabled k\<rparr> in (k, updateLedState k c) else (k, c))"

definition scrollLock :: "KeyState \<Rightarrow> keyboard \<times> console \<Rightarrow> keyboard \<times> console" where
  "scrollLock state s = (case s of (k, c) \<Rightarrow>
     if state = DOWN then let k = k\<lparr>scrollEnabled := \<not> scrollEnabled k\<rparr> in (k, updateLedState k c) else (k, c))"

definition capsLock :: "KeyState \<Rightarrow> keyboard \<times> console \<Rightarrow> keyboard \<times> console" where
  "capsLock state s = (case s of (k, c) \<Rightarrow>
     if state = DOWN then let k = k\<lparr>capsEnabled := \<not> capsEnabled k\<rparr> in (k, updateLedState k c) else (k, c))"

definition fkey :: "(console \<Rightarrow> console res) \<Rightarrow> KeyState \<Rightarrow> console \<Rightarrow> console res" where
  "fkey int3 state c = (if state = DOWN then int3 c else Inr c)"

definition read_key ::
  "(console \<Rightarrow> console res) \<Rightarrow> u8 \<Rightarrow> keyboard \<times> console \<Rightarrow> (keyboard \<times> console) res" where
  "read_key int3 u s =
     (let (k, c) = s; dir = (if u AND 0x80 \<noteq> 0 then UP else DOWN); code = u AND 0x7f
      in if code = 0x1d then Inr (k\<lparr>control := dir\<rparr>, c)
         else if code = 0x38 then Inr (k\<lparr>alt := dir\<rparr>, c)
         else if code = 0x3a then Inr (capsLock dir (k, c))
         else if 0x3b \<le> code \<and> code \<le> 0x44 then bind_res (fkey int3 dir c) (\<lambda>c. Inr (k, c))
         else if code = 0x45 then Inr (numLock dir (k, c))
         else if code = 0x46 then Inr (scrollLock dir (k, c))
         else if code = 0x2a \<or> code = 0x36 then Inr (k\<lparr>shift := dir\<rparr>, c)
         else if code = 0 then bind_res (warn (str ''keyboard error'' @ [10]) c) (\<lambda>c. Inr (k, c))
         else if unat u < length scancode then
           let ch = (if capsEnabled k \<noteq> (shift k = DOWN) then scancodeCap ! unat u else scancode ! unat u)
           in if ch \<noteq> 0 then bind_res (console_put ch c) (\<lambda>c. Inr (k, c)) else Inr (k, c)
         else Inr (k, c))"

text \<open>\<open>while (buffer_has_data(&buffer)) read_key(buffer_pop(&buffer))\<close>\<close>

fun read_keys ::
  "(console \<Rightarrow> console res) \<Rightarrow> nat \<Rightarrow> kbd_buffer \<times> keyboard \<times> console \<Rightarrow> (kbd_buffer \<times> keyboard \<times> console) res" where
  "read_keys int3 0 s = (if buffer_has_data (fst s) then Inl (Fault Diverges) else Inr s)"
| "read_keys int3 (Suc fuel) (b, s) =
     (if buffer_has_data b then
        bind_res (buffer_pop b) (\<lambda>(u, b).
        bind_res (read_key int3 u s) (\<lambda>s. read_keys int3 fuel (b, s)))
      else Inr (b, s))"

text \<open>\<open>read_keys_fn\<close> and \<open>irq_fn\<close> are the addresses of \<open>read_keys\<close> and \<open>keyboard_irq\<close>.\<close>

definition init_keyboard :: "u64 \<Rightarrow> u64 \<Rightarrow> 'a kworld_scheme \<Rightarrow> 'a kworld_scheme res" where
  "init_keyboard read_keys_fn irq_fn w =
     bind_res (task_alloc w read_keys_fn 0) (\<lambda>(t, w).
     bind_res (add_ref (w\<lparr>readKeybd := t, buffer := buffer_init (buffer w)\<rparr>) t) (\<lambda>w.
       Inr (register_interrupt_handler 33 irq_fn 0 w)))"

text \<open>\<open>u\<close> is the byte read from port 0x60.\<close>

definition keyboard_irq :: "u8 \<Rightarrow> 'a kworld_scheme \<Rightarrow> 'a kworld_scheme res" where
  "keyboard_irq u w =
     bind_res (buffer_push (buffer w) u) (\<lambda>b. task_enqueue (w\<lparr>buffer := b\<rparr>) (readKeybd w))"

subsection \<open>The ring buffer as a queue\<close>

text \<open>The codes between the read and the write position; the buffer holds at most 31.\<close>

definition ring_ok :: "kbd_buffer \<Rightarrow> bool" where
  "ring_ok b \<longleftrightarrow> length (bdata b) = 32 \<and> 0 \<le> br b \<and> br b < 32 \<and> 0 \<le> bw b \<and> bw b < 32"

definition ring_count :: "kbd_buffer \<Rightarrow> nat" where
  "ring_count b = (if br b \<le> bw b then nat (bw b - br b) else nat (bw b + 32 - br b))"

definition ring_slot :: "kbd_buffer \<Rightarrow> nat \<Rightarrow> nat" where
  "ring_slot b i = (nat (br b) + 1 + i) mod 32"

definition ring_rep :: "kbd_buffer \<Rightarrow> u8 list \<Rightarrow> bool" where
  "ring_rep b xs \<longleftrightarrow> ring_ok b \<and> xs = map (\<lambda>i. bdata b ! ring_slot b i) [0..<ring_count b]"

lemma ring_rep_length: "ring_rep b xs \<Longrightarrow> length xs = ring_count b"
  by (simp add: ring_rep_def)

lemma ring_count_less: "ring_ok b \<Longrightarrow> ring_count b < 32"
  by (auto simp: ring_ok_def ring_count_def)

lemma wrap32: "n < 64 \<Longrightarrow> n mod 32 = (if n < 32 then n else n - 32)" for n :: nat
  by (simp add: mod_if)

lemma ring_nat:
  assumes "ring_ok b"
  obtains r w where "br b = int r" "bw b = int w" "r < 32" "w < 32" "length (bdata b) = 32"
    "ring_count b = (if r \<le> w then w - r else w + 32 - r)" "\<And>i. ring_slot b i = (r + 1 + i) mod 32"
proof -
  obtain r w where "br b = int r" "bw b = int w" using assms by (auto simp: ring_ok_def elim!: nonneg_int_cases)
  with assms that [of r w] show ?thesis by (auto simp: ring_ok_def ring_count_def ring_slot_def nat_diff_distrib' nat_add_distrib)
qed

definition wrap_next :: "int \<Rightarrow> int" where
  "wrap_next i = (if i = 31 then 0 else i + 1)"

lemma buffer_push_eq:
  assumes "ring_ok b"
  shows "buffer_push b c = Inr (b\<lparr>bw := wrap_next (bw b), bdata := (bdata b)[nat (wrap_next (bw b)) := c]\<rparr>)"
  using assms by (auto simp: buffer_push_def ring_ok_def layout Let_def wrap_next_def)

lemma buffer_pop_eq:
  assumes "ring_ok b"
  shows "buffer_pop b = Inr (bdata b ! nat (wrap_next (br b)), b\<lparr>br := wrap_next (br b)\<rparr>)"
  using assms by (auto simp: buffer_pop_def ring_ok_def layout Let_def wrap_next_def)

lemma ring_push:
  assumes rep: "ring_rep b xs" and room: "length xs < 31"
  shows "\<exists>b'. buffer_push b c = Inr b' \<and> ring_rep b' (xs @ [c])"
proof -
  let ?w = "nat (wrap_next (bw b))"
  let ?b = "b\<lparr>bw := wrap_next (bw b), bdata := (bdata b)[?w := c]\<rparr>"
  have ok: "ring_ok b" and xs: "xs = map (\<lambda>i. bdata b ! ring_slot b i) [0..<ring_count b]"
    using rep by (auto simp: ring_rep_def)
  have n: "ring_count b < 31" using room xs by simp
  obtain r w where rw: "br b = int r" "bw b = int w" "r < 32" "w < 32" "length (bdata b) = 32"
    "ring_count b = (if r \<le> w then w - r else w + 32 - r)" "\<And>i. ring_slot b i = (r + 1 + i) mod 32"
    using ring_nat [OF ok] by blast
  have w': "?w = (if w = 31 then 0 else w + 1)" using rw by (simp add: wrap_next_def nat_add_distrib)
  have ok': "ring_ok ?b" using rw by (auto simp: ring_ok_def wrap_next_def)
  have cnt: "ring_count ?b = Suc (ring_count b)"
    using n rw by (auto simp: ring_count_def wrap_next_def split: if_splits)
  have slot: "ring_slot ?b i = ring_slot b i" for i by (simp add: ring_slot_def)
  have last: "ring_slot b (ring_count b) = ?w" unfolding w' using n rw by (auto simp: wrap32)
  have other: "ring_slot b i \<noteq> ?w" if "i < ring_count b" for i
    unfolding w' using that n rw by (auto simp: wrap32 split: if_splits)
  have "bdata ?b ! ring_slot ?b i = (if i = ring_count b then c else bdata b ! ring_slot b i)" if "i \<le> ring_count b" for i
    using that last other [of i] rw(5) w' rw(4) unfolding slot by (auto simp: nth_list_update)
  then have "map (\<lambda>i. bdata ?b ! ring_slot ?b i) [0..<ring_count ?b] = xs @ [c]"
    unfolding cnt xs by simp
  then have "ring_rep ?b (xs @ [c])" using ok' unfolding ring_rep_def by metis
  then show ?thesis using buffer_push_eq [OF ok] by blast
qed

lemma ring_pop:
  assumes rep: "ring_rep b (x # xs)"
  shows "\<exists>b'. buffer_pop b = Inr (x, b') \<and> ring_rep b' xs \<and> buffer_has_data b"
proof -
  let ?b = "b\<lparr>br := wrap_next (br b)\<rparr>"
  have ok: "ring_ok b" and xs: "x # xs = map (\<lambda>i. bdata b ! ring_slot b i) [0..<ring_count b]"
    using rep by (auto simp: ring_rep_def)
  obtain m where m: "ring_count b = Suc m" using xs by (cases "ring_count b") auto
  have x: "x = bdata b ! ring_slot b 0" and tl: "xs = map (\<lambda>i. bdata b ! ring_slot b (Suc i)) [0..<m]"
    using xs unfolding m by (simp_all add: upt_rec [of 0] map_Suc_upt [symmetric] comp_def del: upt_Suc)
  obtain r w where rw: "br b = int r" "bw b = int w" "r < 32" "w < 32" "length (bdata b) = 32"
    "ring_count b = (if r \<le> w then w - r else w + 32 - r)" "\<And>i. ring_slot b i = (r + 1 + i) mod 32"
    using ring_nat [OF ok] by blast
  have r': "nat (wrap_next (br b)) = (if r = 31 then 0 else r + 1)" using rw by (simp add: wrap_next_def nat_add_distrib)
  have ok': "ring_ok ?b" using rw by (auto simp: ring_ok_def wrap_next_def)
  have "ring_count ?b = m" using m rw by (auto simp: ring_count_def wrap_next_def split: if_splits)
  moreover have "ring_slot ?b i = ring_slot b (Suc i)" if "i < m" for i
  proof -
    have "ring_slot ?b i = ((if r = 31 then 0 else r + 1) + 1 + i) mod 32"
      unfolding ring_slot_def using r' by simp
    then show ?thesis using that m rw by (auto simp: wrap32 split: if_splits)
  qed
  ultimately have "ring_rep ?b xs" using ok' by (simp add: ring_rep_def tl)
  moreover have "nat (wrap_next (br b)) = ring_slot b 0" unfolding r' using rw by (simp add: wrap32)
  moreover have "buffer_has_data b" using m rw by (auto simp: buffer_has_data_def split: if_splits)
  ultimately show ?thesis using buffer_pop_eq [OF ok] x by auto
qed

lemma ring_empty: "ring_rep b [] \<Longrightarrow> \<not> buffer_has_data b"
  by (auto simp: ring_rep_def ring_count_def ring_ok_def buffer_has_data_def split: if_splits)

interpretation keyboard_fifo: fifo ring_rep "\<lambda>b c. ring_count b < 31" buffer_push
  "\<lambda>b. if buffer_has_data b then bind_res (buffer_pop b) (\<lambda>(c, b). Inr (Some c, b)) else Inr (None, b)"
proof
  fix b c xs
  show "\<exists>b'. buffer_push b c = Inr b' \<and> ring_rep b' (xs @ [c])" if "ring_rep b xs" "ring_count b < 31"
    using ring_push [OF that(1)] ring_rep_length [OF that(1)] that(2) by simp
  show "(if buffer_has_data b then bind_res (buffer_pop b) (\<lambda>(c, b). Inr (Some c, b)) else Inr (None, b)) = Inr (None, b)"
    if "ring_rep b []" using ring_empty [OF that] by simp
  show "\<exists>b'. (if buffer_has_data b then bind_res (buffer_pop b) (\<lambda>(c, b). Inr (Some c, b)) else Inr (None, b)) =
      Inr (Some c, b') \<and> ring_rep b' xs" if "ring_rep b (c # xs)"
    using ring_pop [OF that] by auto
qed

lemma ring_overflow:
  assumes rep: "ring_rep b xs" and full: "length xs = 31"
  shows "\<exists>b'. buffer_push b c = Inr b' \<and> ring_rep b' []"
proof -
  let ?b = "b\<lparr>bw := wrap_next (bw b), bdata := (bdata b)[nat (wrap_next (bw b)) := c]\<rparr>"
  have ok: "ring_ok b" using rep by (simp add: ring_rep_def)
  have n: "ring_count b = 31" using full ring_rep_length [OF rep] by simp
  obtain r w where rw: "br b = int r" "bw b = int w" "r < 32" "w < 32" "length (bdata b) = 32"
    "ring_count b = (if r \<le> w then w - r else w + 32 - r)"
    using ring_nat [OF ok] by blast
  then have "ring_count ?b = 0" using n by (auto simp: ring_count_def wrap_next_def split: if_splits)
  moreover have "ring_ok ?b" using rw by (auto simp: ring_ok_def wrap_next_def)
  ultimately show ?thesis using buffer_push_eq [OF ok] by (simp add: ring_rep_def)
qed

text \<open>The letter keys: those whose lower-case table entry is a letter.\<close>

definition letter_key :: "nat \<Rightarrow> bool" where
  "letter_key i \<longleftrightarrow> i < 91 \<and> 97 \<le> unat (scancode ! i) \<and> unat (scancode ! i) \<le> 122"

lemma letter_keys: "letter_key i \<Longrightarrow> i \<in> {16..25} \<union> {30..38} \<union> {44..50}"
proof -
  have "list_all (\<lambda>i. 97 \<le> unat (scancode ! i) \<and> unat (scancode ! i) \<le> 122 \<longrightarrow>
      i \<in> {16..25} \<union> {30..38} \<union> {44..50}) [0..<91]"
    by (simp add: upt_rec scancode_def)
  then show "letter_key i \<Longrightarrow> i \<in> {16..25} \<union> {30..38} \<union> {44..50}"
    by (auto simp: letter_key_def list_all_iff)
qed

lemma letter_tables: "letter_key i \<Longrightarrow> scancodeCap ! i = scancode ! i - 32"
proof -
  have "list_all (\<lambda>i. 97 \<le> unat (scancode ! i) \<and> unat (scancode ! i) \<le> 122 \<longrightarrow>
      scancodeCap ! i = scancode ! i - 32) [0..<91]"
    by (simp add: upt_rec scancode_def scancodeCap_def)
  then show "letter_key i \<Longrightarrow> scancodeCap ! i = scancode ! i - 32"
    by (auto simp: letter_key_def list_all_iff)
qed

lemma low_code:
  assumes "unat (u :: u8) < 128"
  shows "u AND 0x80 = 0" "u AND 0x7f = u"
proof -
  have "(0x7f :: u8) = mask 7" by (simp add: mask_eq_exp_minus_1)
  moreover have "take_bit 7 u = u"
    using assms by (simp add: word_unat_eq_iff unsigned_take_bit_eq take_bit_nat_eq_self)
  ultimately show 7: "u AND 0x7f = u" using take_bit_eq_mask [of 7 u] by simp
  have "(0x7f :: u8) AND 0x80 = 0" by simp
  then show "u AND 0x80 = 0" by (metis 7 and.assoc and_zero_eq)
qed

lemma read_key_letter_eq:
  fixes k :: keyboard
  assumes l: "letter_key (unat u)" and ok: "console_ok c"
  defines "ch \<equiv> if capsEnabled k \<noteq> (shift k = DOWN) then scancode ! unat u - 32 else scancode ! unat u"
  shows "\<exists>c'. read_key int3 u (k, c) = Inr (k, c') \<and> console_ok c' \<and> serial c' = serial c @ [ch]"
proof -
  let ?s = "scancode ! unat u"
  have r: "unat u \<in> {16..25} \<union> {30..38} \<union> {44..50}" by (rule letter_keys [OF l])
  then have u: "u AND 0x80 = 0" "u AND 0x7f = u" using low_code [of u] by auto
  have ne: "u \<noteq> 0x1d" "u \<noteq> 0x38" "u \<noteq> 0x3a" "\<not> 0x3b \<le> u" "u \<noteq> 0x45" "u \<noteq> 0x46" "u \<noteq> 0x2a" "u \<noteq> 0x36" "u \<noteq> 0"
    using r by (auto simp: word_le_nat_alt)
  have len: "unat u < length scancode" using r by (auto simp: scancode_def)
  have "97 \<le> unat ?s" "unat ?s \<le> 122" using l by (auto simp: letter_key_def)
  then have "?s \<noteq> 0" "unat (?s - 32) = unat ?s - 32" by (auto simp: unat_sub_if')
  then have "ch \<noteq> 0" using \<open>97 \<le> unat ?s\<close> by (auto simp: ch_def)
  moreover have "read_key int3 u (k, c) = (if ch \<noteq> 0 then bind_res (console_put ch c) (\<lambda>c. Inr (k, c)) else Inr (k, c))"
    using ne len letter_tables [OF l] by (simp add: read_key_def u ch_def Let_def)
  moreover obtain c' where "console_put ch c = Inr c'" "console_ok c'" "serial c' = serial c @ [ch]"
    using console_put_step [OF ok] by blast
  ultimately show ?thesis by auto
qed

subsection \<open>Properties\<close>

text \<open>
  C25. The keyboard buffer is first in, first out while it holds fewer than 31 codes: a code
  that is pushed comes out after the codes already there, and then the buffer is empty.
\<close>

theorem keyboard_buffer_fifo:
  assumes "ring_rep b xs" "length xs < 31"
  shows "\<exists>b' b''. buffer_push b c = Inr b' \<and> ring_rep b' (xs @ [c]) \<and>
    keyboard_fifo.drain (Suc (length xs)) b' = Inr (xs @ [c], b'') \<and> \<not> buffer_has_data b''"
proof -
  obtain b' where b': "buffer_push b c = Inr b'" "ring_rep b' (xs @ [c])"
    using ring_push [OF assms] by blast
  obtain b'' where "keyboard_fifo.drain (Suc (length xs)) b' = Inr (xs @ [c], b'')" "ring_rep b'' []"
    using keyboard_fifo.drain_all [OF b'(2), of "Suc (length xs)"] by auto
  then show ?thesis using b' ring_empty by blast
qed

theorem keyboard_buffer_fifo_witness:
  "\<exists>b' b''. buffer_push \<lparr>bdata = replicate 32 0, br = 31, bw = 31\<rparr> 30 = Inr b' \<and>
     keyboard_fifo.drain (Suc 0) b' = Inr ([] @ [30], b'')"
proof -
  have "ring_rep \<lparr>bdata = replicate 32 0, br = 31, bw = 31\<rparr> []" "length ([] :: u8 list) < 31"
    by (simp_all add: ring_rep_def ring_ok_def ring_count_def)
  from keyboard_buffer_fifo [OF this, of 30] show ?thesis unfolding list.size by blast
qed

text \<open>
  Pushing a code into a buffer that already holds 31 makes it look empty: the write
  position meets the read position and all 32 codes are lost.
\<close>

theorem keyboard_buffer_overflow:
  assumes "ring_rep b xs" "length xs = 31"
  shows "\<exists>b'. buffer_push b c = Inr b' \<and> ring_rep b' []"
  using assms by (rule ring_overflow)

theorem keyboard_buffer_overflow_witness:
  "\<exists>b'. buffer_push \<lparr>bdata = replicate 32 7, br = 0, bw = 31\<rparr> 30 = Inr b' \<and> ring_rep b' []"
  by (rule keyboard_buffer_overflow [of _ "map (\<lambda>i. replicate 32 7 ! ((Suc i) mod 32)) [0..<31]"])
    (simp_all add: ring_rep_def ring_ok_def ring_count_def ring_slot_def)

text \<open>
  Pressing a letter key prints the letter, in upper case exactly when one of shift and
  caps lock is active but not both; the key state is unchanged.
\<close>

theorem read_key_letter:
  assumes "letter_key (unat u)" "console_ok c"
  shows "\<exists>c'. read_key int3 u (k, c) = Inr (k, c') \<and> console_ok c' \<and> serial c' = serial c @
    [if capsEnabled k \<noteq> (shift k = DOWN) then scancode ! unat u - 32 else scancode ! unat u]"
  using assms by (rule read_key_letter_eq)

theorem read_key_letter_witness:
  "\<exists>c'. read_key Inr 30 (\<lparr>shift = DOWN, control = UP, alt = UP, capsEnabled = False, numEnabled = False, scrollEnabled = False\<rparr>,
       console_boot (replicate 4000 0)) =
     Inr (\<lparr>shift = DOWN, control = UP, alt = UP, capsEnabled = False, numEnabled = False, scrollEnabled = False\<rparr>, c') \<and>
     serial c' = [65]"
  using read_key_letter [of 30 "console_boot (replicate 4000 0)" Inr
      "\<lparr>shift = DOWN, control = UP, alt = UP, capsEnabled = False, numEnabled = False, scrollEnabled = False\<rparr>"]
  by (simp add: letter_key_def scancode_def console_ok_def console_boot_def cursor_def) blast

end
