(* ===== verification/NetBytes.thy ===== *)
theory NetBytes
  imports Prelude
begin

text \<open>
  Byte order and checksum of the network code: src/src/net/ntox.h and the inline \<open>checksum\<close> of
  src/src/net/ip.h, with reads and writes of struct fields in a byte list, as the network
  code does them through pointers into packets.
\<close>

unbundle bit_operations_syntax

subsection \<open>Byte order (ntox.h)\<close>

definition ntos :: "u16 \<Rightarrow> u16" where
  "ntos x = push_bit 8 x OR drop_bit 8 x"

definition ntol :: "u32 \<Rightarrow> u32" where
  "ntol x = push_bit 16 (ucast (ntos (ucast x))) OR ucast (ntos (ucast (drop_bit 16 x)))"

text \<open>A conversion that undoes itself, as host and network order do.\<close>

locale byte_swap =
  fixes swap :: "'w::len word \<Rightarrow> 'w word"
  assumes swap_swap: "swap (swap x) = x"
begin

lemma swap_eq_iff: "swap x = swap y \<longleftrightarrow> x = y"
  using swap_swap by metis

lemma swap_eq_swap: "swap x = y \<longleftrightarrow> x = swap y"
  using swap_swap by metis

end

lemma bit_ntos: "bit (ntos x) k \<longleftrightarrow> k < 16 \<and> bit x (if k < 8 then k + 8 else k - 8)"
  by (auto simp: ntos_def bit_or_iff bit_push_bit_iff bit_drop_bit_eq add.commute dest: bit_imp_le_length)

lemma bit_ntol:
  "bit (ntol x) k \<longleftrightarrow> k < 32 \<and> bit x (8 * (3 - k div 8) + k mod 8)"
proof (cases "k < 32")
  case True
  have *: "bit (ntol x) (8 * q + j) \<longleftrightarrow> bit x (8 * (3 - q) + j)" if "q < 4" "j < 8" for q j
  proof -
    have "q = 0 \<or> q = 1 \<or> q = 2 \<or> q = 3" using that(1) by linarith
    then show ?thesis
      using that(2) by (elim disjE) (auto simp: ntol_def bit_or_iff bit_push_bit_iff bit_ucast_iff bit_ntos bit_drop_bit_eq add.commute)
  qed
  show ?thesis using * [of "k div 8" "k mod 8"] True by simp
qed (use bit_imp_le_length [of "ntol x" k] in auto)

interpretation ntos: byte_swap ntos
proof
  fix x :: u16
  show "ntos (ntos x) = x" by (rule bit_word_eqI) (auto simp: bit_ntos)
qed

interpretation ntol: byte_swap ntol
proof
  fix x :: u32
  show "ntol (ntol x) = x"
  proof (rule bit_word_eqI)
    fix k assume k: "k < LENGTH(32)"
    have "3 - (3 - k div 8) = k div 8" "(8 * (3 - k div 8) + k mod 8) div 8 = 3 - k div 8"
      "(8 * (3 - k div 8) + k mod 8) mod 8 = k mod 8"
      using k by auto
    moreover have "8 * (3 - k div 8) + k mod 8 < 32" using mod_less_divisor [of 8 k] by linarith
    ultimately show "bit (ntol (ntol x)) k \<longleftrightarrow> bit x k" using k by (simp add: bit_ntol)
  qed
qed

text \<open>Stored in memory, a converted value has its most significant byte first.\<close>

lemma split_ntos: "split_le 2 (ntos x) = rev (split_le 2 x)"
proof (rule nth_equalityI)
  fix i assume "i < length (split_le 2 (ntos x))"
  then have i: "i < 2" by simp
  have "byte_at (ntos x) i = byte_at x (1 - i)"
  proof (rule bit_word_eqI)
    fix k assume "k < LENGTH(8)"
    moreover have "i = 0 \<or> i = 1" using i by linarith
    ultimately show "bit (byte_at (ntos x) i) k \<longleftrightarrow> bit (byte_at x (1 - i)) k"
      by (elim disjE) (simp_all add: bit_byte_at bit_ntos add.commute)
  qed
  then show "split_le 2 (ntos x) ! i = rev (split_le 2 x) ! i" using i by (simp add: rev_nth)
qed simp

lemma split_ntol: "split_le 4 (ntol x) = rev (split_le 4 x)"
proof (rule nth_equalityI)
  fix i assume "i < length (split_le 4 (ntol x))"
  then have i: "i < 4" by simp
  have "byte_at (ntol x) i = byte_at x (3 - i)"
  proof (rule bit_word_eqI)
    fix k assume k: "k < LENGTH(8)"
    then have "(8 * i + k) div 8 = i" "(8 * i + k) mod 8 = k" by simp_all
    then show "bit (byte_at (ntol x) i) k \<longleftrightarrow> bit (byte_at x (3 - i)) k"
      using i k by (simp add: bit_byte_at bit_ntol)
  qed
  then show "split_le 4 (ntol x) ! i = rev (split_le 4 x) ! i" using i by (simp add: rev_nth)
qed simp

subsection \<open>Fields of a packet\<close>

definition get_bytes :: "u8 list \<Rightarrow> nat \<Rightarrow> nat \<Rightarrow> u8 list res" where
  "get_bytes d i n = (if i + n \<le> length d then Inr (take n (drop i d)) else Inl (Fault OutOfBounds))"

definition get8 :: "u8 list \<Rightarrow> nat \<Rightarrow> u8 res" where
  "get8 d i = (if i < length d then Inr (d ! i) else Inl (Fault OutOfBounds))"

definition get16 :: "u8 list \<Rightarrow> nat \<Rightarrow> u16 res" where
  "get16 d i = bind_res (get_bytes d i 2) (\<lambda>bs. Inr (join_le bs))"

definition get32 :: "u8 list \<Rightarrow> nat \<Rightarrow> u32 res" where
  "get32 d i = bind_res (get_bytes d i 4) (\<lambda>bs. Inr (join_le bs))"

definition put_bytes :: "nat \<Rightarrow> u8 list \<Rightarrow> u8 list \<Rightarrow> u8 list res" where
  "put_bytes i bs d = (if i + length bs \<le> length d then Inr (take i d @ bs @ drop (i + length bs) d)
     else Inl (Fault OutOfBounds))"

definition put8 :: "nat \<Rightarrow> u8 \<Rightarrow> u8 list \<Rightarrow> u8 list res" where
  "put8 i v = put_bytes i [v]"

definition put16 :: "nat \<Rightarrow> u16 \<Rightarrow> u8 list \<Rightarrow> u8 list res" where
  "put16 i v = put_bytes i (split_le 2 v)"

definition put32 :: "nat \<Rightarrow> u32 \<Rightarrow> u8 list \<Rightarrow> u8 list res" where
  "put32 i v = put_bytes i (split_le 4 v)"

text \<open>Assignments to the fields of the struct at offset \<open>h\<close>, in order: offset in the struct and bytes.\<close>

fun put_fields :: "nat \<Rightarrow> (nat \<times> u8 list) list \<Rightarrow> u8 list \<Rightarrow> u8 list res" where
  "put_fields h [] d = Inr d"
| "put_fields h ((off, bs) # fs) d = bind_res (put_bytes (h + off) bs d) (put_fields h fs)"

abbreviation b16 :: "u16 \<Rightarrow> u8 list" where "b16 \<equiv> split_le 2"
abbreviation b32 :: "u32 \<Rightarrow> u8 list" where "b32 \<equiv> split_le 4"

named_theorems packet \<open>reading back the fields of a packet\<close>

text \<open>A run of adjacent writes is one write of the concatenation.\<close>

lemma put_bytes_append:
  "bind_res (put_bytes i xs d) (put_bytes (i + length xs) ys) = put_bytes i (xs @ ys) d"
  by (cases xs) (auto simp: put_bytes_def min_def ac_simps)

lemma length_put_bytes [packet]: "put_bytes i bs d = Inr d' \<Longrightarrow> length d' = length d"
  by (auto simp: put_bytes_def split: if_splits)

text \<open>Fields that lie one after the other from offset \<open>off\<close> on.\<close>

fun adjacent :: "nat \<Rightarrow> (nat \<times> u8 list) list \<Rightarrow> bool" where
  "adjacent off [] \<longleftrightarrow> True"
| "adjacent off ((o', bs) # fs) \<longleftrightarrow> o' = off \<and> adjacent (off + length bs) fs"

lemma put_fields_adjacent:
  assumes "adjacent off fs" "h + off + length (concat (map snd fs)) \<le> length d"
  shows "put_fields h fs d = put_bytes (h + off) (concat (map snd fs)) d"
  using assms
proof (induction fs arbitrary: off d)
  case Nil
  then show ?case by (simp add: put_bytes_def)
next
  case (Cons f fs)
  obtain bs where f: "f = (off, bs)" using Cons.prems(1) by (cases f) auto
  from Cons.prems obtain d' where d': "put_bytes (h + off) bs d = Inr d'" "length d' = length d"
    by (simp add: f put_bytes_def)
  have "put_fields h fs d' = put_bytes (h + (off + length bs)) (concat (map snd fs)) d'"
    using Cons.prems d'(2) by (intro Cons.IH) (simp_all add: f)
  then show ?case
    using put_bytes_append [of "h + off" bs d "concat (map snd fs)"] d'(1) by (simp add: f add.assoc)
qed

lemma take_put_bytes: "put_bytes i bs d = Inr d' \<Longrightarrow> get_bytes d' i (length bs) = Inr bs"
  by (auto simp: put_bytes_def get_bytes_def split: if_splits)

subsection \<open>The Internet checksum (ip.h)\<close>

text \<open>The loop over the words of the buffer; an odd length reads one byte past it.\<close>

function csum_loop :: "u8 list \<Rightarrow> nat \<Rightarrow> nat \<Rightarrow> u32 \<Rightarrow> u32 res" where
  "csum_loop d len i acc =
     (if i < len then
        bind_res (get8 d i) (\<lambda>hi.
        bind_res (get8 d (i + 1)) (\<lambda>lo.
          csum_loop d len (i + 2) (acc + ucast ((push_bit 8 (ucast hi) AND 0xff00) + (ucast lo AND 0xff) :: u16))))
      else Inr acc)"
  by pat_completeness auto
termination
  by (relation "measure (\<lambda>(d, len, i, acc). len - i)") auto

lemma unat_high16: "unat (drop_bit 16 s) = unat s div 65536" for s :: u32
  by (simp add: drop_bit_eq_div unat_div_distrib)

lemma unat_low16: "unat (s AND 0xffff) = unat s mod 65536" for s :: u32
proof -
  have "(0xffff :: u32) = mask 16" by (simp add: mask_eq_exp_minus_1)
  then have "s AND 0xffff = take_bit 16 s" by (simp add: take_bit_eq_mask)
  then show ?thesis by (simp add: unsigned_take_bit_eq take_bit_eq_mod unat_mod_distrib)
qed

lemma unat_fold_step:
  "unat ((s AND 0xffff) + drop_bit 16 s) = unat s mod 65536 + unat s div 65536" for s :: u32
proof -
  have "unat s mod 65536 + unat s div 65536 \<le> unat s"
    using mult_div_mod_eq [of 65536 "unat s"] by linarith
  then show ?thesis using unat_less_2p [of s] by (simp add: unat_plus_if' unat_high16 unat_low16)
qed

function csum_fold :: "u32 \<Rightarrow> u32" where
  "csum_fold s = (if drop_bit 16 s \<noteq> 0 then csum_fold ((s AND 0xffff) + drop_bit 16 s) else s)"
  by pat_completeness auto
termination
proof (relation "measure unat")
  fix s :: u32 assume nz: "drop_bit 16 s \<noteq> 0"
  have "unat s div 65536 \<noteq> 0" using nz unat_high16 [of s] by (metis unat_eq_zero)
  then have "unat s mod 65536 + unat s div 65536 < unat s"
    using mult_div_mod_eq [of 65536 "unat s"] by linarith
  then show "((s AND 0xffff) + drop_bit 16 s, s) \<in> measure unat" by (simp add: unat_fold_step)
qed simp

declare csum_loop.simps [simp del] csum_fold.simps [simp del]

text \<open>\<open>checksum(buf, len, dest)\<close> with \<open>dest\<close> at offset \<open>k\<close> of the buffer: the buffer with the result stored.\<close>

definition checksum :: "u8 list \<Rightarrow> nat \<Rightarrow> nat \<Rightarrow> u8 list res" where
  "checksum d len k =
     bind_res (put16 k 0 d) (\<lambda>d.
     bind_res (csum_loop d len 0 0) (\<lambda>acc.
       put16 k (ntos (ucast (NOT (csum_fold acc)))) d))"

subsection \<open>One's complement arithmetic\<close>

text \<open>The sum of the big-endian 16-bit words of a buffer.\<close>

fun be_sum :: "u8 list \<Rightarrow> nat" where
  "be_sum (h # l # bs) = 256 * unat h + unat l + be_sum bs"
| "be_sum [h] = 256 * unat h"
| "be_sum [] = 0"

lemma csum_fold_spec:
  "unat (csum_fold s) < 65536 \<and> unat (csum_fold s) mod 65535 = unat s mod 65535 \<and> (csum_fold s = 0 \<longleftrightarrow> s = 0)"
proof (induction s rule: csum_fold.induct)
  case (1 s)
  show ?case
  proof (cases "drop_bit 16 s = 0")
    case True
    then have "unat s div 65536 = 0" using unat_high16 [of s] by simp
    then show ?thesis using True by (simp add: csum_fold.simps [of s] div_eq_0_iff)
  next
    case False
    let ?t = "(s AND 0xffff) + drop_bit 16 s"
    have eq: "csum_fold s = csum_fold ?t" using False by (simp add: csum_fold.simps [of s])
    have "unat s = 65535 * (unat s div 65536) + unat ?t"
      using mult_div_mod_eq [of 65536 "unat s"] unfolding unat_fold_step by linarith
    then have "unat s mod 65535 = unat ?t mod 65535" by (metis mod_mult_self4)
    moreover have "?t \<noteq> 0"
    proof
      assume "?t = 0"
      then have "unat s div 65536 = 0" using unat_fold_step [of s] by simp
      then show False using False unat_high16 [of s] by (metis unat_eq_zero)
    qed
    moreover have "s \<noteq> 0" using False by auto
    ultimately show ?thesis using "1.IH" [OF False] unfolding eq by simp
  qed
qed

lemma be_word:
  fixes h l :: u8
  shows "unat ((push_bit 8 (ucast h) AND 0xff00) + (ucast l AND 0xff) :: u16) = 256 * unat h + unat l"
proof -
  have lt8: "k < 8" if "bit b k" for b :: u8 and k using bit_imp_le_length [OF that] by simp
  have "push_bit 8 (ucast h) AND push_bit 8 (mask 8) = (push_bit 8 (ucast h) :: u16)"
    by (rule bit_word_eqI) (auto simp only: bit_and_iff bit_push_bit_iff bit_mask_iff bit_ucast_iff possible_bit_word dest: lt8)
  moreover have "push_bit 8 (mask 8) = (0xff00 :: u16)" by (simp add: push_bit_eq_mult mask_eq_exp_minus_1)
  ultimately have "push_bit 8 (ucast h) AND 0xff00 = (push_bit 8 (ucast h) :: u16)" by metis
  moreover have "ucast l AND mask 8 = (ucast l :: u16)"
    by (rule bit_word_eqI) (auto simp only: bit_and_iff bit_mask_iff bit_ucast_iff possible_bit_word dest: lt8)
  moreover have "mask 8 = (0xff :: u16)" by (simp add: mask_eq_exp_minus_1)
  moreover have "unat (push_bit 8 (ucast h) :: u16) = 256 * unat h" "unat (ucast l :: u16) = unat l"
    using unat_less_2p [of h] unat_less_2p [of l]
    by (simp_all add: push_bit_eq_mult unat_word_ariths unsigned_ucast_eq take_bit_nat_eq_self)
  ultimately show ?thesis
    using unat_less_2p [of h] unat_less_2p [of l] by (simp add: unat_plus_if')
qed

lemma be_sum_append: "even (length xs) \<Longrightarrow> be_sum (xs @ ys) = be_sum xs + be_sum ys"
  by (induction xs rule: be_sum.induct) auto

lemma be_sum_le: "be_sum bs \<le> 65535 * length bs"
proof (induction bs rule: be_sum.induct)
  case (1 h l bs)
  then show ?case using unat_less_2p [of h] unat_less_2p [of l] by simp
next
  case (2 h)
  then show ?case using unat_less_2p [of h] by simp
qed simp

lemma csum_loop_eq:
  assumes "len \<le> length d" "even (len - i)"
  shows "csum_loop d len i s = Inr (s + of_nat (be_sum (take (len - i) (drop i d))))"
  using assms
proof (induction d len i s rule: csum_loop.induct)
  case (1 d len i s)
  show ?case
  proof (cases "i < len")
    case False
    then show ?thesis by (simp add: csum_loop.simps)
  next
    case True
    with "1.prems" have i1: "Suc i < len" by presburger
    then have split: "drop i d = d ! i # d ! Suc i # drop (i + 2) d"
      using "1.prems"(1) by (simp add: Cons_nth_drop_Suc)
    have n: "len - i = Suc (Suc (len - (i + 2)))" using i1 by simp
    have g: "get8 d i = Inr (d ! i)" "get8 d (i + 1) = Inr (d ! Suc i)"
      using i1 "1.prems"(1) by (simp_all add: get8_def)
    let ?w = "(push_bit 8 (ucast (d ! i)) AND 0xff00) + (ucast (d ! Suc i) AND 0xff) :: u16"
    have w: "ucast ?w = (of_nat (256 * unat (d ! i) + unat (d ! Suc i)) :: u32)"
      unfolding be_word [symmetric] by (rule of_nat_unat [symmetric])
    have "csum_loop d len i s = csum_loop d len (i + 2) (s + ucast ?w)"
      using True g by (subst csum_loop.simps) simp
    also have "\<dots> = Inr (s + ucast ?w + of_nat (be_sum (take (len - (i + 2)) (drop (i + 2) d))))"
      using "1.IH" [OF True g] "1.prems" i1 by simp
    finally show ?thesis unfolding w n split by (simp add: add.assoc)
  qed
qed

lemma unat_bytes16: "256 * unat (byte_at c 1) + unat (byte_at c 0) = unat c" for c :: u16
proof -
  have "unat (byte_at c 1) = unat c div 256"
    using unat_less_2p [of c]
    by (simp add: byte_at_def unsigned_ucast_eq drop_bit_eq_div unat_div_distrib take_bit_nat_eq_self)
  moreover have "unat (byte_at c 0) = unat c mod 256"
    by (simp add: byte_at_def unsigned_ucast_eq take_bit_eq_mod)
  ultimately show ?thesis by simp
qed

lemma be_sum_field: "be_sum (split_le 2 (ntos c)) = unat c"
  unfolding split_ntos by (simp add: split_le_def numeral_2_eq_2 unat_bytes16 [simplified])

lemma unat_not16:
  assumes "unat (f :: u32) < 65536"
  shows "unat (ucast (NOT f) :: u16) = 65535 - unat f"
proof -
  have "NOT f = - 1 - f" by (simp add: not_eq_complement)
  moreover have "unat (- 1 :: u32) = 2 ^ 32 - 1"
    by (simp add: unsigned_minus_1_eq_mask mask_eq_exp_minus_1)
  ultimately have "unat (NOT f) = 2 ^ 32 - 1 - unat f"
    using unat_less_2p [of f] unat_sub_if' [of "- 1" f] by simp
  then have "unat (ucast (NOT f) :: u16) = (2 ^ 32 - 1 - unat f) mod 65536"
    by (simp add: unsigned_ucast_eq take_bit_eq_mod)
  also have "2 ^ 32 - 1 - unat f = (65535 - unat f) + 65535 * 65536" using assms by simp
  also have "\<dots> mod 65536 = 65535 - unat f" unfolding mod_mult_self1 using assms by simp
  finally show ?thesis .
qed

text \<open>What a receiver computes over a packet: the folded sum, 0xffff when the packet is intact.\<close>

definition csum_verify :: "u8 list \<Rightarrow> nat \<Rightarrow> u32 res" where
  "csum_verify d len = bind_res (csum_loop d len 0 0) (\<lambda>acc. Inr (csum_fold acc))"

lemma be_sum_put16:
  assumes "even k" "k + 2 \<le> len" "len \<le> length d"
  shows "be_sum (take len (take k d @ split_le 2 (ntos c) @ drop (k + 2) d)) =
    be_sum (take k d) + unat c + be_sum (take (len - (k + 2)) (drop (k + 2) d))"
  using assms by (simp add: be_sum_append be_sum_field)

lemma unat_be_sum:
  assumes "length bs < 65536"
  shows "unat (of_nat (be_sum bs) :: u32) = be_sum bs"
proof (rule unat_of_nat_small)
  have "65535 * length bs \<le> 65535 * 65535" using assms by linarith
  then show "be_sum bs < 2 ^ LENGTH(32)" using be_sum_le [of bs] by simp
qed

text \<open>Adding the complement of the folded sum makes the sum a positive multiple of 65535.\<close>

lemma complement_sum:
  fixes f s t :: nat
  assumes "f < 65536" "f mod 65535 = s mod 65535" "f = 0 \<longleftrightarrow> s = 0" "t + f = s + 65535"
  shows "65535 dvd t" "t \<noteq> 0"
proof -
  have "(s + 65535) mod 65535 = f mod 65535" unfolding mod_add_self2 assms(2) ..
  moreover have "f \<le> s + 65535" "t = s + 65535 - f" using assms(1,4) by linarith+
  ultimately show "65535 dvd t" using mod_eq_dvd_iff_nat by metis
  show "t \<noteq> 0" using assms by auto
qed

lemma csum_fold_full:
  assumes "65535 dvd unat s" "s \<noteq> 0"
  shows "csum_fold s = 0xffff"
proof -
  have v: "unat (csum_fold s) < 65536" "65535 dvd unat (csum_fold s)" "unat (csum_fold s) \<noteq> 0"
    using csum_fold_spec [of s] assms by (simp_all add: unat_eq_zero dvd_eq_mod_eq_0)
  then obtain q where q: "unat (csum_fold s) = 65535 * q" by (elim dvdE)
  with v(1,3) have "q = 1" by auto
  with q have "unat (csum_fold s) = unat (0xffff :: u32)" by simp
  then show ?thesis by (simp only: word_unat_eq_iff)
qed

lemma checksum_result:
  assumes len: "even len" "len \<le> length d" "len < 65536" and k: "even k" "k + 2 \<le> len"
  obtains c where "checksum d len k = Inr (take k d @ split_le 2 (ntos c) @ drop (k + 2) d)"
    "csum_verify (take k d @ split_le 2 (ntos c) @ drop (k + 2) d) len = Inr 0xffff"
proof -
  define D where "D c = take k d @ split_le 2 (ntos c) @ drop (k + 2) d" for c
  define S where "S c = be_sum (take len (D c))" for c
  define f where "f = csum_fold (of_nat (S 0))"
  define c :: u16 where "c = ucast (NOT f)"
  have D: "length (D x) = length d" "put16 k (ntos y) (D x) = Inr (D y)" "put16 k (ntos y) d = Inr (D y)" for x y
    using k len by (simp_all add: D_def put16_def put_bytes_def)
  have loop: "csum_loop (D x) len 0 0 = Inr (of_nat (S x))" for x
    using csum_loop_eq [of len "D x" 0 0] len D(1) [of x] by (simp add: S_def)
  have S: "unat (of_nat (S x) :: u32) = S x" for x
    unfolding S_def by (rule unat_be_sum) (use len in simp)
  have "ntos 0 = 0" by (simp add: ntos_def)
  then have 1: "checksum d len k = Inr (D c)"
    using D(2) [of c 0] D(3) [of 0] by (simp add: checksum_def loop c_def f_def)
  have f: "unat f < 65536" "unat f mod 65535 = S 0 mod 65535" "unat f = 0 \<longleftrightarrow> S 0 = 0"
    using csum_fold_spec [of "of_nat (S 0)", folded f_def] S [of 0] by (simp, simp, metis unat_eq_zero)
  have "S c + unat f = S 0 + 65535"
    using f(1) unfolding S_def D_def be_sum_put16 [OF k len(2)] c_def unat_not16 [OF f(1)] by simp
  from complement_sum [OF f this] have "csum_fold (of_nat (S c)) = 0xffff"
    using S [of c] by (intro csum_fold_full) auto
  then have "csum_verify (D c) len = Inr 0xffff" by (simp add: csum_verify_def loop)
  with 1 show ?thesis unfolding D_def by (rule that)
qed

subsection \<open>Properties\<close>

text \<open>
  C19. \<open>checksum\<close> over an even number of bytes, stored in a field inside them, changes only that
  field, and a receiver that sums the same bytes gets 0xffff.
\<close>

theorem checksum_verifies:
  assumes "even len" "len \<le> length d" "len < 65536" "even k" "k + 2 \<le> len"
  shows "\<exists>d'. checksum d len k = Inr d' \<and> length d' = length d \<and> csum_verify d' len = Inr 0xffff \<and>
    (\<forall>i. i < length d \<and> i \<noteq> k \<and> i \<noteq> k + 1 \<longrightarrow> d' ! i = d ! i)"
proof -
  obtain c where c: "checksum d len k = Inr (take k d @ b16 (ntos c) @ drop (k + 2) d)"
    "csum_verify (take k d @ b16 (ntos c) @ drop (k + 2) d) len = Inr 0xffff"
    using checksum_result [OF assms] by blast
  have "(take k d @ b16 (ntos c) @ drop (k + 2) d) ! i = d ! i"
    if "i < length d" "i \<noteq> k" "i \<noteq> k + 1" for i
  proof (cases "i < k")
    case False
    with that obtain j where "i = k + 2 + j" using le_Suc_ex [of "k + 2" i] by auto
    with that assms show ?thesis by (simp add: nth_append)
  qed (use assms in \<open>simp add: nth_append\<close>)
  then show ?thesis using c assms by auto
qed

theorem checksum_verifies_witness:
  "\<exists>d'. checksum [0x45, 0, 0, 0x1c, 9, 9] 6 4 = Inr d' \<and> csum_verify d' 6 = Inr 0xffff"
  using checksum_verifies [of 6 "[0x45, 0, 0, 0x1c, 9, 9]" 4] by auto

text \<open>
  Host to network order and back is the identity, and a converted value has its most
  significant byte first in memory.
\<close>

lemma network_order:
  "ntos (ntos x) = x \<and> ntol (ntol y) = y \<and>
   b16 (ntos x) = rev (b16 x) \<and> b32 (ntol y) = rev (b32 y)"
  using ntos.swap_swap ntol.swap_swap split_ntos split_ntol by blast

end
