(* ===== verification/NetDev.thy ===== *)
theory NetDev
  imports Keyboard NetBytes
begin

text \<open>
  The state of the network stack and its two lowest layers: socket buffers
  (src/src/net/sbuff.[ch]), Ethernet output (ethernet.c) and ARP (arp.c). Objects live in
  typed stores at the addresses \<open>kmem_alloc\<close> returns. An incoming packet is the list of the
  bytes readable from its pointer on, and reading past it is a fault. The functions behind
  pointers (a device's \<open>send\<close>, what applications register) are the fields of \<open>net_env\<close>.
\<close>

unbundle bit_operations_syntax

subsection \<open>State\<close>

type_synonym mac = "u8 list"

text \<open>\<open>head\<close> is kept as its distance from \<open>data\<close>.\<close>

record sbuff =
  totalSize :: u16
  currSize :: u16
  shead :: nat
  srefs :: u8
  sdata :: "u8 list"

record netdevice =
  dev_send :: u64
  dev_ip :: u32
  dev_mac :: mac
  dev_iomem :: u16

record arp_table =
  arp_ips :: "u32 list"
  arp_macs :: "mac list"
  arp_count :: u16

record udp_listening_port =
  uport :: u16
  ucb :: u64

record udp_quad =
  src_addr :: u32
  dst_addr :: u32
  src_port :: u16
  dst_port :: u16

datatype TcpState =
    Closed | Listen | SynReceived | SynSent | Established | FinWait1 | FinWait2 | Closing
  | TimeWait | CloseWait | LastAck

text \<open>\<open>readBuf\<close> is the memory behind the struct that the pointer of that name refers to.\<close>

record stream =
  snext :: u64
  sdev :: u64
  localPort :: u16
  remotePort :: u16
  localAddr :: u32
  remoteAddr :: u32
  localSeq :: u32
  pendingAck :: u32
  ackSeq :: u32
  needsAck :: u8
  tstate :: TcpState
  readBuf :: "u8 list"
  readOffset :: u32
  readMax :: u32
  readFn :: u64

record listen_state =
  lport :: u16
  laccept :: u64
  lnext :: u64

record nworld = kworld +
  sbuffs :: "u64 \<rightharpoonup> sbuff"
  devices :: "u64 \<rightharpoonup> netdevice"
  arp_tab :: arp_table
  ip_devices :: map_t
  udp_ports :: "u64 \<rightharpoonup> udp_listening_port"
  listening_ports :: list_t
  streams :: "u64 \<rightharpoonup> stream"
  all_streams :: u64
  listeners :: "u64 \<rightharpoonup> listen_state"
  all_listeners :: u64

text \<open>
  Calls through function pointers: \<open>send_call fn dev sb\<close>, \<open>read_call fn stream buf size\<close>,
  \<open>accept_call fn\<close> and \<open>notify_call fn quad data size\<close>.
\<close>

record 'w net_env =
  send_call :: "u64 \<Rightarrow> u64 \<Rightarrow> u64 \<Rightarrow> 'w \<Rightarrow> 'w res"
  read_call :: "u64 \<Rightarrow> u64 \<Rightarrow> u8 list \<Rightarrow> u32 \<Rightarrow> 'w \<Rightarrow> 'w res"
  accept_call :: "u64 \<Rightarrow> 'w \<Rightarrow> (u64 \<times> 'w) res"
  notify_call :: "u64 \<Rightarrow> udp_quad \<Rightarrow> u8 list \<Rightarrow> u32 \<Rightarrow> 'w \<Rightarrow> 'w res"

definition on_con :: "(console \<Rightarrow> console res) \<Rightarrow> 'a iworld_scheme \<Rightarrow> 'a iworld_scheme res" where
  "on_con f w = bind_res (f (con w)) (\<lambda>c. Inr (w\<lparr>con := c\<rparr>))"

subsection \<open>Socket buffers (sbuff.c, sbuff.h)\<close>

definition sizeof_sbuff :: u64 where [layout]: "sizeof_sbuff = 24"

text \<open>
  \<open>raw_sbuff_alloc\<close> lacks its \<open>return\<close>; the model returns the address of the buffer, which is
  what its callers expect. The data array starts at offset 17 and so extends over the seven
  bytes of padding; it keeps what was in memory.
\<close>

definition raw_sbuff_alloc :: "u16 \<Rightarrow> 'a nworld_scheme \<Rightarrow> (u64 \<times> 'a nworld_scheme) res" where
  "raw_sbuff_alloc sz w =
     bind_res (kmem_alloc w (ucast sz + sizeof_sbuff)) (\<lambda>(p, w).
       Inr (p, w\<lparr>sbuffs := (sbuffs w)(p \<mapsto>
         \<lparr>totalSize = sz, currSize = sz, shead = 0, srefs = 0,
          sdata = read_mem (kmem w) (p + 17) (unat sz + 7)\<rparr>)\<rparr>))"

definition sbuff_free :: "u64 \<Rightarrow> 'a nworld_scheme \<Rightarrow> 'a nworld_scheme res" where
  "sbuff_free p w = bind_res (kmem_free w p) (\<lambda>w. Inr (w\<lparr>sbuffs := (sbuffs w)(p := None)\<rparr>))"

definition sbuff_update :: "u64 \<Rightarrow> (sbuff \<Rightarrow> sbuff res) \<Rightarrow> 'a nworld_scheme \<Rightarrow> 'a nworld_scheme res" where
  "sbuff_update p f w =
     bind_res (deref (sbuffs w) p) (\<lambda>s. bind_res (f s) (\<lambda>s. Inr (w\<lparr>sbuffs := (sbuffs w)(p \<mapsto> s)\<rparr>)))"

definition push_head :: "u16 \<Rightarrow> sbuff \<Rightarrow> sbuff res" where
  "push_head n s =
     (if currSize s < n then Inl (Panic ''net: sbuff overflow'')
      else Inr (s\<lparr>currSize := currSize s - n, shead := shead s + unat n\<rparr>))"

definition pop_head :: "u16 \<Rightarrow> sbuff \<Rightarrow> sbuff res" where
  "pop_head n s =
     (if unat (totalSize s) < unat n + unat (currSize s) then Inl (Panic ''net: sbuff underflow'')
      else if shead s < unat n then Inl (Fault OutOfBounds)
      else Inr (s\<lparr>currSize := currSize s + n, shead := shead s - unat n\<rparr>))"

definition sbuff_push :: "u64 \<Rightarrow> u16 \<Rightarrow> 'a nworld_scheme \<Rightarrow> 'a nworld_scheme res" where
  "sbuff_push p n = sbuff_update p (push_head n)"

definition sbuff_pop :: "u64 \<Rightarrow> u16 \<Rightarrow> 'a nworld_scheme \<Rightarrow> 'a nworld_scheme res" where
  "sbuff_pop p n = sbuff_update p (pop_head n)"

text \<open>The macros \<open>add_ref\<close> and \<open>release_ref\<close> on a buffer, and field assignments at its head.\<close>

definition sbuff_add_ref :: "u64 \<Rightarrow> 'a nworld_scheme \<Rightarrow> 'a nworld_scheme res" where
  "sbuff_add_ref p = sbuff_update p (\<lambda>s. Inr (s\<lparr>srefs := srefs s + 1\<rparr>))"

definition sbuff_release_ref :: "u64 \<Rightarrow> 'a nworld_scheme \<Rightarrow> 'a nworld_scheme res" where
  "sbuff_release_ref p w =
     bind_res (sbuff_update p (\<lambda>s. Inr (s\<lparr>srefs := srefs s - 1\<rparr>)) w) (\<lambda>w.
     bind_res (deref (sbuffs w) p) (\<lambda>s. if srefs s = 0 then sbuff_free p w else Inr w))"

definition edit_head :: "(nat \<Rightarrow> u8 list \<Rightarrow> u8 list res) \<Rightarrow> sbuff \<Rightarrow> sbuff res" where
  "edit_head f s = bind_res (f (shead s) (sdata s)) (\<lambda>d. Inr (s\<lparr>sdata := d\<rparr>))"

definition sbuff_fields :: "u64 \<Rightarrow> (nat \<times> u8 list) list \<Rightarrow> 'a nworld_scheme \<Rightarrow> 'a nworld_scheme res" where
  "sbuff_fields p fs = sbuff_update p (edit_head (\<lambda>h. put_fields h fs))"

definition checksum_at :: "nat \<Rightarrow> nat \<Rightarrow> nat \<Rightarrow> u8 list \<Rightarrow> u8 list res" where
  "checksum_at h len k d = bind_res (checksum (drop h d) len k) (\<lambda>d'. Inr (take h d @ d'))"

subsection \<open>Ethernet output (ethernet.c)\<close>

definition sizeof_ethernet :: u16 where [layout]: "sizeof_ethernet = 14"

fun put_mac_bytes :: "nat \<Rightarrow> u8 list \<Rightarrow> console \<Rightarrow> console res" where
  "put_mac_bytes i [] c = Inr c"
| "put_mac_bytes i (b # bs) c =
     bind_res (if i \<noteq> 0 then console_print_string (str '':'') [] c else Inr c) (\<lambda>c.
     bind_res (console_put_hex8 b c) (put_mac_bytes (Suc i) bs))"

definition print_mac :: "u8 list \<Rightarrow> mac \<Rightarrow> console \<Rightarrow> console res" where
  "print_mac s m c = bind_res (console_print_string s [] c) (put_mac_bytes 0 (take 6 m))"

definition ethernet_send ::
  "'a nworld_scheme net_env \<Rightarrow> u64 \<Rightarrow> u16 \<Rightarrow> mac \<Rightarrow> u64 \<Rightarrow> 'a nworld_scheme \<Rightarrow> 'a nworld_scheme res" where
  "ethernet_send env sb proto dest dev w =
     bind_res (sbuff_pop sb sizeof_ethernet w) (\<lambda>w.
     bind_res (deref (devices w) dev) (\<lambda>d.
     bind_res (sbuff_fields sb [(0, dest), (6, dev_mac d), (12, b16 (ntos proto))] w) (\<lambda>w.
       send_call env (dev_send d) dev sb w)))"

definition ethernet_sbuff_alloc :: "u16 \<Rightarrow> 'a nworld_scheme \<Rightarrow> (u64 \<times> 'a nworld_scheme) res" where
  "ethernet_sbuff_alloc sz w =
     bind_res (raw_sbuff_alloc (sz + sizeof_ethernet) w) (\<lambda>(p, w).
     bind_res (sbuff_push p sizeof_ethernet w) (\<lambda>w. Inr (p, w)))"

subsection \<open>ARP (arp.c)\<close>

definition BROADCAST_MAC :: mac where "BROADCAST_MAC = replicate 6 0xff"

definition sizeof_arp_packet :: u16 where [layout]: "sizeof_arp_packet = 28"

definition arp_fields :: "u16 \<Rightarrow> mac \<Rightarrow> u32 \<Rightarrow> mac \<Rightarrow> u32 \<Rightarrow> (nat \<times> u8 list) list" where
  "arp_fields operation senderMac senderIp targetMac targetIp =
     [(0, b16 (ntos 1)), (2, b16 (ntos 0x0800)), (4, [6]), (5, [4]), (6, b16 (ntos operation)),
      (8, senderMac), (14, b32 (ntol senderIp)), (18, targetMac), (24, b32 (ntol targetIp))]"

definition arp_reply ::
  "'a nworld_scheme net_env \<Rightarrow> u64 \<Rightarrow> mac \<Rightarrow> u32 \<Rightarrow> bool \<Rightarrow> 'a nworld_scheme \<Rightarrow> 'a nworld_scheme res" where
  "arp_reply env dev target ip broadcast w =
     bind_res (raw_sbuff_alloc (sizeof_ethernet + sizeof_arp_packet) w) (\<lambda>(buf, w).
     bind_res (sbuff_add_ref buf w) (\<lambda>w.
     bind_res (sbuff_push buf sizeof_ethernet w) (\<lambda>w.
     bind_res (deref (devices w) dev) (\<lambda>d.
     bind_res (sbuff_fields buf (arp_fields 2 (dev_mac d) (dev_ip d) target ip) w) (\<lambda>w.
     bind_res (ethernet_send env buf 0x0806 (if broadcast then BROADCAST_MAC else target) dev w) (\<lambda>w.
       sbuff_release_ref buf w))))))"

definition arp_request ::
  "'a nworld_scheme net_env \<Rightarrow> u64 \<Rightarrow> u32 \<Rightarrow> 'a nworld_scheme \<Rightarrow> 'a nworld_scheme res" where
  "arp_request env dev targetIp w =
     bind_res (ethernet_sbuff_alloc sizeof_arp_packet w) (\<lambda>(buf, w).
     bind_res (sbuff_add_ref buf w) (\<lambda>w.
     bind_res (deref (devices w) dev) (\<lambda>d.
     bind_res (sbuff_fields buf (arp_fields 1 (dev_mac d) (dev_ip d) (replicate 6 0) targetIp) w) (\<lambda>w.
     bind_res (ethernet_send env buf 0x0806 BROADCAST_MAC dev w) (\<lambda>w.
       sbuff_release_ref buf w)))))"

definition gratuitous_arp :: "'a nworld_scheme net_env \<Rightarrow> u64 \<Rightarrow> 'a nworld_scheme \<Rightarrow> 'a nworld_scheme res" where
  "gratuitous_arp env dev w =
     bind_res (deref (devices w) dev) (\<lambda>d. arp_reply env dev (replicate 6 0) (dev_ip d) True w)"

text \<open>The loop of \<open>arp_lookup\<close> with \<open>n\<close> entries left from entry \<open>e\<close> on.\<close>

fun arp_scan :: "arp_table \<Rightarrow> u32 \<Rightarrow> nat \<Rightarrow> nat \<Rightarrow> mac option res" where
  "arp_scan t ip e 0 = Inr None"
| "arp_scan t ip e (Suc n) =
     (if e < length (arp_ips t) then
        if arp_ips t ! e = ip then Inr (Some (arp_macs t ! e)) else arp_scan t ip (Suc e) n
      else Inl (Fault OutOfBounds))"

text \<open>\<open>Some m\<close>: \<open>m\<close> was copied to the destination and the result is 1.\<close>

definition arp_lookup ::
  "'a nworld_scheme net_env \<Rightarrow> u64 \<Rightarrow> u32 \<Rightarrow> 'a nworld_scheme \<Rightarrow> (mac option \<times> 'a nworld_scheme) res" where
  "arp_lookup env dev ip w =
     bind_res (arp_scan (arp_tab w) ip 0 (unat (arp_count (arp_tab w)))) (\<lambda>r. case r of
       Some m \<Rightarrow> Inr (Some m, w)
     | None \<Rightarrow> bind_res (arp_request env dev ip w) (\<lambda>w. Inr (None, w)))"

definition arp_table_add :: "mac \<Rightarrow> u32 \<Rightarrow> arp_table \<Rightarrow> arp_table res" where
  "arp_table_add dest ip t =
     (let n = unat (arp_count t)
      in if n < length (arp_ips t) \<and> n < length (arp_macs t) then
           Inr (t\<lparr>arp_ips := (arp_ips t)[n := ip], arp_macs := (arp_macs t)[n := dest], arp_count := arp_count t + 1\<rparr>)
         else Inl (Fault OutOfBounds))"

definition arp_store :: "mac \<Rightarrow> u32 \<Rightarrow> 'a nworld_scheme \<Rightarrow> 'a nworld_scheme res" where
  "arp_store dest ip w = bind_res (arp_table_add dest ip (arp_tab w)) (\<lambda>t. Inr (w\<lparr>arp_tab := t\<rparr>))"

definition arp_packet ::
  "'a nworld_scheme net_env \<Rightarrow> u64 \<Rightarrow> u8 list \<Rightarrow> 'a nworld_scheme \<Rightarrow> 'a nworld_scheme res" where
  "arp_packet env dev bs w =
     bind_res (deref (devices w) dev) (\<lambda>d.
     bind_res (get32 bs 24) (\<lambda>targetIp.
       if ntol targetIp \<noteq> dev_ip d then Inr w
       else
         bind_res (get16 bs 6) (\<lambda>operation.
         bind_res (get_bytes bs 8 6) (\<lambda>senderMac.
         bind_res (get32 bs 14) (\<lambda>senderIp.
           if ntos operation = 1 then arp_reply env dev senderMac (ntol senderIp) False w
           else arp_store senderMac (ntol senderIp) w)))))"

definition init_arp :: "'a nworld_scheme \<Rightarrow> 'a nworld_scheme" where
  "init_arp w = w\<lparr>arp_tab := (arp_tab w)\<lparr>arp_count := 0\<rparr>\<rparr>"

subsection \<open>Buffers and headers\<close>

text \<open>The head stays between the start of the data and its end; \<open>contents\<close> is what would be sent.\<close>

definition sbuff_ok :: "sbuff \<Rightarrow> bool" where
  "sbuff_ok s \<longleftrightarrow> shead s + unat (currSize s) = unat (totalSize s) \<and> length (sdata s) = unat (totalSize s) + 7"

definition contents :: "sbuff \<Rightarrow> u8 list" where
  "contents s = take (unat (currSize s)) (drop (shead s) (sdata s))"

lemma length_contents: "sbuff_ok s \<Longrightarrow> length (contents s) = unat (currSize s)"
  by (auto simp: sbuff_ok_def contents_def min_def)

lemma push_head_ok:
  assumes "sbuff_ok s" "n \<le> currSize s"
  shows "push_head n s = Inr (s\<lparr>currSize := currSize s - n, shead := shead s + unat n\<rparr>)"
    "sbuff_ok (s\<lparr>currSize := currSize s - n, shead := shead s + unat n\<rparr>)"
  using assms by (auto simp: push_head_def sbuff_ok_def unat_sub word_le_nat_alt not_less)

lemma pop_head_ok:
  assumes "sbuff_ok s" "unat n \<le> shead s"
  shows "pop_head n s = Inr (s\<lparr>currSize := currSize s + n, shead := shead s - unat n\<rparr>)"
    "sbuff_ok (s\<lparr>currSize := currSize s + n, shead := shead s - unat n\<rparr>)"
    "unat (currSize s + n) = unat (currSize s) + unat n"
proof -
  have "unat (currSize s) + unat n \<le> unat (totalSize s)" using assms by (simp add: sbuff_ok_def)
  then show *: "unat (currSize s + n) = unat (currSize s) + unat n"
    using unat_less_2p [of "totalSize s"] by (simp add: unat_plus_if')
  show "pop_head n s = Inr (s\<lparr>currSize := currSize s + n, shead := shead s - unat n\<rparr>)"
    "sbuff_ok (s\<lparr>currSize := currSize s + n, shead := shead s - unat n\<rparr>)"
    using assms * by (auto simp: pop_head_def sbuff_ok_def)
qed

text \<open>Writing at the head replaces the start of the contents.\<close>

lemma contents_put:
  assumes "sbuff_ok s" "length bs \<le> unat (currSize s)"
  shows "\<exists>d. put_bytes (shead s) bs (sdata s) = Inr d \<and> sbuff_ok (s\<lparr>sdata := d\<rparr>) \<and>
    contents (s\<lparr>sdata := d\<rparr>) = bs @ drop (length bs) (contents s)"
  using assms by (auto simp: sbuff_ok_def contents_def put_bytes_def take_drop min_def add.commute)

text \<open>Making room for a header and filling it puts it in front of the contents.\<close>

lemma prepend_header:
  assumes ok: "sbuff_ok s" and n: "unat n \<le> shead s" and adj: "adjacent 0 fs" "length (concat (map snd fs)) = unat n"
  obtains s' where "pop_head n s = Inr (s\<lparr>currSize := currSize s + n, shead := shead s - unat n\<rparr>)"
    "edit_head (\<lambda>h. put_fields h fs) (s\<lparr>currSize := currSize s + n, shead := shead s - unat n\<rparr>) = Inr s'"
    "sbuff_ok s'" "contents s' = concat (map snd fs) @ contents s" "shead s' = shead s - unat n"
    "totalSize s' = totalSize s" "srefs s' = srefs s" "unat (currSize s') = unat (currSize s) + unat n"
proof -
  let ?s = "s\<lparr>currSize := currSize s + n, shead := shead s - unat n\<rparr>" and ?h = "concat (map snd fs)"
  note pop = pop_head_ok [OF ok n]
  have cur: "unat (currSize ?s) = unat (currSize s) + unat n" using pop(3) by simp
  obtain d where d: "put_bytes (shead ?s) ?h (sdata ?s) = Inr d" "sbuff_ok (?s\<lparr>sdata := d\<rparr>)"
    "contents (?s\<lparr>sdata := d\<rparr>) = ?h @ drop (length ?h) (contents ?s)"
    using contents_put [OF pop(2), of ?h] adj(2) cur by auto
  have "drop (unat n) (contents ?s) = contents s"
    using ok n cur by (simp add: contents_def drop_take sbuff_ok_def)
  moreover have "edit_head (\<lambda>h. put_fields h fs) ?s = Inr (?s\<lparr>sdata := d\<rparr>)"
    using put_fields_adjacent [OF adj(1), of "shead ?s" "sdata ?s"] d(1) adj(2) pop(2) n ok
    by (simp add: edit_head_def sbuff_ok_def)
  ultimately show ?thesis using that [of "?s\<lparr>sdata := d\<rparr>"] d pop cur adj(2) by simp
qed

lemma sbuff_update_eq:
  assumes "p \<noteq> 0" "sbuffs w p = Some s"
  shows "sbuff_update p f w = bind_res (f s) (\<lambda>s. Inr (w\<lparr>sbuffs := (sbuffs w)(p \<mapsto> s)\<rparr>))"
  using assms by (simp add: sbuff_update_def deref_def)

lemma ethernet_send_eq:
  assumes sb: "sb \<noteq> 0" "sbuffs w sb = Some s" "sbuff_ok s" "14 \<le> shead s"
    and dev: "dev \<noteq> 0" "devices w dev = Some d" and mac: "length dest = 6" "length (dev_mac d) = 6"
  obtains s' where "ethernet_send env sb proto dest dev w = send_call env (dev_send d) dev sb (w\<lparr>sbuffs := (sbuffs w)(sb \<mapsto> s')\<rparr>)"
    "sbuff_ok s'" "contents s' = dest @ dev_mac d @ b16 (ntos proto) @ contents s" "srefs s' = srefs s"
    "shead s' = shead s - 14" "totalSize s' = totalSize s"
proof -
  let ?fs = "[(0 :: nat, dest), (6, dev_mac d), (12, b16 (ntos proto))]"
  have fs: "unat (14 :: u16) \<le> shead s" "adjacent 0 ?fs" "length (concat (map snd ?fs)) = unat (14 :: u16)"
    using sb(4) mac by auto
  obtain s' where s': "pop_head 14 s = Inr (s\<lparr>currSize := currSize s + 14, shead := shead s - unat (14 :: u16)\<rparr>)"
    "edit_head (\<lambda>h. put_fields h ?fs) (s\<lparr>currSize := currSize s + 14, shead := shead s - unat (14 :: u16)\<rparr>) = Inr s'"
    "sbuff_ok s'" "contents s' = concat (map snd ?fs) @ contents s" "shead s' = shead s - unat (14 :: u16)"
    "totalSize s' = totalSize s" "srefs s' = srefs s"
    by (rule prepend_header [OF sb(3) fs])
  have "ethernet_send env sb proto dest dev w = send_call env (dev_send d) dev sb (w\<lparr>sbuffs := (sbuffs w)(sb \<mapsto> s')\<rparr>)"
    using sb dev s'(1,2)
    by (simp add: ethernet_send_def sbuff_pop_def sbuff_fields_def sbuff_update_eq deref_def layout)
  with s' that show ?thesis by simp
qed

subsection \<open>The ARP table as a cache\<close>

text \<open>
  The interface \<open>ip_send\<close> relies on: a bounded cache of bindings, oldest first, in which a
  lookup returns the oldest binding of an address.
\<close>

locale addr_cache =
  fixes rep :: "'t \<Rightarrow> ('k \<times> 'v) list \<Rightarrow> bool" and cap :: nat
    and find :: "'t \<Rightarrow> 'k \<Rightarrow> 'v option res" and add :: "'t \<Rightarrow> 'k \<Rightarrow> 'v \<Rightarrow> 't res"
  assumes find_rep: "rep t es \<Longrightarrow> find t k = Inr (map_of es k)"
    and add_rep: "rep t es \<Longrightarrow> length es < cap \<Longrightarrow> \<exists>t'. add t k v = Inr t' \<and> rep t' (es @ [(k, v)])"
    and add_full: "rep t es \<Longrightarrow> cap \<le> length es \<Longrightarrow> add t k v = Inl (Fault OutOfBounds)"
begin

lemma add_find:
  assumes "rep t es" "length es < cap"
  shows "\<exists>t'. add t k v = Inr t' \<and> rep t' (es @ [(k, v)]) \<and>
    find t' k = Inr (Some (case map_of es k of None \<Rightarrow> v | Some u \<Rightarrow> u)) \<and>
    (\<forall>j. j \<noteq> k \<longrightarrow> find t' j = find t j)"
proof -
  obtain t' where t': "add t k v = Inr t'" "rep t' (es @ [(k, v)])" using add_rep [OF assms] by blast
  then show ?thesis using find_rep [OF t'(2)] find_rep [OF assms(1)]
    by (auto simp: map_add_def split: option.split)
qed

end

definition arp_rep :: "arp_table \<Rightarrow> (u32 \<times> mac) list \<Rightarrow> bool" where
  "arp_rep t es \<longleftrightarrow> length (arp_ips t) = 128 \<and> length (arp_macs t) = 128 \<and> unat (arp_count t) = length es \<and>
     length es \<le> 128 \<and> es = take (length es) (zip (arp_ips t) (arp_macs t))"

lemma arp_scan_eq:
  assumes "length (arp_macs t) = length (arp_ips t)" "e + n \<le> length (arp_ips t)"
  shows "arp_scan t a e n = Inr (map_of (take n (drop e (zip (arp_ips t) (arp_macs t)))) a)"
  using assms(2)
proof (induction n arbitrary: e)
  case (Suc n)
  then have "drop e (zip (arp_ips t) (arp_macs t)) =
      (arp_ips t ! e, arp_macs t ! e) # drop (Suc e) (zip (arp_ips t) (arp_macs t))"
    using assms(1) by (simp add: Cons_nth_drop_Suc [symmetric])
  with Suc show ?case by simp
qed simp

lemma take_Suc_update:
  "n < length xs \<Longrightarrow> take (Suc n) (xs[n := x]) = take n xs @ [x]"
  by (simp add: take_Suc_conv_app_nth)

interpretation arp_cache: addr_cache arp_rep 128
  "\<lambda>t k. arp_scan t k 0 (unat (arp_count t))" "\<lambda>t k v. arp_table_add v k t"
proof
  fix t es k and v :: mac
  assume rep: "arp_rep t es"
  then show "arp_scan t k 0 (unat (arp_count t)) = Inr (map_of es k)"
    using arp_scan_eq [of t 0 "length es" k] by (auto simp: arp_rep_def)
  show "arp_table_add v k t = Inl (Fault OutOfBounds)" if "128 \<le> length es"
    using rep that by (simp add: arp_rep_def arp_table_add_def)
  show "\<exists>t'. arp_table_add v k t = Inr t' \<and> arp_rep t' (es @ [(k, v)])" if n: "length es < 128"
  proof -
    have "unat (arp_count t + 1) = Suc (length es)"
      using rep n by (simp add: arp_rep_def unat_plus_if')
    moreover have "es @ [(k, v)] = take (Suc (length es)) (zip ((arp_ips t)[length es := k]) ((arp_macs t)[length es := v]))"
      using take_Suc_update [of "length es" "zip (arp_ips t) (arp_macs t)" "(k, v)"] rep n
      by (simp add: arp_rep_def update_zip)
    ultimately show ?thesis using rep n by (simp add: arp_rep_def arp_table_add_def Let_def)
  qed
qed

lemma arp_lookup_known:
  assumes "arp_rep (arp_tab w) es" "map_of es a = Some m"
  shows "arp_lookup env dev a w = Inr (Some m, w)"
  using arp_cache.find_rep [OF assms(1), of a] assms(2) by (simp add: arp_lookup_def)

subsection \<open>ARP replies\<close>

lemma raw_sbuff_alloc_eq:
  assumes "kmem_alloc w (ucast sz + 24) = Inr (p, w1)"
  obtains s where "raw_sbuff_alloc sz w = Inr (p, w1\<lparr>sbuffs := (sbuffs w)(p \<mapsto> s)\<rparr>)"
    "sbuff_ok s" "totalSize s = sz" "currSize s = sz" "shead s = 0" "srefs s = 0"
proof -
  have "sbuffs w1 = sbuffs w" using kmem_alloc_frame [OF assms] by auto
  with assms that show ?thesis by (simp add: raw_sbuff_alloc_def layout sbuff_ok_def)
qed

text \<open>
  A fresh buffer with room for the headers below it: pushed by \<open>n\<close>, it has \<open>n\<close> bytes of headroom.
\<close>

lemma fresh_headroom:
  assumes "sbuff_ok s" "shead s = 0" "currSize s = sz" "n \<le> sz"
  obtains s' where "push_head n s = Inr s'" "sbuff_ok s'" "shead s' = unat n" "currSize s' = sz - n"
    "totalSize s' = totalSize s" "srefs s' = srefs s"
  using push_head_ok [OF assms(1), of n] assms that by simp

definition arp_body :: "u16 \<Rightarrow> mac \<Rightarrow> u32 \<Rightarrow> mac \<Rightarrow> u32 \<Rightarrow> u8 list" where
  "arp_body op sm si tm ti = [0, 1, 8, 0, 6, 4] @ rev (b16 op) @ sm @ rev (b32 si) @ tm @ rev (b32 ti)"

lemma split16_rev: "rev (b16 x) = [byte_at x 1, byte_at x 0]"
  by (simp add: split_le_def numeral_2_eq_2)

lemma arp_fields_body:
  "concat (map snd (arp_fields op sm si tm ti)) = arp_body op sm si tm ti"
  "length sm = 6 \<Longrightarrow> length tm = 6 \<Longrightarrow> adjacent 0 (arp_fields op sm si tm ti)"
  "length sm = 6 \<Longrightarrow> length tm = 6 \<Longrightarrow> length (arp_body op sm si tm ti) = 28"
  by (simp_all add: arp_fields_def arp_body_def split_ntos split_ntol split16_rev byte_at_def)

text \<open>Filling a header of the size of the whole contents.\<close>

lemma fill_contents:
  assumes "sbuff_ok s" "adjacent 0 fs" "length (concat (map snd fs)) = unat (currSize s)"
  obtains s' where "edit_head (\<lambda>h. put_fields h fs) s = Inr s'" "sbuff_ok s'" "contents s' = concat (map snd fs)"
    "shead s' = shead s" "currSize s' = currSize s" "totalSize s' = totalSize s" "srefs s' = srefs s"
proof -
  obtain d where d: "put_bytes (shead s) (concat (map snd fs)) (sdata s) = Inr d" "sbuff_ok (s\<lparr>sdata := d\<rparr>)"
    "contents (s\<lparr>sdata := d\<rparr>) = concat (map snd fs) @ drop (length (concat (map snd fs))) (contents s)"
    using contents_put [OF assms(1), of "concat (map snd fs)"] assms(3) by auto
  have "shead s + length (concat (map snd fs)) \<le> length (sdata s)" using assms(1,3) by (simp add: sbuff_ok_def)
  then have "edit_head (\<lambda>h. put_fields h fs) s = Inr (s\<lparr>sdata := d\<rparr>)"
    using put_fields_adjacent [OF assms(2), of "shead s" "sdata s"] d(1) by (simp add: edit_head_def)
  with d that assms(1,3) show ?thesis by (simp add: length_contents)
qed

lemma arp_reply_eq:
  assumes dev: "dev \<noteq> 0" "devices w dev = Some d" "length (dev_mac d) = 6" and target: "length target = 6"
    and alloc: "kmem_alloc w 66 = Inr (p, w1)" "p \<noteq> 0"
  obtains w2 s where "arp_reply env dev target a False w =
      bind_res (send_call env (dev_send d) dev p w2) (sbuff_release_ref p)"
    "sbuffs w2 p = Some s" "contents s = target @ dev_mac d @ [8, 6] @ arp_body 2 (dev_mac d) (dev_ip d) target a"
    "srefs s = 1" "w2 = w1\<lparr>sbuffs := (sbuffs w)(p \<mapsto> s)\<rparr>" "sbuff_ok s" "shead s = 0"
proof -
  have dev1: "devices w1 = devices w" using kmem_alloc_frame [OF alloc(1)] by auto
  have "kmem_alloc w (ucast (42 :: u16) + 24) = Inr (p, w1)" using alloc(1) by simp
  then obtain s0 where s0: "raw_sbuff_alloc 42 w = Inr (p, w1\<lparr>sbuffs := (sbuffs w)(p \<mapsto> s0)\<rparr>)"
    "sbuff_ok s0" "totalSize s0 = 42" "currSize s0 = 42" "shead s0 = 0" "srefs s0 = 0"
    by (rule raw_sbuff_alloc_eq)
  have ok1: "sbuff_ok (s0\<lparr>srefs := 1\<rparr>)" using s0(2) by (simp add: sbuff_ok_def)
  obtain s1 where s1: "push_head 14 (s0\<lparr>srefs := 1\<rparr>) = Inr s1" "sbuff_ok s1" "shead s1 = unat (14 :: u16)"
    "currSize s1 = 42 - 14" "srefs s1 = 1"
    by (rule fresh_headroom [OF ok1, of 42 14]) (use s0 in simp_all)
  let ?fs = "arp_fields 2 (dev_mac d) (dev_ip d) target a"
  have len: "length (concat (map snd ?fs)) = unat (currSize s1)" using s1(4) dev(3) target by (simp add: arp_fields_body)
  obtain s2 where s2: "edit_head (\<lambda>h. put_fields h ?fs) s1 = Inr s2" "sbuff_ok s2"
    "contents s2 = concat (map snd ?fs)" "shead s2 = shead s1" "srefs s2 = srefs s1"
    by (rule fill_contents [OF s1(2) arp_fields_body(2) [OF dev(3) target] len])
  note s2 = s2 [unfolded arp_fields_body s1(3,5)]
  let ?w = "w1\<lparr>sbuffs := (sbuffs w)(p \<mapsto> s2)\<rparr>"
  obtain s3 where s3: "ethernet_send env p 0x0806 target dev ?w =
      send_call env (dev_send d) dev p (?w\<lparr>sbuffs := (sbuffs ?w)(p \<mapsto> s3)\<rparr>)"
    "contents s3 = target @ dev_mac d @ b16 (ntos 0x0806) @ contents s2" "srefs s3 = srefs s2" "sbuff_ok s3"
    "shead s3 = shead s2 - 14"
    by (rule ethernet_send_eq [where sb = p and w = ?w and s = s2 and dev = dev and d = d and dest = target and env = env and proto = "0x0806"]) (use alloc(2) s2 dev dev1 target in auto)
  have "b16 (ntos 0x0806) = [8, 6]" by (simp add: split_ntos split16_rev byte_at_def)
  moreover have "arp_reply env dev target a False w =
      bind_res (send_call env (dev_send d) dev p (w1\<lparr>sbuffs := (sbuffs w)(p \<mapsto> s3)\<rparr>)) (sbuff_release_ref p)"
    using s0(1,6) s1(1) s2(1) s3(1) alloc(2) dev dev1
    by (simp add: arp_reply_def sbuff_add_ref_def sbuff_push_def sbuff_fields_def sbuff_update_eq deref_def layout)
  ultimately show ?thesis
    using that [of "w1\<lparr>sbuffs := (sbuffs w)(p \<mapsto> s3)\<rparr>" s3] s3(2-5) s2(3-5) by simp
qed

subsection \<open>Properties\<close>

text \<open>A world with given buffers, devices and ARP table, and everything else empty.\<close>

definition demo_more where
  "demo_more sb dv t =
    \<lparr>nodes = Map.empty, entries = Map.empty, bucket_arrays = Map.empty, tasks = Map.empty, thead = 0, ttail = 0,
     irq_on = True, interrupt_handlers = (\<lambda>_. (0, 0)), con = console_boot (replicate 4000 0), idt = Map.empty,
     kb = \<lparr>shift = UP, control = UP, alt = UP, capsEnabled = False, numEnabled = False, scrollEnabled = False\<rparr>,
     buffer = \<lparr>bdata = replicate 32 0, br = 0, bw = 0\<rparr>, readKeybd = 0,
     sbuffs = sb, devices = dv, arp_tab = t, ip_devices = \<lparr>data = 0, n_buckets = 0, hash = map_int_hash\<rparr>,
     udp_ports = Map.empty, listening_ports = list_create, streams = Map.empty, all_streams = 0,
     listeners = Map.empty, all_listeners = 0\<rparr>"

definition demo_net :: "(u64 \<rightharpoonup> sbuff) \<Rightarrow> (u64 \<rightharpoonup> netdevice) \<Rightarrow> arp_table \<Rightarrow> nworld" where
  "demo_net sb dv t = kheap.extend \<lparr>kmem = (\<lambda>_. 0), heap_sequence = 0, heap_currentObjects = 0, heap_block = 0\<rparr> (demo_more sb dv t)"

definition empty_arp :: arp_table where
  "empty_arp = \<lparr>arp_ips = replicate 128 0, arp_macs = replicate 128 (replicate 6 0), arp_count = 0\<rparr>"

text \<open>A device that accepts every buffer, and applications that do nothing.\<close>

definition demo_env :: "nworld net_env" where
  "demo_env = \<lparr>send_call = (\<lambda>fn dev sb w. Inr w), read_call = (\<lambda>fn st buf n w. Inr w),
     accept_call = (\<lambda>fn w. Inr (fn, w)), notify_call = (\<lambda>fn q bs n w. Inr w)\<rparr>"

definition demo_device :: netdevice where
  "demo_device = \<lparr>dev_send = 77, dev_ip = 0x0a000002, dev_mac = [2, 0, 0, 0, 0, 1], dev_iomem = 0xc000\<rparr>"

lemma demo_net_sel [simp]:
  "sbuffs (demo_net sb dv t) = sb" "devices (demo_net sb dv t) = dv" "arp_tab (demo_net sb dv t) = t"
  by (simp_all add: demo_net_def demo_more_def kheap.defs)

lemma demo_more_sel:
  "kheap.more (w :: nworld) = demo_more sb dv t \<Longrightarrow> sbuffs w = sb \<and> devices w = dv \<and> arp_tab w = t"
  by (cases w) (simp add: demo_more_def)

lemma empty_arp_rep: "arp_rep empty_arp []"
  by (simp add: arp_rep_def empty_arp_def)

text \<open>
  C37. \<open>sbuff_push\<close> and \<open>sbuff_pop\<close> keep the head of a buffer inside its data: pushing more
  than is left and popping more than was pushed panic, and a pop undoes a push of the same
  size.
\<close>

theorem sbuff_push_pop:
  fixes w :: "'a nworld_scheme"
  assumes "p \<noteq> 0" "sbuffs w p = Some s" "sbuff_ok s"
  shows "(if n \<le> currSize s
      then \<exists>w' s'. sbuff_push p n w = Inr w' \<and> sbuffs w' p = Some s' \<and> sbuff_ok s' \<and>
        contents s' = drop (unat n) (contents s) \<and> sbuff_pop p n w' = Inr w
      else sbuff_push p n w = Inl (Panic ''net: sbuff overflow'')) \<and>
    (shead s < unat n \<longrightarrow> sbuff_pop p n w = Inl (Panic ''net: sbuff underflow''))"
proof (intro conjI impI)
  show "sbuff_pop p n w = Inl (Panic ''net: sbuff underflow'')" if "shead s < unat n"
    using assms that by (simp add: sbuff_pop_def sbuff_update_eq pop_head_def sbuff_ok_def)
  show "if n \<le> currSize s
      then \<exists>w' s'. sbuff_push p n w = Inr w' \<and> sbuffs w' p = Some s' \<and> sbuff_ok s' \<and>
        contents s' = drop (unat n) (contents s) \<and> sbuff_pop p n w' = Inr w
      else sbuff_push p n w = Inl (Panic ''net: sbuff overflow'')"
  proof (cases "n \<le> currSize s")
    case True
    let ?s = "s\<lparr>currSize := currSize s - n, shead := shead s + unat n\<rparr>"
    note push = push_head_ok [OF assms(3) True]
    have "pop_head n ?s = Inr s" using pop_head_ok(1) [OF push(2), of n] by simp
    moreover have "contents ?s = drop (unat n) (contents s)"
      using True by (simp add: contents_def drop_take unat_sub add.commute)
    moreover have "w\<lparr>sbuffs := (sbuffs w)(p \<mapsto> s)\<rparr> = w" using assms(2) by (simp add: fun_upd_idem)
    ultimately show ?thesis
      using True push assms by (simp add: sbuff_push_def sbuff_pop_def sbuff_update_eq)
  next
    case False
    then show ?thesis
      using assms by (simp add: sbuff_push_def sbuff_update_eq push_head_def not_le)
  qed
qed

theorem sbuff_push_pop_witness:
  "\<exists>w' s'. sbuff_push 8 14 (demo_net [8 \<mapsto> \<lparr>totalSize = 60, currSize = 60, shead = 0, srefs = 0, sdata = replicate 67 0\<rparr>] Map.empty empty_arp)
     = Inr w' \<and> sbuffs w' 8 = Some s' \<and> contents s' = replicate 46 0"
proof -
  let ?s = "\<lparr>totalSize = 60, currSize = 60, shead = 0, srefs = 0, sdata = replicate 67 0\<rparr>"
  have "sbuff_ok ?s" by (simp add: sbuff_ok_def)
  then have "if 14 \<le> currSize ?s then \<exists>w' s'. sbuff_push 8 14 (demo_net [8 \<mapsto> ?s] Map.empty empty_arp) = Inr w' \<and>
        sbuffs w' 8 = Some s' \<and> sbuff_ok s' \<and> contents s' = drop (unat (14 :: u16)) (contents ?s) \<and>
        sbuff_pop 8 14 w' = Inr (demo_net [8 \<mapsto> ?s] Map.empty empty_arp)
      else sbuff_push 8 14 (demo_net [8 \<mapsto> ?s] Map.empty empty_arp) = Inl (Panic ''net: sbuff overflow'')"
    using sbuff_push_pop [of 8 "demo_net [8 \<mapsto> ?s] Map.empty empty_arp" ?s 14] by simp
  then show ?thesis by (auto simp: contents_def)
qed

text \<open>
  C26. An ARP reply for this device is learned: while the table has room, its address resolves to
  the oldest binding stored for it, every other address resolves as before, and the 129th
  reply writes past the table.
\<close>

theorem arp_learns:
  assumes dev: "dev \<noteq> 0" "devices w dev = Some d" and rep: "arp_rep (arp_tab w) es"
    and pkt: "get32 bs 24 = Inr (ntol (dev_ip d))" "get16 bs 6 = Inr (ntos 2)"
      "get_bytes bs 8 6 = Inr m" "get32 bs 14 = Inr (ntol a)"
  shows "if length es < 128
    then \<exists>w'. arp_packet env dev bs w = Inr w' \<and> arp_rep (arp_tab w') (es @ [(a, m)]) \<and>
      arp_lookup env dev a w' = Inr (Some (case map_of es a of None \<Rightarrow> m | Some old \<Rightarrow> old), w') \<and>
      (\<forall>b u. map_of es b = Some u \<longrightarrow> arp_lookup env dev b w' = Inr (Some u, w'))
    else arp_packet env dev bs w = Inl (Fault OutOfBounds)"
proof -
  have n2: "ntos (ntos 2) \<noteq> 1" "ntol (ntol x) = x" for x by (simp_all add: ntos.swap_swap ntol.swap_swap)
  have p: "arp_packet env dev bs w = arp_store m a w"
    using dev pkt n2 by (simp add: arp_packet_def deref_def)
  show ?thesis
  proof (cases "length es < 128")
    case True
    then obtain t' where t': "arp_table_add m a (arp_tab w) = Inr t'" "arp_rep t' (es @ [(a, m)])"
      using arp_cache.add_rep [OF rep] by blast
    then have "arp_packet env dev bs w = Inr (w\<lparr>arp_tab := t'\<rparr>)" by (simp add: p arp_store_def)
    moreover have "arp_lookup env dev b (w\<lparr>arp_tab := t'\<rparr>) = Inr (Some u, w\<lparr>arp_tab := t'\<rparr>)"
      if "map_of (es @ [(a, m)]) b = Some u" for b u
      using arp_lookup_known [of "w\<lparr>arp_tab := t'\<rparr>"] t'(2) that by simp
    ultimately show ?thesis using True t'(2) by (auto simp: map_add_def split: option.split)
  next
    case False
    then show ?thesis using arp_cache.add_full [OF rep, of m a] by (simp add: p arp_store_def)
  qed
qed

definition demo_arp :: "u8 \<Rightarrow> u8 list" where
  "demo_arp op = [0, 1, 8, 0, 6, 4, 0, op, 2, 0, 0, 0, 0, 7, 10, 0, 0, 7, 2, 0, 0, 0, 0, 1, 10, 0, 0, 2]"

lemma demo_arp_fields:
  "get32 (demo_arp op) 24 = Inr (ntol 0x0a000002)" "get32 (demo_arp op) 14 = Inr (ntol 0x0a000007)"
  "get_bytes (demo_arp op) 8 6 = Inr [2, 0, 0, 0, 0, 7]"
  "get16 (demo_arp 1) 6 = Inr (ntos 1)" "get16 (demo_arp 2) 6 = Inr (ntos 2)"
  by (simp_all add: demo_arp_def get32_def get16_def get_bytes_def ntol_def ntos_def)

theorem arp_learns_witness:
  "\<exists>w'. arp_packet demo_env 8 (demo_arp 2) (demo_net Map.empty [8 \<mapsto> demo_device] empty_arp) = Inr w' \<and>
     arp_lookup demo_env 8 0x0a000007 w' = Inr (Some [2, 0, 0, 0, 0, 7], w')"
  using arp_learns [of 8 "demo_net Map.empty [8 \<mapsto> demo_device] empty_arp" demo_device "[]" "demo_arp 2"
      "[2, 0, 0, 0, 0, 7]" "0x0a000007" demo_env]
  by (auto simp: empty_arp_rep demo_arp_fields demo_device_def)

text \<open>
  An ARP request for this device's address is answered: one frame, to the sender, whose
  body says that this device's address is at its MAC and returns the sender's own addresses.
\<close>

theorem arp_request_answered:
  fixes w :: "'a nworld_scheme"
  assumes dev: "dev \<noteq> 0" "devices w dev = Some d" "length (dev_mac d) = 6"
    and pkt: "get32 bs 24 = Inr (ntol (dev_ip d))" "get16 bs 6 = Inr (ntos 1)"
      "get_bytes bs 8 6 = Inr m" "get32 bs 14 = Inr (ntol a)"
    and alloc: "kmem_alloc w 66 = Inr (p, w1)" "p \<noteq> 0"
  shows "\<exists>s. arp_packet env dev bs w =
      bind_res (send_call env (dev_send d) dev p (w1\<lparr>sbuffs := (sbuffs w)(p \<mapsto> s)\<rparr>)) (sbuff_release_ref p) \<and>
    contents s = m @ dev_mac d @ [8, 6] @ [0, 1, 8, 0, 6, 4, 0, 2] @ dev_mac d @ rev (b32 (dev_ip d)) @ m @ rev (b32 a)"
proof -
  have m: "length m = 6" using pkt(3) by (auto simp: get_bytes_def split: if_splits)
  obtain s where s: "arp_reply env dev m a False w =
      bind_res (send_call env (dev_send d) dev p (w1\<lparr>sbuffs := (sbuffs w)(p \<mapsto> s)\<rparr>)) (sbuff_release_ref p)"
    "contents s = m @ dev_mac d @ [8, 6] @ arp_body 2 (dev_mac d) (dev_ip d) m a"
    using arp_reply_eq [OF dev m alloc, of env a] by metis
  moreover have "arp_packet env dev bs w = arp_reply env dev m a False w"
    using dev pkt by (simp add: arp_packet_def deref_def ntos.swap_swap ntol.swap_swap)
  moreover have "rev (b16 2) = [0, 2]" by (simp add: split16_rev byte_at_def)
  ultimately show ?thesis by (auto simp: arp_body_def)
qed

theorem arp_request_answered_witness:
  "\<exists>(w :: nworld) w2 s. arp_packet demo_env 8 (demo_arp 1) w = bind_res (send_call demo_env 77 8 32816 w2) (sbuff_release_ref 32816) \<and>
     sbuffs w2 32816 = Some s \<and> take 14 (contents s) = [2, 0, 0, 0, 0, 7, 2, 0, 0, 0, 0, 1, 8, 6]"
proof -
  obtain w w1 :: nworld where w: "kmem_alloc w 66 = Inr (32816, w1)"
      "kheap.more w = demo_more Map.empty [8 \<mapsto> demo_device] empty_arp"
    using boot_alloc [of 66 "demo_more Map.empty [8 \<mapsto> demo_device] empty_arp"] by auto
  have "\<exists>s. arp_packet demo_env 8 (demo_arp 1) w =
      bind_res (send_call demo_env (dev_send demo_device) 8 32816 (w1\<lparr>sbuffs := (sbuffs w)(32816 \<mapsto> s)\<rparr>)) (sbuff_release_ref 32816) \<and>
    contents s = [2, 0, 0, 0, 0, 7] @ dev_mac demo_device @ [8, 6] @ [0, 1, 8, 0, 6, 4, 0, 2] @ dev_mac demo_device @
      rev (b32 (dev_ip demo_device)) @ [2, 0, 0, 0, 0, 7] @ rev (b32 0x0a000007)"
    using demo_more_sel [OF w(2)] w(1)
    by (intro arp_request_answered) (auto simp: demo_arp_fields demo_device_def)
  then obtain s where s: "arp_packet demo_env 8 (demo_arp 1) w =
      bind_res (send_call demo_env 77 8 32816 (w1\<lparr>sbuffs := (sbuffs w)(32816 \<mapsto> s)\<rparr>)) (sbuff_release_ref 32816)"
    "take 14 (contents s) = [2, 0, 0, 0, 0, 7, 2, 0, 0, 0, 0, 1, 8, 6]"
    by (auto simp: demo_device_def)
  show ?thesis
    by (rule exI [of _ w], rule exI [of _ "w1\<lparr>sbuffs := (sbuffs w)(32816 \<mapsto> s)\<rparr>"], rule exI [of _ s]) (use s in simp)
qed

end
