(* ===== verification/Ip.thy ===== *)
theory Ip
  imports NetDev
begin

text \<open>
  IP output of src/src/net/ip.c and the UDP layer of src/src/net/udp.c: allocation of buffers with
  headroom, the IPv4 header and its checksum, the map from addresses to devices, and the list of
  UDP listeners.
\<close>

unbundle bit_operations_syntax

subsection \<open>IP output (ip.c)\<close>

definition EOK :: int where [layout]: "EOK = 0"
definition EADDRINUSE :: int where [layout]: "EADDRINUSE = - 1"
definition EINVALID :: int where [layout]: "EINVALID = - 2"
definition ENOTFOUND :: int where [layout]: "ENOTFOUND = - 3"

definition sizeof_ipv4 :: u16 where [layout]: "sizeof_ipv4 = 20"

definition console_put_ip :: "u32 \<Rightarrow> console \<Rightarrow> console res" where
  "console_put_ip a =
     console_print_string (str ''%d.%d.%d.%d'')
       [AInt (drop_bit 24 a AND 0xff), AInt (drop_bit 16 a AND 0xff), AInt (drop_bit 8 a AND 0xff), AInt (a AND 0xff)]"

definition ip_sbuff_alloc :: "u16 \<Rightarrow> 'a nworld_scheme \<Rightarrow> (u64 \<times> 'a nworld_scheme) res" where
  "ip_sbuff_alloc sz w =
     bind_res (ethernet_sbuff_alloc (sz + sizeof_ipv4) w) (\<lambda>(p, w).
     bind_res (sbuff_push p sizeof_ipv4 w) (\<lambda>w. Inr (p, w)))"

text \<open>The bit fields \<open>ihl\<close>, \<open>version\<close> share byte 0, \<open>ecn\<close>, \<open>dscp\<close> byte 1 and \<open>fragmentOffset\<close>, \<open>flags\<close> bytes 6 and 7.\<close>

definition ipv4_fields :: "u16 \<Rightarrow> u8 \<Rightarrow> u32 \<Rightarrow> u32 \<Rightarrow> (nat \<times> u8 list) list" where
  "ipv4_fields len proto src dest =
     [(0, [0x45]), (1, [0]), (2, b16 (ntos len)), (4, b16 0), (6, b16 0), (8, [64]), (9, [proto]), (10, b16 0),
      (12, b32 (ntol src)), (16, b32 (ntol dest))]"

definition ip_send ::
  "'a nworld_scheme net_env \<Rightarrow> u64 \<Rightarrow> u8 \<Rightarrow> u32 \<Rightarrow> u64 \<Rightarrow> 'a nworld_scheme \<Rightarrow> (int \<times> 'a nworld_scheme) res" where
  "ip_send env sb proto dest dev w =
     bind_res (sbuff_pop sb sizeof_ipv4 w) (\<lambda>w.
     bind_res (deref (sbuffs w) sb) (\<lambda>s.
     bind_res (deref (devices w) dev) (\<lambda>d.
     bind_res (sbuff_fields sb (ipv4_fields (currSize s) proto (dev_ip d) dest) w) (\<lambda>w.
     bind_res (sbuff_update sb (edit_head (\<lambda>h. checksum_at h (unat sizeof_ipv4) 10)) w) (\<lambda>w.
     bind_res (arp_lookup env dev dest w) (\<lambda>(r, w). case r of
       Some destMac \<Rightarrow> bind_res (ethernet_send env sb 0x0800 destMac dev w) (\<lambda>w. Inr (EOK, w))
     | None \<Rightarrow> Inr (ENOTFOUND, w)))))))"

definition ip_add_device :: "u64 \<Rightarrow> 'a nworld_scheme \<Rightarrow> 'a nworld_scheme res" where
  "ip_add_device dev w =
     bind_res (deref (devices w) dev) (\<lambda>d. map_add_kv w (ip_devices w) (dev_ip d) dev)"

definition ip_resolve_local :: "u32 \<Rightarrow> 'a nworld_scheme \<Rightarrow> u64 res" where
  "ip_resolve_local a w = map_lookup w (ip_devices w) (ntol a)"

subsection \<open>UDP (udp.c)\<close>

definition sizeof_udp_header :: u16 where [layout]: "sizeof_udp_header = 8"
definition sizeof_udp_listening_port :: u64 where [layout]: "sizeof_udp_listening_port = 16"

definition udp_sbuff_alloc :: "u32 \<Rightarrow> 'a nworld_scheme \<Rightarrow> (u64 \<times> 'a nworld_scheme) res" where
  "udp_sbuff_alloc sz w =
     bind_res (ip_sbuff_alloc (ucast sz + sizeof_udp_header) w) (\<lambda>(p, w).
     bind_res (sbuff_push p sizeof_udp_header w) (\<lambda>w. Inr (p, w)))"

text \<open>The header at the head of the buffer, then \<open>checksum(hdr, len, &hdr->chksum)\<close>.\<close>

definition udp_header :: "u64 \<Rightarrow> u16 \<Rightarrow> u16 \<Rightarrow> u16 \<Rightarrow> nat \<Rightarrow> 'a nworld_scheme \<Rightarrow> 'a nworld_scheme res" where
  "udp_header sb srcPort destPort len clen w =
     bind_res (sbuff_pop sb sizeof_udp_header w) (\<lambda>w.
     bind_res (sbuff_fields sb [(0, b16 (ntos srcPort)), (2, b16 (ntos destPort)), (4, b16 (ntos len))] w) (\<lambda>w.
       sbuff_update sb (edit_head (\<lambda>h. checksum_at h clen 6)) w))"

definition do_send ::
  "'a nworld_scheme net_env \<Rightarrow> u64 \<Rightarrow> u16 \<Rightarrow> u16 \<Rightarrow> u32 \<Rightarrow> u16 \<Rightarrow> u64 \<Rightarrow> 'a nworld_scheme \<Rightarrow> (int \<times> 'a nworld_scheme) res" where
  "do_send env sb len dstPort dstIp srcPort dev w =
     bind_res (udp_header sb srcPort dstPort len (unat len) w) (\<lambda>w.
     bind_res (ip_send env sb 17 dstIp dev w) (\<lambda>(r, w). Inr (EOK, w)))"

definition udp_send ::
  "'a nworld_scheme net_env \<Rightarrow> udp_quad \<Rightarrow> u8 list \<Rightarrow> u32 \<Rightarrow> 'a nworld_scheme \<Rightarrow> (int \<times> 'a nworld_scheme) res" where
  "udp_send env quad bs sz w =
     bind_res (udp_sbuff_alloc sz w) (\<lambda>(sb, w).
     bind_res (get_bytes bs 0 (unat sz)) (\<lambda>pl.
     bind_res (sbuff_fields sb [(0, pl)] w) (\<lambda>w.
     bind_res (ip_resolve_local (src_addr quad) w) (\<lambda>dev.
       if dev = 0 then Inr (EINVALID, w)
       else
         bind_res (udp_header sb (src_port quad) (dst_port quad) (ucast sz) (unat sz) w) (\<lambda>w.
           ip_send env sb 17 (dst_addr quad) dev w)))))"

text \<open>The body of the loop of \<open>udp_datagram\<close>, and the loop over the listening ports.\<close>

definition udp_deliver ::
  "'a nworld_scheme net_env \<Rightarrow> u64 \<Rightarrow> u8 list \<Rightarrow> u32 \<Rightarrow> udp_listening_port \<Rightarrow> 'a nworld_scheme \<Rightarrow> 'a nworld_scheme res" where
  "udp_deliver env dev bs srcIp p w =
     bind_res (get16 bs 2) (\<lambda>destPort.
       if ntos destPort = uport p then
         bind_res (deref (devices w) dev) (\<lambda>d.
         bind_res (get16 bs 0) (\<lambda>srcPort.
         bind_res (get16 bs 4) (\<lambda>len.
           notify_call env (ucb p) \<lparr>src_addr = srcIp, dst_addr = ntol (dev_ip d), src_port = ntos srcPort, dst_port = ntos destPort\<rparr>
             (drop 8 bs) (ucast (ntos len)) w)))
       else Inr w)"

function udp_walk ::
  "nat \<Rightarrow> (udp_listening_port \<Rightarrow> 'a nworld_scheme \<Rightarrow> 'a nworld_scheme res) \<Rightarrow> u64 \<Rightarrow> 'a nworld_scheme \<Rightarrow> 'a nworld_scheme res" where
  "udp_walk fuel body node w =
     (if node = 0 then Inr w
      else if fuel = 0 then Inl (Fault Diverges)
      else bind_res (deref (nodes w) node) (\<lambda>n.
           bind_res (deref (udp_ports w) (payload n)) (\<lambda>p.
           bind_res (body p w) (\<lambda>w.
           bind_res (deref (nodes w) node) (\<lambda>n. udp_walk (fuel - 1) body (nxt n) w)))))"
  by pat_completeness auto
termination
  by (relation "measure (\<lambda>(fuel, body, node, w). fuel)") auto

declare udp_walk.simps [simp del]

definition udp_datagram ::
  "'a nworld_scheme net_env \<Rightarrow> u64 \<Rightarrow> u8 list \<Rightarrow> u32 \<Rightarrow> 'a nworld_scheme \<Rightarrow> 'a nworld_scheme res" where
  "udp_datagram env dev bs srcIp w = udp_walk walk_fuel (udp_deliver env dev bs srcIp) (lhead (listening_ports w)) w"

definition udp_listen :: "u32 \<Rightarrow> u64 \<Rightarrow> 'a nworld_scheme \<Rightarrow> (int \<times> 'a nworld_scheme) res" where
  "udp_listen port on_read w =
     bind_res (kmem_alloc w sizeof_udp_listening_port) (\<lambda>(l, w).
     bind_res (list_append (w\<lparr>udp_ports := (udp_ports w)(l \<mapsto> \<lparr>uport = ucast port, ucb = on_read\<rparr>)\<rparr>) (listening_ports w) l)
       (\<lambda>(node, ls, w). Inr (EOK, w\<lparr>listening_ports := ls\<rparr>)))"

subsection \<open>Checksums inside a buffer\<close>

lemma csum_verify_take:
  assumes "even len" "len \<le> length d"
  shows "csum_verify d len = Inr (csum_fold (of_nat (be_sum (take len d))))"
  using csum_loop_eq [of len d 0 0] assms by (simp add: csum_verify_def)

lemma take_splice:
  assumes "length bs = m" "k + m \<le> n" "n \<le> length d"
  shows "take n (take k d @ bs @ drop (k + m) d) = take k (take n d) @ bs @ drop (k + m) (take n d)"
proof -
  have "min k n = k" "min (length d) k = k" using assms by auto
  then show ?thesis using assms by (simp add: drop_take)
qed

lemma checksum_at_contents:
  assumes ok: "sbuff_ok s" and len: "even len" "len \<le> unat (currSize s)" and k: "even k" "k + 2 \<le> len"
  obtains s' c where "edit_head (\<lambda>h. checksum_at h len k) s = Inr s'" "sbuff_ok s'"
    "contents s' = take k (contents s) @ b16 (ntos c) @ drop (k + 2) (contents s)"
    "csum_verify (contents s') len = Inr 0xffff"
    "shead s' = shead s" "currSize s' = currSize s" "totalSize s' = totalSize s" "srefs s' = srefs s"
proof -
  let ?d = "drop (shead s) (sdata s)"
  have n: "unat (currSize s) \<le> length ?d" "shead s \<le> length (sdata s)" using ok by (auto simp: sbuff_ok_def)
  have l: "len < 65536" using len(2) unat_less_2p [of "currSize s"] by simp
  have ld: "len \<le> length ?d" using len(2) n(1) by linarith
  obtain c where c: "checksum ?d len k = Inr (take k ?d @ b16 (ntos c) @ drop (k + 2) ?d)"
    "csum_verify (take k ?d @ b16 (ntos c) @ drop (k + 2) ?d) len = Inr 0xffff"
    by (rule checksum_result [OF len(1) ld l k])
  let ?e = "take k ?d @ b16 (ntos c) @ drop (k + 2) ?d"
  let ?s = "s\<lparr>sdata := take (shead s) (sdata s) @ ?e\<rparr>"
  have e: "edit_head (\<lambda>h. checksum_at h len k) s = Inr ?s" using c(1) by (simp add: edit_head_def checksum_at_def)
  have le: "length ?e = length ?d" using k len n by simp
  have cs: "contents ?s = take (unat (currSize s)) ?e" using n by (simp add: contents_def)
  also have "\<dots> = take k (contents s) @ b16 (ntos c) @ drop (k + 2) (contents s)"
    unfolding contents_def by (rule take_splice [OF length_split_le _ n(1)]) (use k(2) len(2) in linarith)
  finally have con: "contents ?s = take k (contents s) @ b16 (ntos c) @ drop (k + 2) (contents s)" .
  have "take len (contents ?s) = take len ?e" unfolding cs take_take min.absorb1 [OF len(2)] ..
  moreover have "len \<le> length ?e" unfolding le by (rule ld)
  moreover have "len \<le> length (contents ?s)" unfolding cs length_take le using ld len(2) by linarith
  ultimately have v: "csum_verify (contents ?s) len = Inr 0xffff"
    using c(2) csum_verify_take [OF len(1)] by metis
  have "sbuff_ok ?s" using ok le n by (simp add: sbuff_ok_def)
  from that [OF e this con v] show ?thesis by simp
qed

subsection \<open>The packet that is sent\<close>

definition ipv4_header :: "u16 \<Rightarrow> u8 \<Rightarrow> u8 list \<Rightarrow> u32 \<Rightarrow> u32 \<Rightarrow> u8 list" where
  "ipv4_header len proto ck src dest =
     [0x45, 0] @ rev (b16 len) @ [0, 0, 0, 0, 64, proto] @ ck @ rev (b32 src) @ rev (b32 dest)"

lemma zero16: "b16 0 = [0, 0]"
  by (simp add: split_le_def byte_at_def numeral_2_eq_2)

lemma ipv4_fields_header:
  "concat (map snd (ipv4_fields len proto src dest)) = ipv4_header len proto [0, 0] src dest"
  "adjacent 0 (ipv4_fields len proto src dest)"
  by (simp_all add: ipv4_fields_def ipv4_header_def split_ntos split_ntol zero16)

lemma ipv4_header_ck:
  "take 10 (ipv4_header len proto [0, 0] src dest @ bs) @ ck @ drop 12 (ipv4_header len proto [0, 0] src dest @ bs) =
     ipv4_header len proto ck src dest @ bs"
  by (simp add: ipv4_header_def split16_rev)

lemma csum_verify_append:
  assumes "even len" "len \<le> length d"
  shows "csum_verify (d @ bs) len = csum_verify d len"
  using assms by (simp add: csum_verify_take)

lemma ip_send_known:
  fixes w :: "'a nworld_scheme"
  assumes sb: "sb \<noteq> 0" "sbuffs w sb = Some s" "sbuff_ok s" "34 \<le> shead s"
    and dev: "dev \<noteq> 0" "devices w dev = Some d" "length (dev_mac d) = 6"
    and arp: "arp_rep (arp_tab w) es" "map_of es dest = Some m" "length m = 6"
  obtains s' ck where "ip_send env sb proto dest dev w =
      bind_res (send_call env (dev_send d) dev sb (w\<lparr>sbuffs := (sbuffs w)(sb \<mapsto> s')\<rparr>)) (\<lambda>w. Inr (EOK, w))"
    "contents s' = m @ dev_mac d @ [8, 0] @ ipv4_header (currSize s + 20) proto ck (dev_ip d) dest @ contents s"
    "length ck = 2" "csum_verify (ipv4_header (currSize s + 20) proto ck (dev_ip d) dest) 20 = Inr 0xffff"
    "srefs s' = srefs s" "shead s' = shead s - 34" "sbuff_ok s'"
proof -
  let ?len = "currSize s + 20" and ?s = "s\<lparr>currSize := currSize s + 20, shead := shead s - unat (20 :: u16)\<rparr>"
  let ?fs = "ipv4_fields ?len proto (dev_ip d) dest" and ?H = "\<lambda>ck. ipv4_header ?len proto ck (dev_ip d) dest"
  have fs: "unat (20 :: u16) \<le> shead s" "length (concat (map snd ?fs)) = unat (20 :: u16)"
    using sb(4) by (simp_all add: ipv4_fields_header ipv4_header_def)
  obtain s1 where s1: "pop_head 20 s = Inr ?s" "edit_head (\<lambda>h. put_fields h ?fs) ?s = Inr s1" "sbuff_ok s1"
    "contents s1 = concat (map snd ?fs) @ contents s" "shead s1 = shead s - unat (20 :: u16)"
    "srefs s1 = srefs s" "unat (currSize s1) = unat (currSize s) + unat (20 :: u16)"
    by (rule prepend_header [OF sb(3) fs(1) ipv4_fields_header(2) fs(2)])
  have n: "20 \<le> unat (currSize s1)" using s1(7) by simp
  obtain s2 c where s2: "edit_head (\<lambda>h. checksum_at h 20 10) s1 = Inr s2" "sbuff_ok s2"
    "contents s2 = take 10 (contents s1) @ b16 (ntos c) @ drop (10 + 2) (contents s1)"
    "csum_verify (contents s2) 20 = Inr 0xffff" "shead s2 = shead s1" "srefs s2 = srefs s1"
    by (rule checksum_at_contents [OF s1(3) _ n, of 10]) simp_all
  have c2: "contents s2 = ?H (b16 (ntos c)) @ contents s"
    using s2(3) ipv4_header_ck [of ?len proto "dev_ip d" dest "contents s" "b16 (ntos c)"]
    unfolding s1(4) ipv4_fields_header by simp
  have v: "csum_verify (?H (b16 (ntos c))) 20 = Inr 0xffff"
    using s2(4) unfolding c2 by (subst (asm) csum_verify_append) (simp_all add: ipv4_header_def)
  let ?w = "w\<lparr>sbuffs := (sbuffs w)(sb \<mapsto> s2)\<rparr>"
  obtain s3 where s3: "ethernet_send env sb 0x0800 m dev ?w =
      send_call env (dev_send d) dev sb (?w\<lparr>sbuffs := (sbuffs ?w)(sb \<mapsto> s3)\<rparr>)" "sbuff_ok s3"
    "contents s3 = m @ dev_mac d @ b16 (ntos 0x0800) @ contents s2" "srefs s3 = srefs s2" "shead s3 = shead s2 - 14"
    by (rule ethernet_send_eq [where sb = sb and w = ?w and s = s2 and dev = dev and d = d and dest = m and env = env and proto = "0x0800"])
      (use sb s1(5) s2(2,5) dev arp(3) in auto)
  have "arp_lookup env dev dest ?w = Inr (Some m, ?w)" by (rule arp_lookup_known) (use arp in simp_all)
  then have "ip_send env sb proto dest dev w =
      bind_res (send_call env (dev_send d) dev sb (w\<lparr>sbuffs := (sbuffs w)(sb \<mapsto> s3)\<rparr>)) (\<lambda>w. Inr (EOK, w))"
    using sb(1,2) dev(1,2) s1(1,2) s2(1) s3(1)
    by (simp add: ip_send_def sbuff_pop_def sbuff_fields_def sbuff_update_eq deref_def layout)
  moreover have "b16 (ntos 0x0800) = [8, 0]" by (simp add: split_ntos split16_rev byte_at_def)
  ultimately show ?thesis using that [of s3 "b16 (ntos c)"] s3 c2 v s2(5,6) s1(5,6) by simp
qed

subsection \<open>UDP listeners\<close>

text \<open>The listeners registered, in order, and the calls of the matching ones one after the other.\<close>

definition udp_listeners :: "'a nworld_scheme \<Rightarrow> u64 list \<Rightarrow> udp_listening_port list \<Rightarrow> bool" where
  "udp_listeners w as ps \<longleftrightarrow> dll (nodes w) (listening_ports w) as \<and>
     list_all2 (\<lambda>a p. payload (the (nodes w a)) \<noteq> 0 \<and> udp_ports w (payload (the (nodes w a))) = Some p) as ps"

fun run_all :: "('p \<Rightarrow> 'w \<Rightarrow> 'w res) \<Rightarrow> 'p list \<Rightarrow> 'w \<Rightarrow> 'w res" where
  "run_all f [] w = Inr w"
| "run_all f (p # ps) w = bind_res (f p w) (run_all f ps)"

definition same_net :: "'a nworld_scheme \<Rightarrow> 'a nworld_scheme \<Rightarrow> bool" where
  "same_net w w' \<longleftrightarrow> nodes w' = nodes w \<and> udp_ports w' = udp_ports w \<and> devices w' = devices w"

lemma udp_walk_listeners:
  fixes w :: "'a nworld_scheme"
  assumes "dseg (nodes w) q as 0" "length as < fuel"
    "list_all2 (\<lambda>a p. payload (the (nodes w a)) \<noteq> 0 \<and> udp_ports w (payload (the (nodes w a))) = Some p) as ps"
    "\<And>p w' w''. p \<in> set ps \<Longrightarrow> same_net w w' \<Longrightarrow> body p w' = Inr w'' \<Longrightarrow> same_net w' w''"
    "same_net w v"
  shows "udp_walk fuel body (first_or 0 as) v = run_all body ps v"
  using assms
proof (induction as arbitrary: q ps fuel v)
  case Nil
  then show ?case by (simp add: udp_walk.simps)
next
  case (Cons a as)
  from Cons.prems(3) obtain p ps' where ps: "ps = p # ps'" by (auto simp: list_all2_Cons1)
  note prems = Cons.prems [unfolded ps]
  from prems(1) obtain n where n: "a \<noteq> 0" "nodes w a = Some n" "nxt n = first_or 0 as" "dseg (nodes w) a as 0" by auto
  have v: "nodes v = nodes w" "udp_ports v = udp_ports w" using prems(5) by (simp_all add: same_net_def)
  have step: "udp_walk fuel body a v = bind_res (body p v) (\<lambda>v. bind_res (deref (nodes v) a) (\<lambda>n. udp_walk (fuel - 1) body (nxt n) v))"
    using prems(2,3) n v by (subst udp_walk.simps) (simp add: deref_def)
  show ?case
  proof (cases "body p v")
    case (Inl e)
    then show ?thesis using step by (simp add: ps)
  next
    case (Inr v')
    have vv: "same_net v v'" using prems(4) [of p v v'] prems(5) Inr by simp
    then have "deref (nodes v') a = Inr n" using n v by (simp add: deref_def same_net_def)
    moreover have "udp_walk (fuel - 1) body (first_or 0 as) v' = run_all body ps' v'"
    proof (rule Cons.IH [OF n(4)])
      show "same_net w v'" using prems(5) vv by (simp add: same_net_def)
      show "same_net w' w''" if "p \<in> set ps'" "same_net w w'" "body p w' = Inr w''" for p w' w''
        using prems(4) [of p w' w''] that by simp
    qed (use prems(2,3) in simp_all)
    ultimately show ?thesis using step n(3) Inr by (simp add: ps)
  qed
qed

lemma run_all_filter:
  "run_all (\<lambda>p. if P p then f p else Inr) ps w = run_all f (filter P ps) w"
  by (induction ps arbitrary: w) (auto split: sum.splits intro: bind_res_cong)

lemma run_all_cong:
  fixes w :: "'a nworld_scheme"
  assumes "\<And>p w'. p \<in> set ps \<Longrightarrow> same_net w w' \<Longrightarrow> f p w' = g p w'"
    "\<And>p w' w''. p \<in> set ps \<Longrightarrow> same_net w w' \<Longrightarrow> g p w' = Inr w'' \<Longrightarrow> same_net w' w''" "same_net w v"
  shows "run_all f ps v = run_all g ps v"
  using assms
proof (induction ps arbitrary: v)
  case (Cons p ps)
  have "f p v = g p v" using Cons.prems by simp
  moreover have "run_all f ps v' = run_all g ps v'" if "g p v = Inr v'" for v'
  proof (rule Cons.IH)
    have "same_net v v'" using Cons.prems(2) [of p v v'] Cons.prems(3) that by simp
    then show "same_net w v'" using Cons.prems(3) by (simp add: same_net_def)
    show "same_net w' w''" if "q \<in> set ps" "same_net w w'" "g q w' = Inr w''" for q w' w''
      using Cons.prems(2) [of q w' w''] that by simp
  qed (use Cons.prems in simp_all)
  ultimately show ?case by (auto intro: bind_res_cong)
qed simp

subsection \<open>Properties\<close>

text \<open>
  C15. \<open>ip_send\<close> to an address ARP knows hands the device one frame: Ethernet header for the
  known MAC, an IPv4 header with the total length, protocol and both addresses whose checksum
  verifies, and the contents of the buffer. It returns EOK when the device does.
\<close>

theorem ip_send_frame:
  fixes w :: "'a nworld_scheme"
  assumes "sb \<noteq> 0" "sbuffs w sb = Some s" "sbuff_ok s" "34 \<le> shead s"
    and "dev \<noteq> 0" "devices w dev = Some d" "length (dev_mac d) = 6"
    and "arp_rep (arp_tab w) es" "map_of es dest = Some m" "length m = 6"
  shows "\<exists>s' ck. ip_send env sb proto dest dev w =
      bind_res (send_call env (dev_send d) dev sb (w\<lparr>sbuffs := (sbuffs w)(sb \<mapsto> s')\<rparr>)) (\<lambda>w. Inr (EOK, w)) \<and>
    contents s' = m @ dev_mac d @ [8, 0] @ ipv4_header (currSize s + 20) proto ck (dev_ip d) dest @ contents s \<and>
    length ck = 2 \<and> csum_verify (ipv4_header (currSize s + 20) proto ck (dev_ip d) dest) 20 = Inr 0xffff"
  by (rule ip_send_known [OF assms, of env proto]) blast

theorem ip_send_frame_witness:
  "\<exists>w' s' ck. ip_send demo_env 16 17 0x0a000007 8
       (demo_net [16 \<mapsto> \<lparr>totalSize = 42, currSize = 8, shead = 34, srefs = 1, sdata = replicate 49 1\<rparr>] [8 \<mapsto> demo_device]
         (empty_arp\<lparr>arp_ips := (replicate 128 0)[0 := 0x0a000007], arp_count := 1\<rparr>)) = Inr (0, w') \<and>
     sbuffs w' 16 = Some s' \<and> length ck = 2 \<and>
     contents s' = replicate 6 0 @ [2, 0, 0, 0, 0, 1, 8, 0] @ ipv4_header 28 17 ck 0x0a000002 0x0a000007 @ replicate 8 1"
proof -
  let ?s = "\<lparr>totalSize = 42, currSize = 8, shead = 34, srefs = 1, sdata = replicate 49 1\<rparr>"
  let ?t = "empty_arp\<lparr>arp_ips := (replicate 128 0)[0 := 0x0a000007], arp_count := 1\<rparr>"
  let ?w = "demo_net [16 \<mapsto> ?s] [8 \<mapsto> demo_device] ?t"
  have "\<exists>t'. arp_table_add (replicate 6 0) 0x0a000007 empty_arp = Inr t' \<and> arp_rep t' ([] @ [(0x0a000007, replicate 6 0)])"
    using arp_cache.add_rep [OF empty_arp_rep] by simp
  moreover have "(replicate 128 x)[0 := x] = replicate 128 x" for x :: mac
    using list_update_id [of "replicate 128 x" 0] by simp
  ultimately have rep: "arp_rep ?t [(0x0a000007, replicate 6 0)]"
    by (simp add: arp_table_add_def empty_arp_def)
  have "\<exists>s' ck. ip_send demo_env 16 17 0x0a000007 8 ?w =
      bind_res (send_call demo_env (dev_send demo_device) 8 16 (?w\<lparr>sbuffs := (sbuffs ?w)(16 \<mapsto> s')\<rparr>)) (\<lambda>w. Inr (EOK, w)) \<and>
    contents s' = replicate 6 0 @ dev_mac demo_device @ [8, 0] @
      ipv4_header (currSize ?s + 20) 17 ck (dev_ip demo_device) 0x0a000007 @ contents ?s \<and>
    length ck = 2 \<and> csum_verify (ipv4_header (currSize ?s + 20) 17 ck (dev_ip demo_device) 0x0a000007) 20 = Inr 0xffff"
    by (rule ip_send_frame [where es = "[(0x0a000007, replicate 6 0)]"])
      (use rep in \<open>simp_all add: sbuff_ok_def demo_device_def\<close>)
  then obtain s' ck where r: "ip_send demo_env 16 17 0x0a000007 8 ?w = Inr (0, ?w\<lparr>sbuffs := (sbuffs ?w)(16 \<mapsto> s')\<rparr>)"
    "contents s' = replicate 6 0 @ [2, 0, 0, 0, 0, 1, 8, 0] @ ipv4_header 28 17 ck 0x0a000002 0x0a000007 @ replicate 8 1" "length ck = 2"
    by (auto simp: demo_env_def demo_device_def EOK_def contents_def)
  show ?thesis
    by (rule exI [of _ "?w\<lparr>sbuffs := (sbuffs ?w)(16 \<mapsto> s')\<rparr>"], rule exI [of _ s'], rule exI [of _ ck]) (use r in simp)
qed

text \<open>
  C38. A UDP datagram is delivered to exactly the listeners registered for its destination port,
  each once, in the order of registration, with the address pair, the bytes behind the header
  and the length of the header; callbacks that leave the listener list alone are assumed.
\<close>

theorem udp_datagram_dispatch:
  fixes w :: "'a nworld_scheme"
  assumes ls: "udp_listeners w as ps" and dev: "dev \<noteq> 0" "devices w dev = Some d"
    and hdr: "get16 bs 0 = Inr (ntos sport)" "get16 bs 2 = Inr (ntos dport)" "get16 bs 4 = Inr (ntos len)"
    and stable: "\<And>fn q d n w' w''. notify_call env fn q d n w' = Inr w'' \<Longrightarrow> same_net w' w''"
  shows "udp_datagram env dev bs srcIp w =
    run_all (\<lambda>p. notify_call env (ucb p)
        \<lparr>src_addr = srcIp, dst_addr = ntol (dev_ip d), src_port = sport, dst_port = dport\<rparr> (drop 8 bs) (ucast len))
      (filter (\<lambda>p. uport p = dport) ps) w"
proof -
  let ?call = "\<lambda>p. notify_call env (ucb p)
        \<lparr>src_addr = srcIp, dst_addr = ntol (dev_ip d), src_port = sport, dst_port = dport\<rparr> (drop 8 bs) (ucast len)"
  let ?body = "\<lambda>p. if uport p = dport then ?call p else Inr"
  have eq: "udp_deliver env dev bs srcIp p w' = ?body p w'" if "same_net w w'" for p w'
    using that dev hdr by (auto simp: udp_deliver_def deref_def same_net_def ntos.swap_swap)
  have st: "same_net w' w''" if "?body p w' = Inr w''" for p w' w''
    using that stable by (auto simp: same_net_def split: if_splits)
  have dl: "dll (nodes w) (listening_ports w) as" using ls by (simp add: udp_listeners_def)
  then have fuel: "length as < walk_fuel" using dseg_length by (auto simp: dll_def walk_fuel_def)
  have "udp_datagram env dev bs srcIp w = run_all (udp_deliver env dev bs srcIp) ps w"
    unfolding udp_datagram_def
  proof -
    have "udp_walk walk_fuel (udp_deliver env dev bs srcIp) (first_or 0 as) w = run_all (udp_deliver env dev bs srcIp) ps w"
    proof (rule udp_walk_listeners [of w 0])
      show "same_net w' w''" if "p \<in> set ps" "same_net w w'" "udp_deliver env dev bs srcIp p w' = Inr w''" for p w' w''
        using st [of p w' w''] that(3) unfolding eq [OF that(2)] by simp
    qed (use dl fuel ls in \<open>simp_all add: dll_def udp_listeners_def same_net_def\<close>)
    then show "udp_walk walk_fuel (udp_deliver env dev bs srcIp) (lhead (listening_ports w)) w =
        run_all (udp_deliver env dev bs srcIp) ps w"
      using dl by (simp add: dll_def)
  qed
  also have "\<dots> = run_all ?body ps w"
  proof (rule run_all_cong [of ps w])
    show "same_net w' w''" if "?body p w' = Inr w''" for p w' w'' using that by (rule st)
    show "udp_deliver env dev bs srcIp p w' = ?body p w'" if "same_net w w'" for p w' using that by (rule eq)
  qed (simp add: same_net_def)
  also have "\<dots> = run_all ?call (filter (\<lambda>p. uport p = dport) ps) w" by (rule run_all_filter)
  finally show ?thesis .
qed

theorem udp_datagram_dispatch_witness:
  "udp_datagram (demo_env\<lparr>notify_call := (\<lambda>fn q d n w. Inr (w\<lparr>all_streams := fn\<rparr>))\<rparr>) 8 [0, 9, 0, 7, 0, 8, 0, 0] 5
     (demo_net Map.empty [8 \<mapsto> demo_device] empty_arp
       \<lparr>nodes := [32 \<mapsto> \<lparr>prev = 0, nxt = 64, payload = 48\<rparr>, 64 \<mapsto> \<lparr>prev = 32, nxt = 0, payload = 80\<rparr>],
        udp_ports := [48 \<mapsto> \<lparr>uport = 7, ucb = 99\<rparr>, 80 \<mapsto> \<lparr>uport = 8, ucb = 98\<rparr>], listening_ports := \<lparr>lhead = 32, ltail = 64\<rparr>\<rparr>) =
   Inr (demo_net Map.empty [8 \<mapsto> demo_device] empty_arp
       \<lparr>nodes := [32 \<mapsto> \<lparr>prev = 0, nxt = 64, payload = 48\<rparr>, 64 \<mapsto> \<lparr>prev = 32, nxt = 0, payload = 80\<rparr>],
        udp_ports := [48 \<mapsto> \<lparr>uport = 7, ucb = 99\<rparr>, 80 \<mapsto> \<lparr>uport = 8, ucb = 98\<rparr>], listening_ports := \<lparr>lhead = 32, ltail = 64\<rparr>, all_streams := 99\<rparr>)"
proof -
  let ?w = "demo_net Map.empty [8 \<mapsto> demo_device] empty_arp
       \<lparr>nodes := [32 \<mapsto> \<lparr>prev = 0, nxt = 64, payload = 48\<rparr>, 64 \<mapsto> \<lparr>prev = 32, nxt = 0, payload = 80\<rparr>],
        udp_ports := [48 \<mapsto> \<lparr>uport = 7, ucb = 99\<rparr>, 80 \<mapsto> \<lparr>uport = 8, ucb = 98\<rparr>], listening_ports := \<lparr>lhead = 32, ltail = 64\<rparr>\<rparr>"
  let ?bs = "[0, 9, 0, 7, 0, 8, 0, 0] :: u8 list"
  let ?env = "demo_env\<lparr>notify_call := (\<lambda>fn q d n w. Inr (w\<lparr>all_streams := fn\<rparr>))\<rparr>"
  have ls: "udp_listeners ?w [32, 64] [\<lparr>uport = 7, ucb = 99\<rparr>, \<lparr>uport = 8, ucb = 98\<rparr>]"
    by (simp add: udp_listeners_def dll_def last_or_def)
  have dev: "(8 :: u64) \<noteq> 0" "devices ?w 8 = Some demo_device" by (simp_all add: demo_net_def demo_more_def kheap.defs)
  have hdr: "get16 ?bs 0 = Inr (ntos 9)" "get16 ?bs 2 = Inr (ntos 7)" "get16 ?bs 4 = Inr (ntos 8)"
    by (simp_all add: get16_def get_bytes_def ntos_def)
  have st: "same_net w' w''" if "notify_call ?env fn q d n w' = Inr w''" for fn q d n w' w''
    using that by (auto simp: same_net_def)
  note run = udp_datagram_dispatch [where env = ?env and srcIp = 5, OF ls dev hdr]
  show ?thesis by (subst run) (use st in auto)
qed

end
