(* ===== verification/Tcp.thy ===== *)
theory Tcp
  imports Ip
begin

text \<open>
  The TCP layer of src/src/net/tcp.c: streams and listeners as linked structs in typed stores, the
  segments it sends, and the handling of an incoming segment. What applications do when they
  accept and read is a parameter.
\<close>

unbundle bit_operations_syntax

subsection \<open>Streams\<close>

definition sizeof_stream :: u64 where [layout]: "sizeof_stream = 72"
definition sizeof_listen_state :: u64 where [layout]: "sizeof_listen_state = 24"
definition sizeof_tcp_hdr :: u16 where [layout]: "sizeof_tcp_hdr = 20"
definition sizeof_pseudo :: nat where [layout]: "sizeof_pseudo = 12"

definition Fin :: u8 where [layout]: "Fin = 0x01"
definition Syn :: u8 where [layout]: "Syn = 0x02"
definition Rst :: u8 where [layout]: "Rst = 0x04"
definition Psh :: u8 where [layout]: "Psh = 0x08"
definition Ack :: u8 where [layout]: "Ack = 0x10"

definition IPPROTO_TCP :: u8 where [layout]: "IPPROTO_TCP = 6"

definition stream_update :: "u64 \<Rightarrow> (stream \<Rightarrow> stream) \<Rightarrow> 'a nworld_scheme \<Rightarrow> 'a nworld_scheme res" where
  "stream_update s f w =
     bind_res (deref (streams w) s) (\<lambda>st. Inr (w\<lparr>streams := (streams w)(s \<mapsto> f st)\<rparr>))"

text \<open>The loop of \<open>remove_stream\<close>: the stream before \<open>s\<close>, or NULL.\<close>

function stream_before :: "nat \<Rightarrow> (u64 \<rightharpoonup> stream) \<Rightarrow> u64 \<Rightarrow> u64 \<Rightarrow> u64 res" where
  "stream_before fuel ss s before =
     (if before = 0 then Inr 0
      else if fuel = 0 then Inl (Fault Diverges)
      else bind_res (deref ss before) (\<lambda>b.
        if snext b = s then Inr before else stream_before (fuel - 1) ss s (snext b)))"
  by pat_completeness auto
termination
  by (relation "measure (\<lambda>(fuel, ss, s, before). fuel)") auto

declare stream_before.simps [simp del]

definition remove_stream :: "u64 \<Rightarrow> 'a nworld_scheme \<Rightarrow> 'a nworld_scheme res" where
  "remove_stream s w =
     bind_res (stream_before walk_fuel (streams w) s (all_streams w)) (\<lambda>before.
     bind_res (deref (streams w) s) (\<lambda>st.
     bind_res (if before \<noteq> 0 then stream_update before (\<lambda>b. b\<lparr>snext := snext st\<rparr>) w
               else Inr (w\<lparr>all_streams := snext st\<rparr>)) (\<lambda>w.
     bind_res (kmem_free w s) (\<lambda>w. Inr (w\<lparr>streams := (streams w)(s := None)\<rparr>)))))"

subsection \<open>Segments sent\<close>

text \<open>The pseudo header lies before the head of the buffer, where the IP header goes later.\<close>

definition pseudo_checksum :: "u16 \<Rightarrow> u32 \<Rightarrow> u32 \<Rightarrow> nat \<Rightarrow> u8 list \<Rightarrow> u8 list res" where
  "pseudo_checksum len src dest h d =
     (if h < sizeof_pseudo then Inl (Fault OutOfBounds)
      else bind_res (put_fields (h - sizeof_pseudo)
          [(0, b32 (ntol src)), (4, b32 (ntol dest)), (8, [0]), (9, [IPPROTO_TCP]), (10, b16 (ntos len))] d)
        (checksum_at (h - sizeof_pseudo) (sizeof_pseudo + unat len) (sizeof_pseudo + 16)))"

definition tcp_checksum :: "u64 \<Rightarrow> u16 \<Rightarrow> u32 \<Rightarrow> u32 \<Rightarrow> 'a nworld_scheme \<Rightarrow> 'a nworld_scheme res" where
  "tcp_checksum sb len src dest = sbuff_update sb (edit_head (pseudo_checksum len src dest))"

text \<open>The assignments to the header; \<open>reserved\<close> and \<open>offset\<close> share byte 12. The stream no longer needs an ACK.\<close>

definition tcp_fields :: "stream \<Rightarrow> u8 \<Rightarrow> (nat \<times> u8 list) list" where
  "tcp_fields st flags =
     [(0, b16 (ntos (localPort st))), (2, b16 (ntos (remotePort st))), (4, b32 (ntol (localSeq st))),
      (8, b32 (ntol (ackSeq st))), (12, [0x50]), (14, b16 (ntos (ucast (readMax st - readOffset st)))),
      (13, [flags OR (if needsAck st \<noteq> 0 then Ack else 0)]), (16, b16 0)]"

definition header_from_stream :: "u64 \<Rightarrow> u64 \<Rightarrow> u8 \<Rightarrow> 'a nworld_scheme \<Rightarrow> 'a nworld_scheme res" where
  "header_from_stream s sb flags w =
     bind_res (deref (streams w) s) (\<lambda>st.
     bind_res (sbuff_fields sb (tcp_fields st flags) w) (\<lambda>w.
       stream_update s (\<lambda>st. st\<lparr>needsAck := 0\<rparr>) w))"

text \<open>The positional initializer of the local stream: fields in the order of the struct.\<close>

definition reset_template :: "u64 \<Rightarrow> u32 \<Rightarrow> u16 \<Rightarrow> u16 \<Rightarrow> u32 \<Rightarrow> stream" where
  "reset_template dev ip destPort srcPort srcIp =
     \<lparr>snext = 0, sdev = dev, localPort = destPort, remotePort = ucast (ntol ip),
      localAddr = ucast srcPort, remoteAddr = srcIp, localSeq = 0, pendingAck = 0, ackSeq = 0, needsAck = 1,
      tstate = Closed, readBuf = [], readOffset = 0, readMax = 0, readFn = 0\<rparr>"

definition reset_stream ::
  "'a nworld_scheme net_env \<Rightarrow> u64 \<Rightarrow> u8 list \<Rightarrow> u32 \<Rightarrow> 'a nworld_scheme \<Rightarrow> 'a nworld_scheme res" where
  "reset_stream env dev hdr srcIp w =
     bind_res (deref (devices w) dev) (\<lambda>d.
     bind_res (get16 hdr 2) (\<lambda>destPort.
     bind_res (get16 hdr 0) (\<lambda>srcPort.
     bind_res (ip_sbuff_alloc sizeof_tcp_hdr w) (\<lambda>(sb, w).
     bind_res (sbuff_fields sb (tcp_fields (reset_template dev (dev_ip d) (ntos destPort) (ntos srcPort) srcIp) Rst) w) (\<lambda>w.
     bind_res (tcp_checksum sb sizeof_tcp_hdr (dev_ip d) srcIp w) (\<lambda>w.
     bind_res (ip_send env sb IPPROTO_TCP srcIp dev w) (\<lambda>(r, w). Inr w)))))))"

text \<open>\<open>pendingAck\<close> and the read buffer keep what the allocated memory held.\<close>

definition MaxReadBuffer :: u32 where [layout]: "MaxReadBuffer = 2048"

definition new_stream :: "u64 \<Rightarrow> u32 \<Rightarrow> u16 \<Rightarrow> u16 \<Rightarrow> u32 \<Rightarrow> u32 \<Rightarrow> u64 \<Rightarrow> u64 \<Rightarrow> u32 \<Rightarrow> u8 list \<Rightarrow> stream" where
  "new_stream dev ip lp rp raddr seq fn nx pending buf =
     \<lparr>snext = nx, sdev = dev, localPort = lp, remotePort = rp, localAddr = ip, remoteAddr = raddr,
      localSeq = 1, pendingAck = pending, ackSeq = seq + 1, needsAck = 0, tstate = SynReceived,
      readBuf = buf, readOffset = 0, readMax = MaxReadBuffer, readFn = fn\<rparr>"

definition connected ::
  "'a nworld_scheme net_env \<Rightarrow> u64 \<Rightarrow> u16 \<Rightarrow> u16 \<Rightarrow> u32 \<Rightarrow> u32 \<Rightarrow> u64 \<Rightarrow> 'a nworld_scheme \<Rightarrow> 'a nworld_scheme res" where
  "connected env dev lp rp raddr seq fn w =
     bind_res (ip_sbuff_alloc sizeof_tcp_hdr w) (\<lambda>(sb, w).
     bind_res (kmem_alloc w (sizeof_stream + ucast MaxReadBuffer)) (\<lambda>(s, w).
     bind_res (deref (devices w) dev) (\<lambda>d.
     let w = w\<lparr>streams := (streams w)(s \<mapsto> new_stream dev (dev_ip d) lp rp raddr seq fn (all_streams w)
                 (load32 (kmem w) (s + 32)) (read_mem (kmem w) (s + 72) (unat MaxReadBuffer))),
               all_streams := s\<rparr>
     in bind_res (header_from_stream s sb (Syn OR Ack) w) (\<lambda>w.
        bind_res (stream_update s (\<lambda>st. st\<lparr>localSeq := localSeq st + 1\<rparr>) w) (\<lambda>w.
        bind_res (tcp_checksum sb sizeof_tcp_hdr (dev_ip d) raddr w) (\<lambda>w.
        bind_res (ip_send env sb IPPROTO_TCP raddr dev w) (\<lambda>(r, w). Inr w)))))))"

text \<open>
  The steps \<open>tcp_close\<close>, \<open>tcp_send\<close> and \<open>fin\<close> share: allocate a buffer, write the header from the
  stream and the payload behind it, let \<open>upd\<close> change the stream, checksum and send.
\<close>

definition send_segment ::
  "'a nworld_scheme net_env \<Rightarrow> u64 \<Rightarrow> u8 \<Rightarrow> u8 list \<Rightarrow> (stream \<Rightarrow> stream) \<Rightarrow> u64 \<Rightarrow> 'a nworld_scheme \<Rightarrow> 'a nworld_scheme res" where
  "send_segment env s flags pl upd dev w =
     bind_res (ip_sbuff_alloc (sizeof_tcp_hdr + of_nat (length pl)) w) (\<lambda>(sb, w).
     bind_res (header_from_stream s sb flags w) (\<lambda>w.
     bind_res (sbuff_fields sb [(unat sizeof_tcp_hdr, pl)] w) (\<lambda>w.
     bind_res (stream_update s upd w) (\<lambda>w.
     bind_res (deref (streams w) s) (\<lambda>st.
     bind_res (deref (devices w) dev) (\<lambda>d.
     bind_res (tcp_checksum sb (sizeof_tcp_hdr + of_nat (length pl)) (dev_ip d) (remoteAddr st) w) (\<lambda>w.
     bind_res (ip_send env sb IPPROTO_TCP (remoteAddr st) dev w) (\<lambda>(r, w). Inr w))))))))"

definition tcp_close :: "'a nworld_scheme net_env \<Rightarrow> u64 \<Rightarrow> 'a nworld_scheme \<Rightarrow> 'a nworld_scheme res" where
  "tcp_close env s w =
     bind_res (deref (streams w) s) (\<lambda>st.
     bind_res (send_segment env s Fin [] (\<lambda>st. st\<lparr>tstate := FinWait1\<rparr>) (sdev st) w) (\<lambda>w.
       stream_update s (\<lambda>st. st\<lparr>localSeq := localSeq st + 1\<rparr>) w))"

definition tcp_send :: "'a nworld_scheme net_env \<Rightarrow> u64 \<Rightarrow> u8 list \<Rightarrow> u16 \<Rightarrow> 'a nworld_scheme \<Rightarrow> 'a nworld_scheme res" where
  "tcp_send env s bs sz w =
     bind_res (get_bytes bs 0 (unat sz)) (\<lambda>pl.
     bind_res (deref (streams w) s) (\<lambda>st.
     bind_res (send_segment env s Psh pl id (sdev st) w) (\<lambda>w.
       stream_update s (\<lambda>st. st\<lparr>localSeq := localSeq st + ucast sz\<rparr>) w)))"

subsection \<open>Segments received\<close>

definition ack_state :: "TcpState \<Rightarrow> TcpState" where
  "ack_state t = (let t = (if t = SynReceived then Established else t)
                  in if t = FinWait1 then FinWait2 else t)"

definition acked :: "u64 \<Rightarrow> u8 list \<Rightarrow> 'a nworld_scheme \<Rightarrow> 'a nworld_scheme res" where
  "acked s hdr w =
     bind_res (get32 hdr 8) (\<lambda>ack.
     bind_res (stream_update s (\<lambda>st. (if pendingAck st \<le> ack then st\<lparr>pendingAck := ack\<rparr> else st)
                 \<lparr>tstate := ack_state (tstate st)\<rparr>) w) (\<lambda>w.
     bind_res (deref (streams w) s) (\<lambda>st. if tstate st = LastAck then remove_stream s w else Inr w)))"

definition tcp_offset :: "u8 list \<Rightarrow> nat res" where
  "tcp_offset hdr = bind_res (get8 hdr 12) (\<lambda>b. Inr (unat (drop_bit 4 b)))"

definition buffer_data :: "u8 list \<Rightarrow> u64 \<Rightarrow> u32 \<Rightarrow> 'a nworld_scheme \<Rightarrow> 'a nworld_scheme res" where
  "buffer_data hdr s len w =
     (if len = 0 then Inr w
      else bind_res (deref (streams w) s) (\<lambda>st.
        if readMax st < readOffset st + len then
          on_con (console_print_string (str ''Out of buffer space in read ... dropping packet'' @ [10]) []) w
        else
          bind_res (get32 hdr 4) (\<lambda>sequence.
          bind_res (tcp_offset hdr) (\<lambda>off.
          bind_res (get_bytes hdr (4 * off) (unat len)) (\<lambda>bs.
          bind_res (put_bytes (unat (readOffset st)) bs (readBuf st)) (\<lambda>buf.
            stream_update s (\<lambda>st. st\<lparr>ackSeq := ntol sequence + len, readBuf := buf,
              readOffset := readOffset st + len, needsAck := 1\<rparr>) w))))))"

definition pushit :: "'a nworld_scheme net_env \<Rightarrow> u64 \<Rightarrow> 'a nworld_scheme \<Rightarrow> 'a nworld_scheme res" where
  "pushit env s w =
     bind_res (deref (streams w) s) (\<lambda>st.
     bind_res (read_call env (readFn st) s (readBuf st) (readOffset st) w) (\<lambda>w.
       stream_update s (\<lambda>st. st\<lparr>readOffset := 0\<rparr>) w))"

definition time_wait :: "u64 \<Rightarrow> 'a nworld_scheme \<Rightarrow> 'a nworld_scheme res" where
  "time_wait s = remove_stream s"

definition fin :: "'a nworld_scheme net_env \<Rightarrow> u64 \<Rightarrow> u64 \<Rightarrow> 'a nworld_scheme \<Rightarrow> 'a nworld_scheme res" where
  "fin env dev s w =
     bind_res (deref (streams w) s) (\<lambda>st.
       if tstate st = FinWait2 then
         bind_res (stream_update s (\<lambda>st. st\<lparr>ackSeq := ackSeq st + 1\<rparr>) w) (\<lambda>w.
         bind_res (send_segment env s Ack [] id dev w) (\<lambda>w.
         bind_res (stream_update s (\<lambda>st. st\<lparr>tstate := TimeWait\<rparr>) w) (\<lambda>w. time_wait s w)))
       else if tstate st = Established then
         bind_res (stream_update s (\<lambda>st. st\<lparr>ackSeq := ackSeq st + 1\<rparr>) w) (\<lambda>w.
         bind_res (send_segment env s (Fin OR Ack) [] id dev w) (\<lambda>w.
           stream_update s (\<lambda>st. st\<lparr>tstate := LastAck\<rparr>) w))
       else Inr w)"

function find_stream :: "nat \<Rightarrow> (u64 \<rightharpoonup> stream) \<Rightarrow> (stream \<Rightarrow> bool) \<Rightarrow> u64 \<Rightarrow> u64 res" where
  "find_stream fuel ss match s =
     (if s = 0 then Inr 0
      else if fuel = 0 then Inl (Fault Diverges)
      else bind_res (deref ss s) (\<lambda>st.
        if match st then Inr s else find_stream (fuel - 1) ss match (snext st)))"
  by pat_completeness auto
termination
  by (relation "measure (\<lambda>(fuel, ss, match, s). fuel)") auto

definition stream_matches :: "u32 \<Rightarrow> u32 \<Rightarrow> u16 \<Rightarrow> u16 \<Rightarrow> stream \<Rightarrow> bool" where
  "stream_matches ip src destPort srcPort st \<longleftrightarrow>
     localAddr st = ip \<and> remoteAddr st = src \<and> localPort st = destPort \<and> remotePort st = srcPort"

definition tcp_find :: "u64 \<Rightarrow> u32 \<Rightarrow> u8 list \<Rightarrow> 'a nworld_scheme \<Rightarrow> u64 res" where
  "tcp_find dev src hdr w =
     bind_res (deref (devices w) dev) (\<lambda>d.
     bind_res (get16 hdr 2) (\<lambda>destPort.
     bind_res (get16 hdr 0) (\<lambda>srcPort.
       find_stream walk_fuel (streams w) (stream_matches (dev_ip d) src (ntos destPort) (ntos srcPort)) (all_streams w))))"

function find_listener :: "nat \<Rightarrow> (u64 \<rightharpoonup> listen_state) \<Rightarrow> u16 \<Rightarrow> u64 \<Rightarrow> u64 res" where
  "find_listener fuel ls port l =
     (if l = 0 then Inr 0
      else if fuel = 0 then Inl (Fault Diverges)
      else bind_res (deref ls l) (\<lambda>x.
        if lport x = port then Inr l else find_listener (fuel - 1) ls port (lnext x)))"
  by pat_completeness auto
termination
  by (relation "measure (\<lambda>(fuel, ls, port, l). fuel)") auto

declare find_stream.simps [simp del] find_listener.simps [simp del]

definition syn :: "'a nworld_scheme net_env \<Rightarrow> u64 \<Rightarrow> u8 list \<Rightarrow> u32 \<Rightarrow> 'a nworld_scheme \<Rightarrow> 'a nworld_scheme res" where
  "syn env dev hdr srcIp w =
     bind_res (get16 hdr 2) (\<lambda>destPort.
     bind_res (find_listener walk_fuel (listeners w) (ntos destPort) (all_listeners w)) (\<lambda>l.
       if l = 0 then reset_stream env dev hdr srcIp w
       else
         bind_res (deref (listeners w) l) (\<lambda>x.
         bind_res (accept_call env (laccept x) w) (\<lambda>(fn, w).
         bind_res (get16 hdr 0) (\<lambda>srcPort.
         bind_res (get32 hdr 4) (\<lambda>sequence.
           connected env dev (ntos destPort) (ntos srcPort) srcIp (ntol sequence) fn w))))))"

definition tcp_listen :: "u16 \<Rightarrow> u64 \<Rightarrow> 'a nworld_scheme \<Rightarrow> (int \<times> 'a nworld_scheme) res" where
  "tcp_listen port accept w =
     bind_res (find_listener walk_fuel (listeners w) port (all_listeners w)) (\<lambda>l.
       if l \<noteq> 0 then Inr (EADDRINUSE, w)
       else bind_res (kmem_alloc w sizeof_listen_state) (\<lambda>(l, w).
         Inr (EOK, w\<lparr>listeners := (listeners w)(l \<mapsto> \<lparr>lport = port, laccept = accept, lnext = all_listeners w\<rparr>),
                     all_listeners := l\<rparr>)))"

definition tcp_segment ::
  "'a nworld_scheme net_env \<Rightarrow> u64 \<Rightarrow> u8 list \<Rightarrow> u32 \<Rightarrow> u32 \<Rightarrow> 'a nworld_scheme \<Rightarrow> 'a nworld_scheme res" where
  "tcp_segment env dev hdr sz srcIp w =
     bind_res (get8 hdr 13) (\<lambda>flags.
     bind_res (if flags AND Syn \<noteq> 0 then syn env dev hdr srcIp w else Inr w) (\<lambda>w.
     bind_res (tcp_find dev srcIp hdr w) (\<lambda>s.
       if s = 0 then reset_stream env dev hdr srcIp w
       else
         bind_res (if flags AND Ack \<noteq> 0 then acked s hdr w else Inr w) (\<lambda>w.
         bind_res (tcp_offset hdr) (\<lambda>off.
         bind_res (buffer_data hdr s (sz - of_nat (4 * off)) w) (\<lambda>w.
         bind_res (if flags AND Psh \<noteq> 0 then pushit env s w else Inr w) (\<lambda>w.
           if flags AND Fin \<noteq> 0 then fin env dev s w else Inr w)))))))"

subsection \<open>The read buffer\<close>

definition stream_ok :: "stream \<Rightarrow> bool" where
  "stream_ok st \<longleftrightarrow> length (readBuf st) = 2048 \<and> readMax st = 2048 \<and> readOffset st \<le> 2048"

lemma render_plain: "37 \<notin> set s \<Longrightarrow> render s [] = Some s"
  by (induction s "[] :: fmt_arg list" rule: render.induct) auto

lemma print_plain:
  assumes "console_ok (con w)" "37 \<notin> set s"
  obtains c where "on_con (console_print_string s []) w = Inr (w\<lparr>con := c\<rparr>)" "console_ok c"
    "serial c = serial (con w) @ s"
  using print_fmt_renders [OF assms(1), of s "[]"] render_plain [OF assms(2)]
  by (auto simp: prints_def emits_def on_con_def console_print_string_def)

lemma stream_update_eq:
  "s \<noteq> 0 \<Longrightarrow> streams w s = Some st \<Longrightarrow> stream_update s f w = Inr (w\<lparr>streams := (streams w)(s \<mapsto> f st)\<rparr>)"
  by (simp add: stream_update_def deref_def)

abbreviation dropped :: "u8 list" where
  "dropped \<equiv> str ''Out of buffer space in read ... dropping packet'' @ [10]"

lemma buffer_data_stores:
  assumes s: "s \<noteq> 0" "streams w s = Some st" "stream_ok st"
    and len: "len \<noteq> 0" "unat (readOffset st) + unat len \<le> 2048"
    and hdr: "get32 hdr 4 = Inr (ntol seq)" "tcp_offset hdr = Inr off" "get_bytes hdr (4 * off) (unat len) = Inr bs"
  obtains buf where "buffer_data hdr s len w = Inr (w\<lparr>streams := (streams w)(s \<mapsto> st
      \<lparr>ackSeq := seq + len, readBuf := buf, readOffset := readOffset st + len, needsAck := 1\<rparr>)\<rparr>)"
    "length buf = 2048" "unat (readOffset st + len) = unat (readOffset st) + unat len"
    "take (unat (readOffset st + len)) buf = take (unat (readOffset st)) (readBuf st) @ bs"
proof -
  have n: "length bs = unat len" using hdr(3) by (auto simp: get_bytes_def split: if_splits)
  have u: "unat (readOffset st + len) = unat (readOffset st) + unat len"
    using len(2) by (simp add: unat_plus_if')
  have fits: "\<not> readMax st < readOffset st + len" using s(3) len(2) u by (simp add: stream_ok_def word_less_nat_alt)
  let ?buf = "take (unat (readOffset st)) (readBuf st) @ bs @ drop (unat (readOffset st) + length bs) (readBuf st)"
  have "put_bytes (unat (readOffset st)) bs (readBuf st) = Inr ?buf"
    using n s(3) len(2) by (simp add: put_bytes_def stream_ok_def)
  then have "buffer_data hdr s len w = Inr (w\<lparr>streams := (streams w)(s \<mapsto> st
      \<lparr>ackSeq := seq + len, readBuf := ?buf, readOffset := readOffset st + len, needsAck := 1\<rparr>)\<rparr>)"
    using s len(1) fits hdr
    by (simp add: buffer_data_def stream_update_eq deref_def ntol.swap_swap)
  moreover have "length ?buf = 2048" using n s(3) len(2) by (simp add: stream_ok_def)
  moreover have "take (unat (readOffset st + len)) ?buf = take (unat (readOffset st)) (readBuf st) @ bs"
    using n s(3) len(2) u by (simp add: stream_ok_def)
  ultimately show ?thesis using that u by blast
qed

lemma buffer_data_drops:
  assumes s: "s \<noteq> 0" "streams w s = Some st" "stream_ok st" and len: "2048 < unat (readOffset st) + unat len"
    "unat (readOffset st) + unat len < 2 ^ 32"
  shows "buffer_data hdr s len w = on_con (console_print_string dropped []) w"
proof -
  have "unat (readOffset st + len) = unat (readOffset st) + unat len"
    using len(2) by (simp add: unat_plus_if')
  then have "readMax st < readOffset st + len" "len \<noteq> 0"
    using s(3) len(1) by (auto simp: stream_ok_def word_less_nat_alt word_le_nat_alt)
  then show ?thesis using s by (simp add: buffer_data_def deref_def)
qed

subsection \<open>Headers\<close>

definition tcp_header :: "stream \<Rightarrow> u8 \<Rightarrow> u8 list \<Rightarrow> u8 list" where
  "tcp_header st flags ck =
     rev (b16 (localPort st)) @ rev (b16 (remotePort st)) @ rev (b32 (localSeq st)) @ rev (b32 (ackSeq st)) @
     [0x50, flags OR (if needsAck st \<noteq> 0 then Ack else 0)] @ rev (b16 (ucast (readMax st - readOffset st))) @ ck"

definition pseudo_header :: "u32 \<Rightarrow> u32 \<Rightarrow> u16 \<Rightarrow> u8 list" where
  "pseudo_header src dest len = rev (b32 src) @ rev (b32 dest) @ [0, 6] @ rev (b16 len)"

definition overlay :: "nat \<Rightarrow> u8 list \<Rightarrow> u8 list \<Rightarrow> u8 list" where
  "overlay i as d = take i d @ as @ drop (i + length as) d"

lemma length_overlay: "i + length as \<le> length d \<Longrightarrow> length (overlay i as d) = length d"
  by (simp add: overlay_def)

lemma nth_overlay:
  assumes "i + length as \<le> length d" "k < length d"
  shows "overlay i as d ! k = (if i \<le> k \<and> k < i + length as then as ! (k - i) else d ! k)"
  using assms by (auto simp: overlay_def nth_append min_def)

lemma put_bytes_overlay: "i + length as \<le> length d \<Longrightarrow> put_bytes i as d = Inr (overlay i as d)"
  by (simp add: put_bytes_def overlay_def)

lemma overlay_swap:
  assumes "j + length bs \<le> i" "i + length as \<le> length d"
  shows "overlay j bs (overlay i as d) = overlay i as (overlay j bs d)"
proof (rule nth_equalityI)
  have j: "j + length bs \<le> length d" using assms by simp
  note len = length_overlay [OF assms(2)] length_overlay [OF j]
  have len2: "length (overlay j bs (overlay i as d)) = length d" "length (overlay i as (overlay j bs d)) = length d"
    using len j assms(2) by (simp_all only: length_overlay)
  then show "length (overlay j bs (overlay i as d)) = length (overlay i as (overlay j bs d))" by simp
  fix k assume "k < length (overlay j bs (overlay i as d))"
  then have k: "k < length d" by (simp only: len2)
  have "overlay j bs (overlay i as d) ! k = (if j \<le> k \<and> k < j + length bs then bs ! (k - j) else overlay i as d ! k)"
    by (rule nth_overlay) (simp_all only: len j k)
  moreover have "overlay i as (overlay j bs d) ! k = (if i \<le> k \<and> k < i + length as then as ! (k - i) else overlay j bs d ! k)"
    by (rule nth_overlay) (simp_all only: len assms(2) k)
  ultimately show "overlay j bs (overlay i as d) ! k = overlay i as (overlay j bs d) ! k"
    using nth_overlay [OF assms(2) k] nth_overlay [OF j k] assms(1) by simp
qed

lemma put_bytes_swap:
  assumes "j + length bs \<le> i"
  shows "bind_res (put_bytes i as d) (put_bytes j bs) = bind_res (put_bytes j bs d) (put_bytes i as)"
proof (cases "i + length as \<le> length d")
  case True
  then have j: "j + length bs \<le> length d" using assms by simp
  then show ?thesis
    using True overlay_swap [OF assms True] by (simp add: put_bytes_overlay length_overlay)
next
  case False
  then show ?thesis using assms by (auto simp: put_bytes_def)
qed

lemma put_fields_Cons: "put_fields h ((off, bs) # fs) = (\<lambda>d. bind_res (put_bytes (h + off) bs d) (put_fields h fs))"
  by (rule ext) simp

lemma put_fields_swap:
  assumes "j + length bs \<le> i"
  shows "put_fields h ((i, as) # (j, bs) # fs) = put_fields h ((j, bs) # (i, as) # fs)"
proof
  fix d
  have "bind_res (bind_res (put_bytes (h + i) as d) (put_bytes (h + j) bs)) (put_fields h fs) =
      bind_res (bind_res (put_bytes (h + j) bs d) (put_bytes (h + i) as)) (put_fields h fs)"
    using put_bytes_swap [of "h + j" bs "h + i" as d] assms by simp
  then show "put_fields h ((i, as) # (j, bs) # fs) d = put_fields h ((j, bs) # (i, as) # fs) d"
    unfolding put_fields_Cons bind_res_assoc .
qed

lemma put_fields_append: "put_fields h (xs @ ys) d = bind_res (put_fields h xs d) (put_fields h ys)"
proof (induction xs arbitrary: d)
  case (Cons f xs)
  have "put_fields h (xs @ ys) = (\<lambda>d. bind_res (put_fields h xs d) (put_fields h ys))"
    by (rule ext) (rule Cons.IH)
  then show ?case by (cases f) (simp add: bind_res_assoc)
qed simp

lemma tcp_header_contents:
  assumes "sbuff_ok s" "18 \<le> unat (currSize s)"
  obtains s' where "edit_head (\<lambda>h. put_fields h (tcp_fields st fl)) s = Inr s'" "sbuff_ok s'"
    "contents s' = tcp_header st fl [0, 0] @ drop 18 (contents s)" "shead s' = shead s" "currSize s' = currSize s"
    "totalSize s' = totalSize s" "srefs s' = srefs s"
proof -
  let ?F = "\<lambda>fs. [(0 :: nat, b16 (ntos (localPort st))), (2, b16 (ntos (remotePort st))), (4, b32 (ntol (localSeq st))),
      (8, b32 (ntol (ackSeq st))), (12, [0x50])] @ fs"
  let ?w = "b16 (ntos (ucast (readMax st - readOffset st)))" and ?f = "[fl OR (if needsAck st \<noteq> 0 then Ack else 0)]"
  let ?fs = "?F [(13, ?f), (14, ?w), (16, b16 0)]"
  have swap: "put_fields h (tcp_fields st fl) d = put_fields h ?fs d" for h d
  proof -
    have "put_fields h [(14, ?w), (13, ?f), (16, b16 0)] = put_fields h [(13, ?f), (14, ?w), (16, b16 0)]"
      by (rule put_fields_swap) simp
    moreover have "tcp_fields st fl = ?F [(14, ?w), (13, ?f), (16, b16 0)]" by (simp add: tcp_fields_def)
    ultimately show ?thesis by (simp only: put_fields_append)
  qed
  have h: "concat (map snd ?fs) = tcp_header st fl [0, 0]" "adjacent 0 ?fs"
    by (simp_all add: tcp_header_def split_ntos split_ntol zero16)
  have len: "length (tcp_header st fl [0, 0]) = 18" by (simp add: tcp_header_def)
  obtain d where d: "put_bytes (shead s) (tcp_header st fl [0, 0]) (sdata s) = Inr d" "sbuff_ok (s\<lparr>sdata := d\<rparr>)"
    "contents (s\<lparr>sdata := d\<rparr>) = tcp_header st fl [0, 0] @ drop 18 (contents s)"
    using contents_put [OF assms(1), of "tcp_header st fl [0, 0]"] assms(2) unfolding len by blast
  have "shead s + 0 + length (concat (map snd ?fs)) \<le> length (sdata s)"
    unfolding h len using assms by (simp add: sbuff_ok_def)
  from put_fields_adjacent [OF h(2) this] have "put_fields (shead s) ?fs (sdata s) = Inr d"
    unfolding h using d(1) by simp
  then have "edit_head (\<lambda>h. put_fields h (tcp_fields st fl)) s = Inr (s\<lparr>sdata := d\<rparr>)"
    by (simp add: edit_head_def swap)
  with d that show ?thesis by simp
qed

lemma tcp_checksum_contents:
  assumes ok: "sbuff_ok s" and h: "12 \<le> shead s" and len: "even (unat len)" "len = currSize s" "18 \<le> unat len"
  obtains s' c where "edit_head (pseudo_checksum len src dest) s = Inr s'" "sbuff_ok s'"
    "contents s' = take 16 (contents s) @ b16 (ntos c) @ drop 18 (contents s)"
    "csum_verify (pseudo_header src dest len @ contents s') (12 + unat len) = Inr 0xffff"
    "shead s' = shead s" "currSize s' = currSize s" "totalSize s' = totalSize s" "srefs s' = srefs s"
proof -
  let ?fs = "[(0 :: nat, b32 (ntol src)), (4, b32 (ntol dest)), (8, [0]), (9, [IPPROTO_TCP]), (10, b16 (ntos len))]"
  have fs: "concat (map snd ?fs) = pseudo_header src dest len" "adjacent 0 ?fs" "unat (12 :: u16) \<le> shead s"
    "length (pseudo_header src dest len) = 12"
    using h by (simp_all add: pseudo_header_def split_ntos split_ntol layout)
  then have fsl: "length (concat (map snd ?fs)) = unat (12 :: u16)" by (simp only: fs) simp
  let ?s = "s\<lparr>currSize := currSize s + 12, shead := shead s - unat (12 :: u16)\<rparr>"
  obtain s1 where s1: "pop_head 12 s = Inr ?s" "edit_head (\<lambda>h. put_fields h ?fs) ?s = Inr s1" "sbuff_ok s1"
    "contents s1 = pseudo_header src dest len @ contents s" "shead s1 = shead s - unat (12 :: u16)"
    "totalSize s1 = totalSize s" "unat (currSize s1) = unat (currSize s) + unat (12 :: u16)"
    unfolding fs(1) [symmetric] by (rule prepend_header [OF ok fs(3,2) fsl])
  have n: "12 + unat len \<le> unat (currSize s1)" using s1(7) len(2) by simp
  obtain s2 c where s2: "edit_head (\<lambda>h. checksum_at h (12 + unat len) 28) s1 = Inr s2" "sbuff_ok s2"
    "contents s2 = take 28 (contents s1) @ b16 (ntos c) @ drop (28 + 2) (contents s1)"
    "csum_verify (contents s2) (12 + unat len) = Inr 0xffff" "shead s2 = shead s1" "currSize s2 = currSize s1"
    "totalSize s2 = totalSize s1"
    by (rule checksum_at_contents [OF s1(3) _ n, of 28]) (use len in simp_all)
  let ?r = "s\<lparr>sdata := sdata s2\<rparr>"
  have "put_fields (shead s - 12) ?fs (sdata s) = Inr (sdata s1)"
    using s1(2) by (auto simp: edit_head_def res_simps)
  moreover have "checksum_at (shead s - 12) (12 + unat len) 28 (sdata s1) = Inr (sdata s2)"
    using s2(1) s1(5) by (auto simp: edit_head_def res_simps)
  ultimately have e: "edit_head (pseudo_checksum len src dest) s = Inr ?r"
    using h by (simp add: edit_head_def pseudo_checksum_def layout)
  have okr: "sbuff_ok ?r" using ok s2(2,7) s1(6) by (simp add: sbuff_ok_def)
  have c2: "contents s2 = pseudo_header src dest len @ take 16 (contents s) @ b16 (ntos c) @ drop 18 (contents s)"
    using s2(3) fs(4) unfolding s1(4) by simp
  have "contents ?r = drop 12 (contents s2)"
    using s1(5,7) s2(5,6) h by (simp add: contents_def drop_take)
  then have cr: "contents ?r = take 16 (contents s) @ b16 (ntos c) @ drop 18 (contents s)"
    using c2 fs(4) by simp
  have "csum_verify (pseudo_header src dest len @ contents ?r) (12 + unat len) = Inr 0xffff"
    using s2(4) unfolding c2 cr .
  from that [OF e okr cr this] show ?thesis by simp
qed

lemma ip_sbuff_alloc_eq:
  fixes w :: "'a nworld_scheme"
  assumes alloc: "kmem_alloc w (ucast (sz + 34) + 24) = Inr (p, w1)" "p \<noteq> 0" and sz: "unat sz + 34 < 65536"
  obtains s where "ip_sbuff_alloc sz w = Inr (p, w1\<lparr>sbuffs := (sbuffs w)(p \<mapsto> s)\<rparr>)"
    "sbuff_ok s" "shead s = 34" "currSize s = sz" "srefs s = 0"
proof -
  have u: "unat (sz + 34) = unat sz + 34" using sz by (simp add: unat_plus_if')
  obtain s0 where s0: "raw_sbuff_alloc (sz + 34) w = Inr (p, w1\<lparr>sbuffs := (sbuffs w)(p \<mapsto> s0)\<rparr>)"
    "sbuff_ok s0" "currSize s0 = sz + 34" "shead s0 = 0" "srefs s0 = 0"
    using raw_sbuff_alloc_eq [OF alloc(1)] by metis
  have "14 \<le> currSize s0" using s0(3) u by (simp add: word_le_nat_alt)
  note p1 = push_head_ok [OF s0(2) this]
  let ?s1 = "s0\<lparr>currSize := currSize s0 - 14, shead := shead s0 + unat (14 :: u16)\<rparr>"
  have c1: "currSize ?s1 = sz + 20" using s0(3) by simp
  have u2: "unat (sz + 20) = unat sz + 20" using sz by (simp add: unat_plus_if')
  have "20 \<le> currSize ?s1" unfolding word_le_nat_alt c1 u2 by simp
  note p2 = push_head_ok [OF p1(2) this]
  have "ip_sbuff_alloc sz w = Inr (p, w1\<lparr>sbuffs := (sbuffs w)(p \<mapsto> s0
      \<lparr>currSize := currSize s0 - 14 - 20, shead := shead s0 + unat (14 :: u16) + unat (20 :: u16)\<rparr>)\<rparr>)"
    using s0(1) p1(1) p2(1) alloc(2)
    by (simp add: ip_sbuff_alloc_def ethernet_sbuff_alloc_def sbuff_push_def sbuff_update_eq layout add.assoc)
  then show ?thesis
    using that [of "s0\<lparr>currSize := currSize s0 - 14 - 20, shead := shead s0 + unat (14 :: u16) + unat (20 :: u16)\<rparr>"]
      p2(2) s0(3,4,5) by simp
qed

text \<open>From a filled header on: checksum, then \<open>ip_send\<close>.\<close>

lemma segment_sent:
  fixes w :: "'a nworld_scheme"
  assumes sb: "sb \<noteq> 0" "sbuffs w sb = Some s" "sbuff_ok s" "shead s = 34" "currSize s = len"
    and len: "even (unat len)" "20 \<le> unat len"
    and dev: "dev \<noteq> 0" "devices w dev = Some d" "length (dev_mac d) = 6"
    and arp: "arp_rep (arp_tab w) es" "map_of es dest = Some m" "length m = 6"
  obtains s' ck ick where "bind_res (tcp_checksum sb len (dev_ip d) dest w) (ip_send env sb IPPROTO_TCP dest dev) =
      bind_res (send_call env (dev_send d) dev sb (w\<lparr>sbuffs := (sbuffs w)(sb \<mapsto> s')\<rparr>)) (\<lambda>w. Inr (EOK, w))"
    "contents s' = m @ dev_mac d @ [8, 0] @ ipv4_header (len + 20) 6 ick (dev_ip d) dest @
       take 16 (contents s) @ ck @ drop 18 (contents s)"
    "length ck = 2" "length ick = 2"
    "csum_verify (pseudo_header (dev_ip d) dest len @ take 16 (contents s) @ ck @ drop 18 (contents s)) (12 + unat len) = Inr 0xffff"
    "csum_verify (ipv4_header (len + 20) 6 ick (dev_ip d) dest) 20 = Inr 0xffff"
proof -
  have h: "12 \<le> shead s" "18 \<le> unat len" using sb(4) len(2) by simp_all
  obtain s1 c where s1: "edit_head (pseudo_checksum len (dev_ip d) dest) s = Inr s1" "sbuff_ok s1"
    "contents s1 = take 16 (contents s) @ b16 (ntos c) @ drop 18 (contents s)"
    "csum_verify (pseudo_header (dev_ip d) dest len @ contents s1) (12 + unat len) = Inr 0xffff"
    "shead s1 = shead s" "currSize s1 = currSize s"
    by (rule tcp_checksum_contents [OF sb(3) h(1) len(1) sb(5) [symmetric] h(2), of "dev_ip d" dest])
  let ?w = "w\<lparr>sbuffs := (sbuffs w)(sb \<mapsto> s1)\<rparr>"
  obtain s2 ck where s2: "ip_send env sb 6 dest dev ?w =
      bind_res (send_call env (dev_send d) dev sb (?w\<lparr>sbuffs := (sbuffs ?w)(sb \<mapsto> s2)\<rparr>)) (\<lambda>w. Inr (EOK, w))"
    "contents s2 = m @ dev_mac d @ [8, 0] @ ipv4_header (currSize s1 + 20) 6 ck (dev_ip d) dest @ contents s1"
    "length ck = 2" "csum_verify (ipv4_header (currSize s1 + 20) 6 ck (dev_ip d) dest) 20 = Inr 0xffff"
    by (rule ip_send_known [where w = ?w and sb = sb and s = s1 and dev = dev and d = d and es = es and dest = dest
        and m = m and env = env and proto = 6]) (use sb s1(2,5) dev arp in simp_all)
  have "tcp_checksum sb len (dev_ip d) dest w = Inr ?w"
    using sb(1,2) s1(1) by (simp add: tcp_checksum_def sbuff_update_eq)
  then have "bind_res (tcp_checksum sb len (dev_ip d) dest w) (ip_send env sb IPPROTO_TCP dest dev) =
      bind_res (send_call env (dev_send d) dev sb (w\<lparr>sbuffs := (sbuffs w)(sb \<mapsto> s2)\<rparr>)) (\<lambda>w. Inr (EOK, w))"
    using s2(1) by (simp add: layout)
  moreover have "contents s2 = m @ dev_mac d @ [8, 0] @ ipv4_header (len + 20) 6 ck (dev_ip d) dest @
       take 16 (contents s) @ b16 (ntos c) @ drop 18 (contents s)"
    using s2(2) s1(3,6) sb(5) by simp
  moreover have "csum_verify (ipv4_header (len + 20) 6 ck (dev_ip d) dest) 20 = Inr 0xffff"
    using s2(4) s1(6) sb(5) by simp
  ultimately show ?thesis using that [of s2 ck "b16 (ntos c)"] s2(3) s1(3,4) by simp
qed

lemma tcp_header_ck: "take 16 (tcp_header st fl [0, 0] @ bs) @ ck @ drop 18 (tcp_header st fl [0, 0] @ bs) = tcp_header st fl ck @ bs"
  by (simp add: tcp_header_def)

subsection \<open>Properties\<close>

text \<open>
  C20. The read buffer of a stream is never overrun by a segment whose length is sound: data that
  fits is appended and acknowledged, data that does not is dropped with a message, and the
  invariant of the stream holds in either case.
\<close>

theorem tcp_read_buffer:
  assumes s: "s \<noteq> 0" "streams w s = Some st" "stream_ok st" and con: "console_ok (con w)"
    and len: "0 < len" "unat (readOffset st) + unat len < 2 ^ 32"
    and hdr: "get32 hdr 4 = Inr (ntol seq)" "tcp_offset hdr = Inr off" "get_bytes hdr (4 * off) (unat len) = Inr bs"
  shows "\<exists>w' st'. buffer_data hdr s len w = Inr w' \<and> streams w' s = Some st' \<and> stream_ok st' \<and>
    (if unat (readOffset st) + unat len \<le> 2048
     then take (unat (readOffset st')) (readBuf st') = take (unat (readOffset st)) (readBuf st) @ bs \<and>
       ackSeq st' = seq + len \<and> con w' = con w
     else st' = st \<and> serial (con w') = serial (con w) @ dropped)"
proof (cases "unat (readOffset st) + unat len \<le> 2048")
  case True
  have "len \<noteq> 0" using len(1) by auto
  then obtain buf where b: "buffer_data hdr s len w = Inr (w\<lparr>streams := (streams w)(s \<mapsto> st
      \<lparr>ackSeq := seq + len, readBuf := buf, readOffset := readOffset st + len, needsAck := 1\<rparr>)\<rparr>)"
    "length buf = 2048" "unat (readOffset st + len) = unat (readOffset st) + unat len"
    "take (unat (readOffset st + len)) buf = take (unat (readOffset st)) (readBuf st) @ bs"
    by (rule buffer_data_stores [OF s _ True hdr])
  moreover have "stream_ok (st\<lparr>ackSeq := seq + len, readBuf := buf, readOffset := readOffset st + len, needsAck := 1\<rparr>)"
    using b(2,3) s(3) True by (simp add: stream_ok_def word_le_nat_alt)
  ultimately show ?thesis using True by simp
next
  case False
  have "37 \<notin> set dropped" by (simp add: str_def)
  then obtain c where "on_con (console_print_string dropped []) w = Inr (w\<lparr>con := c\<rparr>)"
      "serial c = serial (con w) @ dropped"
    using print_plain [OF con] by blast
  then show ?thesis using buffer_data_drops [OF s _ len(2)] s False by simp
qed

definition demo_stream :: "u32 \<Rightarrow> TcpState \<Rightarrow> stream" where
  "demo_stream off t = \<lparr>snext = 0, sdev = 8, localPort = 80, remotePort = 5000, localAddr = 0x0a000002,
     remoteAddr = 0x0a000007, localSeq = 2, pendingAck = 0, ackSeq = 1, needsAck = 0, tstate = t,
     readBuf = replicate 2048 0, readOffset = off, readMax = 2048, readFn = 5\<rparr>"

text \<open>A segment with a header of 20 bytes, sequence number 7 and given flags and payload.\<close>

definition demo_segment :: "u8 \<Rightarrow> u8 list \<Rightarrow> u8 list" where
  "demo_segment flags pl = [0x13, 0x88, 0, 80, 0, 0, 0, 7, 0, 0, 0, 2, 0x50, flags, 0, 0, 0, 0, 0, 0] @ pl"

lemma demo_segment_fields:
  "get32 (demo_segment fl pl) 4 = Inr (ntol 7)" "tcp_offset (demo_segment fl pl) = Inr 5"
  "get16 (demo_segment fl pl) 0 = Inr (ntos 5000)" "get16 (demo_segment fl pl) 2 = Inr (ntos 80)"
  "get8 (demo_segment fl pl) 13 = Inr fl" "get_bytes (demo_segment fl pl) 20 (length pl) = Inr pl"
  "get32 (demo_segment fl pl) 8 = Inr (ntol 2)"
  by (simp_all add: demo_segment_def get32_def get16_def get8_def get_bytes_def tcp_offset_def ntos_def ntol_def)

theorem tcp_read_buffer_witness:
  "\<exists>w' st'. buffer_data (demo_segment 0x18 [104, 105]) 16 2
       (demo_net Map.empty Map.empty empty_arp\<lparr>streams := [16 \<mapsto> demo_stream 0 Established]\<rparr>) = Inr w' \<and>
     streams w' 16 = Some st' \<and> take (unat (readOffset st')) (readBuf st') = [104, 105] \<and> ackSeq st' = 9"
proof -
  let ?w = "demo_net Map.empty Map.empty empty_arp\<lparr>streams := [16 \<mapsto> demo_stream 0 Established]\<rparr>"
  have ok: "stream_ok (demo_stream 0 Established)" by (simp add: stream_ok_def demo_stream_def)
  have con: "console_ok (con ?w)"
    by (simp add: demo_net_def demo_more_def kheap.defs console_ok_def console_boot_def cursor_def)
  have "get_bytes (demo_segment 0x18 [104, 105]) (4 * 5) (unat (2 :: u32)) = Inr [104, 105]"
    by (simp add: demo_segment_def get_bytes_def)
  with tcp_read_buffer [of 16 ?w "demo_stream 0 Established" 2 "demo_segment 0x18 [104, 105]" 7 5 "[104, 105]"]
    ok con demo_segment_fields(1,2) show ?thesis
    by (auto simp: demo_stream_def)
qed

text \<open>
  A segment shorter than its header claims makes the length wrap: with at least the missing
  number of bytes waiting in the read buffer, the bound check passes and the copy runs past
  the packet.
\<close>

theorem tcp_short_segment_overruns:
  assumes s: "s \<noteq> 0" "streams w s = Some st" "stream_ok st"
    and off: "tcp_offset hdr = Inr off" and short: "unat sz < 4 * off" "4 * off \<le> unat sz + unat (readOffset st)"
    and pkt: "get32 hdr 4 = Inr seq" "length hdr < 2 ^ 31"
  shows "buffer_data hdr s (sz - of_nat (4 * off)) w = Inl (Fault OutOfBounds)"
proof -
  define k where "k = 4 * off - unat sz"
  have k: "0 < k" "k \<le> unat (readOffset st)" "unat (readOffset st) \<le> 2048"
    using short s(3) by (auto simp: k_def stream_ok_def word_le_nat_alt)
  have len: "sz - of_nat (4 * off) = - of_nat k"
  proof -
    have "4 * off = unat sz + k" using short(1) by (simp add: k_def)
    then show ?thesis by (simp only: of_nat_add of_nat_unat) simp
  qed
  have small: "unat (of_nat k :: u32) = k" using k by (intro unat_of_nat_small) simp
  have wrap: "readOffset st - of_nat k \<le> readOffset st"
    using k small unat_sub [of "of_nat k" "readOffset st"] by (simp add: word_le_nat_alt)
  then have "\<not> readMax st < readOffset st + - of_nat k"
    using order_trans [OF wrap, of 2048] s(3) by (simp add: stream_ok_def not_less)
  moreover have nz: "(of_nat k :: u32) \<noteq> 0" using small k(1) by auto
  moreover have "unat (- of_nat k :: u32) = 2 ^ 32 - k"
    using small nz k unat_sub_if' [of 0 "of_nat k :: u32"] by (simp add: word_le_nat_alt)
  then have "get_bytes hdr (4 * off) (unat (- of_nat k :: u32)) = Inl (Fault OutOfBounds)"
    using pkt(2) k by (simp add: get_bytes_def)
  ultimately show ?thesis
    using s off pkt(1) unfolding len by (simp add: buffer_data_def deref_def)
qed

theorem tcp_short_segment_overruns_witness:
  "buffer_data (demo_segment 0x10 []) 16 (16 - of_nat (4 * 5))
     (demo_net Map.empty Map.empty empty_arp\<lparr>streams := [16 \<mapsto> demo_stream 4 Established]\<rparr>) = Inl (Fault OutOfBounds)"
proof -
  have ok: "stream_ok (demo_stream 4 Established)" by (simp add: stream_ok_def demo_stream_def)
  show ?thesis
    by (rule tcp_short_segment_overruns [OF _ _ ok demo_segment_fields(2) _ _ demo_segment_fields(1)])
      (simp_all add: demo_stream_def demo_segment_def)
qed

text \<open>
  C40. The reset for a segment that belongs to no stream is addressed to the wrong port: its
  destination port is taken from the device's address, because the initializer of the
  temporary stream lists the local address before the remote port; the sequence and
  acknowledgement numbers are zero and both checksums verify.
\<close>

theorem tcp_reset_misaddressed:
  fixes w :: "'a nworld_scheme"
  assumes dev: "dev \<noteq> 0" "devices w dev = Some d" "length (dev_mac d) = 6"
    and arp: "arp_rep (arp_tab w) es" "map_of es srcIp = Some m" "length m = 6"
    and hdr: "get16 hdr 2 = Inr (ntos dport)" "get16 hdr 0 = Inr (ntos sport)"
    and alloc: "kmem_alloc w 78 = Inr (p, w1)" "p \<noteq> 0"
  shows "\<exists>s' ck ick urg. reset_stream env dev hdr srcIp w =
      send_call env (dev_send d) dev p (w1\<lparr>sbuffs := (sbuffs w)(p \<mapsto> s')\<rparr>) \<and>
    contents s' = m @ dev_mac d @ [8, 0] @ ipv4_header 40 6 ick (dev_ip d) srcIp @
      rev (b16 dport) @ rev (b16 (ucast (ntol (dev_ip d)))) @ replicate 8 0 @ [0x50, 0x14, 0, 0] @ ck @ urg \<and>
    length ck = 2 \<and> length ick = 2 \<and> length urg = 2"
proof -
  let ?t = "reset_template dev (dev_ip d) dport sport srcIp"
  have w1: "devices w1 = devices w" "arp_tab w1 = arp_tab w" using kmem_alloc_frame [OF alloc(1)] by auto
  have "kmem_alloc w (ucast (20 + 34 :: u16) + 24) = Inr (p, w1)" using alloc(1) by simp
  then obtain s0 where s0: "ip_sbuff_alloc 20 w = Inr (p, w1\<lparr>sbuffs := (sbuffs w)(p \<mapsto> s0)\<rparr>)"
    "sbuff_ok s0" "shead s0 = 34" "currSize s0 = 20"
    using alloc(2) by (rule ip_sbuff_alloc_eq) simp
  have c20: "18 \<le> unat (currSize s0)" using s0(4) by simp
  obtain s1 where s1: "edit_head (\<lambda>h. put_fields h (tcp_fields ?t Rst)) s0 = Inr s1" "sbuff_ok s1"
    "contents s1 = tcp_header ?t Rst [0, 0] @ drop 18 (contents s0)" "shead s1 = shead s0" "currSize s1 = currSize s0"
    by (rule tcp_header_contents [OF s0(2) c20])
  let ?w = "w1\<lparr>sbuffs := (sbuffs w)(p \<mapsto> s1)\<rparr>"
  obtain s2 ck ick where s2: "bind_res (tcp_checksum p 20 (dev_ip d) srcIp ?w) (ip_send env p IPPROTO_TCP srcIp dev) =
      bind_res (send_call env (dev_send d) dev p (?w\<lparr>sbuffs := (sbuffs ?w)(p \<mapsto> s2)\<rparr>)) (\<lambda>w. Inr (EOK, w))"
    "contents s2 = m @ dev_mac d @ [8, 0] @ ipv4_header (20 + 20) 6 ick (dev_ip d) srcIp @
       take 16 (contents s1) @ ck @ drop 18 (contents s1)" "length ck = 2" "length ick = 2"
    by (rule segment_sent [where w = ?w and sb = p and s = s1 and len = 20 and dev = dev and d = d and es = es
        and dest = srcIp and m = m and env = env]) (use alloc(2) s0(3,4) s1(2,4,5) dev arp w1 in simp_all)
  have "reset_stream env dev hdr srcIp w =
      bind_res (bind_res (tcp_checksum p 20 (dev_ip d) srcIp ?w) (ip_send env p IPPROTO_TCP srcIp dev)) (\<lambda>(r, w). Inr w)"
    using dev hdr s0(1) s1(1) alloc(2)
    by (simp add: reset_stream_def deref_def layout sbuff_fields_def sbuff_update_eq ntos.swap_swap bind_res_assoc)
  also have "\<dots> = send_call env (dev_send d) dev p (w1\<lparr>sbuffs := (sbuffs w)(p \<mapsto> s2)\<rparr>)"
    unfolding s2(1) by (simp add: bind_res_assoc)
  finally have r: "reset_stream env dev hdr srcIp w = send_call env (dev_send d) dev p (w1\<lparr>sbuffs := (sbuffs w)(p \<mapsto> s2)\<rparr>)" .
  have "length (contents s0) = 20" using length_contents [OF s0(2)] s0(4) by simp
  then have urg: "length (drop 18 (contents s0)) = 2" by simp
  have "rev (b32 0) = [0, 0, 0, 0]" "rev (b16 0) = [0, 0]"
    by (simp_all add: split_le_def byte_at_def upt_rec)
  then have "tcp_header ?t Rst ck = rev (b16 dport) @ rev (b16 (ucast (ntol (dev_ip d)))) @ replicate 8 0 @ [0x50, 0x14, 0, 0] @ ck"
    by (simp add: tcp_header_def reset_template_def layout numeral_eq_Suc)
  then have "contents s2 = m @ dev_mac d @ [8, 0] @ ipv4_header 40 6 ick (dev_ip d) srcIp @
      rev (b16 dport) @ rev (b16 (ucast (ntol (dev_ip d)))) @ replicate 8 0 @ [0x50, 0x14, 0, 0] @ ck @ drop 18 (contents s0)"
    using s2(2) unfolding s1(3) tcp_header_ck by simp
  with r urg s2(3,4) show ?thesis by blast
qed

definition demo_table :: arp_table where
  "demo_table = empty_arp\<lparr>arp_ips := (replicate 128 0)[0 := 0x0a000007], arp_count := 1\<rparr>"

lemma demo_table_rep: "arp_rep demo_table [(0x0a000007, replicate 6 0)]"
proof -
  have "\<exists>t'. arp_table_add (replicate 6 0) 0x0a000007 empty_arp = Inr t' \<and> arp_rep t' ([] @ [(0x0a000007, replicate 6 0)])"
    using arp_cache.add_rep [OF empty_arp_rep] by simp
  moreover have "(replicate 128 x)[0 := x] = replicate 128 x" for x :: mac
    using list_update_id [of "replicate 128 x" 0] by simp
  ultimately show ?thesis by (simp add: arp_table_add_def empty_arp_def demo_table_def)
qed

theorem tcp_reset_misaddressed_witness:
  "\<exists>(w :: nworld) w' s'. reset_stream demo_env 8 (demo_segment 0x10 []) 0x0a000007 w = Inr w' \<and>
     sbuffs w' 32816 = Some s' \<and> take 4 (drop 34 (contents s')) = [0, 80, 0, 10]"
proof -
  obtain w w1 :: nworld where w: "kmem_alloc w 78 = Inr (32816, w1)"
      "kheap.more w = demo_more Map.empty [8 \<mapsto> demo_device] demo_table"
    using boot_alloc [of 78 "demo_more Map.empty [8 \<mapsto> demo_device] demo_table"] by auto
  have m: "map_of [(0x0a000007 :: u32, replicate 6 (0 :: u8))] 0x0a000007 = Some (replicate 6 0)" by simp
  have rep: "arp_rep (arp_tab w) [(0x0a000007, replicate 6 0)]" and dev: "devices w 8 = Some demo_device"
    using demo_more_sel [OF w(2)] demo_table_rep by simp_all
  have "\<exists>s' ck ick urg. reset_stream demo_env 8 (demo_segment 0x10 []) 0x0a000007 w =
      send_call demo_env (dev_send demo_device) 8 32816 (w1\<lparr>sbuffs := (sbuffs w)(32816 \<mapsto> s')\<rparr>) \<and>
    contents s' = replicate 6 0 @ dev_mac demo_device @ [8, 0] @ ipv4_header 40 6 ick (dev_ip demo_device) 0x0a000007 @
      rev (b16 80) @ rev (b16 (ucast (ntol (dev_ip demo_device)))) @ replicate 8 0 @ [0x50, 0x14, 0, 0] @ ck @ urg \<and>
    length ck = 2 \<and> length ick = 2 \<and> length urg = 2"
    by (rule tcp_reset_misaddressed [OF _ dev _ rep m _ demo_segment_fields(4,3) w(1)]) (simp_all add: demo_device_def)
  then obtain s' ck ick urg where s': "reset_stream demo_env 8 (demo_segment 0x10 []) 0x0a000007 w =
      Inr (w1\<lparr>sbuffs := (sbuffs w)(32816 \<mapsto> s')\<rparr>)"
    "contents s' = replicate 6 0 @ [2, 0, 0, 0, 0, 1] @ [8, 0] @ ipv4_header 40 6 ick 0x0a000002 0x0a000007 @
      rev (b16 80) @ rev (b16 (ucast (ntol 0x0a000002))) @ replicate 8 0 @ [0x50, 0x14, 0, 0] @ ck @ urg" "length ick = 2"
    by (auto simp: demo_env_def demo_device_def)
  have "rev (b16 80) = [0, 80]" "rev (b16 (ucast (ntol 0x0a000002))) = [0, 10]"
    by (simp_all add: split_le_def byte_at_def ntol_def ntos_def upt_rec)
  with s'(2,3) have "take 4 (drop 34 (contents s')) = [0, 80, 0, 10]" by (simp add: ipv4_header_def)
  then show ?thesis
    by (intro exI [of _ w] exI [of _ "w1\<lparr>sbuffs := (sbuffs w)(32816 \<mapsto> s')\<rparr>"] exI [of _ s']) (use s'(1) in simp)
qed

end
