(* ===== verification/TcpStates.thy ===== *)
theory TcpStates
  imports Tcp
begin

text \<open>
  The life of a TCP stream as a state machine: the operations of tcp.c on an existing stream
  follow the step relation below, and sending leaves every stream's state alone.
\<close>

unbundle bit_operations_syntax

subsection \<open>What sending leaves alone\<close>

text \<open>
  A view of the world that no part of the sending path changes: the layers below TCP only touch
  buffers and the heap, so a device that keeps the view lets \<open>ip_send\<close> keep it.
\<close>

locale net_view =
  fixes view :: "'a nworld_scheme \<Rightarrow> 'v"
  assumes view_sbuffs: "view (w\<lparr>sbuffs := x\<rparr>) = view w"
    and view_heap: "view (w\<lparr>kmem := m, heap_sequence := q, heap_currentObjects := c\<rparr>) = view w"
begin

definition keeps :: "'a nworld_scheme net_env \<Rightarrow> bool" where
  "keeps env \<longleftrightarrow> (\<forall>fn dv sb w w'. send_call env fn dv sb w = Inr w' \<longrightarrow> view w' = view w)"

lemma alloc_view: "kmem_alloc w n = Inr (p, w') \<Longrightarrow> view w' = view w"
  using kmem_alloc_frame [of w n p w'] view_heap by auto

lemma free_view: "kmem_free w p = Inr w' \<Longrightarrow> view w' = view w"
proof -
  assume "kmem_free w p = Inr w'"
  then obtain m c where "w' = w\<lparr>kmem := m, heap_currentObjects := c\<rparr>" using kmem_free_frame [of w p w'] by blast
  then have "w' = w\<lparr>kmem := m, heap_sequence := heap_sequence w, heap_currentObjects := c\<rparr>" by simp
  then show ?thesis by (simp only: view_heap)
qed

lemma update_view: "sbuff_update p f w = Inr w' \<Longrightarrow> view w' = view w"
  by (auto simp: sbuff_update_def res_simps view_sbuffs)

lemma raw_alloc_view: "raw_sbuff_alloc n w = Inr (p, w') \<Longrightarrow> view w' = view w"
  by (auto simp: raw_sbuff_alloc_def res_simps view_sbuffs dest: alloc_view)

lemma eth_alloc_view: "ethernet_sbuff_alloc n w = Inr (p, w') \<Longrightarrow> view w' = view w"
  by (auto simp: ethernet_sbuff_alloc_def res_simps sbuff_push_def dest!: raw_alloc_view update_view)

lemma ip_alloc_view: "ip_sbuff_alloc n w = Inr (p, w') \<Longrightarrow> view w' = view w"
  by (auto simp: ip_sbuff_alloc_def res_simps sbuff_push_def dest!: eth_alloc_view update_view)

lemma fields_view: "sbuff_fields p fs w = Inr w' \<Longrightarrow> view w' = view w"
  by (simp add: sbuff_fields_def update_view)

lemma release_view: "sbuff_release_ref p w = Inr w' \<Longrightarrow> view w' = view w"
  by (auto simp: sbuff_release_ref_def sbuff_free_def res_simps view_sbuffs split: if_splits
      dest!: update_view free_view)

lemma eth_send_view:
  assumes "keeps env" "ethernet_send env sb proto dest dev w = Inr w'"
  shows "view w' = view w"
  using assms by (fastforce simp: ethernet_send_def sbuff_pop_def res_simps keeps_def dest!: update_view fields_view)

lemma arp_request_view:
  assumes "keeps env" "arp_request env dev a w = Inr w'"
  shows "view w' = view w"
  using assms
  by (auto simp: arp_request_def sbuff_add_ref_def res_simps
      dest!: eth_alloc_view update_view fields_view release_view eth_send_view [OF assms(1)])

lemma arp_lookup_view:
  assumes "keeps env" "arp_lookup env dev a w = Inr (r, w')"
  shows "view w' = view w"
  using assms by (auto simp: arp_lookup_def res_simps split: option.splits dest!: arp_request_view [OF assms(1)])

lemma ip_send_view:
  assumes "keeps env" "ip_send env sb proto dest dev w = Inr (r, w')"
  shows "view w' = view w"
  using assms
  by (auto simp: ip_send_def sbuff_pop_def res_simps split: option.splits
      dest!: update_view fields_view arp_lookup_view [OF assms(1)] eth_send_view [OF assms(1)])

end

text \<open>The state of every stream, and the device's and ARP's data.\<close>

definition states :: "'a nworld_scheme \<Rightarrow> u64 \<rightharpoonup> TcpState" where
  "states w = (\<lambda>s. map_option tstate (streams w s))"

interpretation tcp_states: net_view states
  by unfold_locales (simp_all add: states_def)

subsection \<open>The state machine\<close>

datatype tcp_event = RcvAck | RcvFin | AppClose

inductive tcp_step :: "tcp_event \<Rightarrow> TcpState \<Rightarrow> TcpState option \<Rightarrow> bool" where
  ack_syn: "tcp_step RcvAck SynReceived (Some Established)"
| ack_fin: "tcp_step RcvAck FinWait1 (Some FinWait2)"
| ack_last: "tcp_step RcvAck LastAck None"
| ack_stay: "t \<noteq> SynReceived \<Longrightarrow> t \<noteq> FinWait1 \<Longrightarrow> t \<noteq> LastAck \<Longrightarrow> tcp_step RcvAck t (Some t)"
| fin_done: "tcp_step RcvFin FinWait2 None"
| fin_passive: "tcp_step RcvFin Established (Some LastAck)"
| fin_stay: "t \<noteq> FinWait2 \<Longrightarrow> t \<noteq> Established \<Longrightarrow> tcp_step RcvFin t (Some t)"
| app_close: "tcp_step AppClose t (Some FinWait1)"

text \<open>A run over a list of events; a stream that is gone accepts no more.\<close>

inductive tcp_run :: "tcp_event list \<Rightarrow> TcpState option \<Rightarrow> TcpState option \<Rightarrow> bool" where
  run_Nil: "tcp_run [] r r"
| run_Cons: "tcp_step e t t' \<Longrightarrow> tcp_run es t' r \<Longrightarrow> tcp_run (e # es) (Some t) r"

code_pred tcp_step .
code_pred tcp_run .

inductive_cases tcp_ackE [elim!]: "tcp_step RcvAck t r"
inductive_cases tcp_finE [elim!]: "tcp_step RcvFin t r"
inductive_cases tcp_closeE [elim!]: "tcp_step AppClose t r"
inductive_simps tcp_run_None: "tcp_run (e # es) None r"
inductive_simps tcp_run_Nil: "tcp_run [] t r"
inductive_simps tcp_run_Cons: "tcp_run (e # es) (Some t) r"

text \<open>States a stream created by a SYN is ever in.\<close>

definition live :: "TcpState \<Rightarrow> bool" where
  "live t \<longleftrightarrow> t \<in> {SynReceived, Established, FinWait1, FinWait2, LastAck}"

lemma tcp_step_live: "tcp_step e t (Some t') \<Longrightarrow> live t \<Longrightarrow> live t'"
  by (cases e) (auto simp: live_def)

lemma tcp_run_live: "tcp_run es r r' \<Longrightarrow> r = Some t \<Longrightarrow> r' = Some t' \<Longrightarrow> live t \<Longrightarrow> live t'"
proof (induction arbitrary: t rule: tcp_run.induct)
  case (run_Cons e t0 t1 es r)
  then show ?case by (cases t1) (auto simp: tcp_run_Nil dest: tcp_step_live elim: tcp_run.cases)
qed simp

text \<open>The states in the order a stream goes through them; no event of the peer moves it back.\<close>

fun stage :: "TcpState \<Rightarrow> nat" where
  "stage Closed = 0" | "stage Listen = 1" | "stage SynSent = 2" | "stage SynReceived = 3" | "stage Established = 4"
| "stage FinWait1 = 5" | "stage FinWait2 = 6" | "stage Closing = 7" | "stage TimeWait = 8" | "stage CloseWait = 9"
| "stage LastAck = 10"

instantiation TcpState :: linorder
begin

definition less_eq_TcpState :: "TcpState \<Rightarrow> TcpState \<Rightarrow> bool" where
  "less_eq_TcpState t u \<longleftrightarrow> stage t \<le> stage u"

definition less_TcpState :: "TcpState \<Rightarrow> TcpState \<Rightarrow> bool" where
  "less_TcpState t u \<longleftrightarrow> stage t < stage u"

instance
proof
  fix t u :: TcpState
  show "t \<le> u \<Longrightarrow> u \<le> t \<Longrightarrow> t = u" by (cases t; cases u) (simp_all add: less_eq_TcpState_def)
qed (auto simp: less_eq_TcpState_def less_TcpState_def)

end

lemma tcp_step_forward: "tcp_step e t (Some t') \<Longrightarrow> e \<noteq> AppClose \<Longrightarrow> t \<le> t'"
  by (cases e) (auto simp: less_eq_TcpState_def)

lemma tcp_run_forward:
  "tcp_run es r r' \<Longrightarrow> AppClose \<notin> set es \<Longrightarrow> r = Some t \<Longrightarrow> r' = Some t' \<Longrightarrow> t \<le> t'"
proof (induction arbitrary: t rule: tcp_run.induct)
  case (run_Cons e t0 t1 es r)
  then show ?case
    by (cases t1) (auto simp: tcp_run_Nil dest: tcp_step_forward elim: tcp_run.cases intro: order_trans)
qed simp

subsection \<open>The operations on stream states\<close>

lemma update_states:
  assumes "stream_update s f w = Inr w'"
  obtains st where "streams w s = Some st" "s \<noteq> 0" "w' = w\<lparr>streams := (streams w)(s \<mapsto> f st)\<rparr>"
    "states w' = (states w)(s \<mapsto> tstate (f st))"
proof -
  from assms obtain st where st: "streams w s = Some st" "s \<noteq> 0" "w' = w\<lparr>streams := (streams w)(s \<mapsto> f st)\<rparr>"
    by (auto simp: stream_update_def deref_def res_simps split: if_splits option.splits)
  then have "states w' = (states w)(s \<mapsto> tstate (f st))" by (auto simp: states_def)
  with st that show ?thesis by blast
qed

lemma update_keeps_states:
  assumes "stream_update s f w = Inr w'" "\<And>st. tstate (f st) = tstate st"
  shows "states w' = states w"
proof -
  obtain st where "streams w s = Some st" "states w' = (states w)(s \<mapsto> tstate (f st))"
    using update_states [OF assms(1)] by metis
  then show ?thesis using assms(2) by (auto simp: states_def)
qed

lemma update_sets_state:
  assumes "stream_update s f w = Inr w'" "\<And>st. tstate (f st) = t"
  shows "states w' = (states w)(s \<mapsto> t)"
  using update_states [OF assms(1)] assms(2) by metis

lemma remove_states:
  assumes "remove_stream s w = Inr w'"
  shows "states w' = (states w)(s := None)"
proof -
  from assms obtain before and st :: stream and w1 w2 where
    w1: "(if before \<noteq> 0 then stream_update before (\<lambda>b. b\<lparr>snext := snext st\<rparr>) w else Inr (w\<lparr>all_streams := snext st\<rparr>)) = Inr w1"
    and w2: "kmem_free w1 s = Inr w2" "w' = w2\<lparr>streams := (streams w2)(s := None)\<rparr>"
    by (auto simp: remove_stream_def res_simps)
  have "states w1 = states w"
  proof (cases "before = 0")
    case True
    then show ?thesis using w1 by (auto simp: states_def)
  next
    case False
    then have "stream_update before (\<lambda>b. b\<lparr>snext := snext st\<rparr>) w = Inr w1" using w1 by simp
    then show ?thesis by (rule update_keeps_states) simp
  qed
  moreover have "states w2 = states w1" using w2(1) by (rule tcp_states.free_view)
  moreover have "states w' = (states w2)(s := None)" using w2(2) by (auto simp: states_def)
  ultimately show ?thesis by simp
qed

lemma header_states:
  assumes "header_from_stream s sb fl w = Inr w'"
  shows "states w' = states w"
proof -
  from assms obtain w1 where "states w1 = states w" "stream_update s (\<lambda>st. st\<lparr>needsAck := 0\<rparr>) w1 = Inr w'"
    by (auto simp: header_from_stream_def res_simps dest: tcp_states.fields_view)
  then show ?thesis using update_keeps_states [of s "\<lambda>st. st\<lparr>needsAck := 0\<rparr>" w1 w'] by simp
qed

lemma segment_states:
  assumes env: "tcp_states.keeps env" and r: "send_segment env s fl pl upd dev w = Inr w'"
    and upd: "\<And>st. tstate (upd st) = g (tstate st)"
  shows "states w' = (states w)(s := map_option g (states w s))"
proof -
  from r obtain sb w1 w2 w3 w4 and d :: netdevice and st :: stream and w5 r' where
    1: "ip_sbuff_alloc (sizeof_tcp_hdr + of_nat (length pl)) w = Inr (sb, w1)"
    and 2: "header_from_stream s sb fl w1 = Inr w2"
    and 3: "sbuff_fields sb [(unat sizeof_tcp_hdr, pl)] w2 = Inr w3" and 4: "stream_update s upd w3 = Inr w4"
    and 5: "tcp_checksum sb (sizeof_tcp_hdr + of_nat (length pl)) (dev_ip d) (remoteAddr st) w4 = Inr w5"
    and 6: "ip_send env sb IPPROTO_TCP (remoteAddr st) dev w5 = Inr (r', w')"
    by (auto simp: send_segment_def res_simps)
  have "states w3 = states w"
    using tcp_states.ip_alloc_view [OF 1] header_states [OF 2] tcp_states.fields_view [OF 3] by simp
  moreover have "states w' = states w4"
    using tcp_states.update_view [OF 5 [unfolded tcp_checksum_def]] tcp_states.ip_send_view [OF env 6] by simp
  moreover obtain st4 where "streams w3 s = Some st4" "states w4 = (states w3)(s \<mapsto> tstate (upd st4))"
    using update_states [OF 4] by metis
  moreover from this have "states w3 s = Some (tstate st4)" by (simp add: states_def)
  ultimately show ?thesis using upd by simp
qed

lemma acked_states:
  assumes "acked s hdr w = Inr w'"
  obtains t where "states w s = Some t"
    "states w' = (states w)(s := if t = LastAck then None else Some (ack_state t))"
proof -
  let ?f = "\<lambda>ack st. (if pendingAck st \<le> ack then st\<lparr>pendingAck := ack\<rparr> else st)\<lparr>tstate := ack_state (tstate st)\<rparr>"
  from assms obtain ack w1 st1 where 1: "stream_update s (?f ack) w = Inr w1" and st1: "deref (streams w1) s = Inr st1"
    and 2: "(if tstate st1 = LastAck then remove_stream s w1 else Inr w1) = Inr w'"
    by (auto simp: acked_def res_simps)
  obtain st where st: "streams w s = Some st" "w1 = w\<lparr>streams := (streams w)(s \<mapsto> ?f ack st)\<rparr>"
    "states w1 = (states w)(s \<mapsto> tstate (?f ack st))"
    using update_states [OF 1] by metis
  have t1: "tstate st1 = ack_state (tstate st)" using st1 st(2) by (auto simp: deref_def split: if_splits)
  have last: "ack_state t = LastAck \<longleftrightarrow> t = LastAck" for t by (simp add: ack_state_def)
  have "states w s = Some (tstate st)" using st(1) by (simp add: states_def)
  moreover have "states w' = (states w)(s := if tstate st = LastAck then None else Some (ack_state (tstate st)))"
    using 2 remove_states [of s w1 w'] st(3) t1 last by (auto split: if_splits)
  ultimately show ?thesis using that by blast
qed

lemma buffer_data_states:
  assumes "buffer_data hdr s len w = Inr w'"
  shows "states w' = states w"
proof (cases "len = 0")
  case False
  with assms obtain st where st: "deref (streams w) s = Inr st" by (auto simp: buffer_data_def res_simps)
  show ?thesis
  proof (cases "readMax st < readOffset st + len")
    case True
    then show ?thesis using assms False st by (auto simp: buffer_data_def on_con_def states_def res_simps)
  next
    case False
    with assms \<open>len \<noteq> 0\<close> st obtain seq buf where "stream_update s (\<lambda>st. st\<lparr>ackSeq := ntol seq + len, readBuf := buf,
        readOffset := readOffset st + len, needsAck := 1\<rparr>) w = Inr w'"
      by (auto simp: buffer_data_def res_simps)
    then show ?thesis by (rule update_keeps_states) simp
  qed
qed (use assms in \<open>simp add: buffer_data_def\<close>)

text \<open>What a FIN does to the state, and what remains of the stream.\<close>

definition fin_state :: "TcpState \<Rightarrow> TcpState option" where
  "fin_state t = (if t = FinWait2 then None else if t = Established then Some LastAck else Some t)"

lemma fin_states:
  assumes env: "tcp_states.keeps env" and r: "fin env dev s w = Inr w'"
  obtains t where "states w s = Some t" "states w' = (states w)(s := fin_state t)"
proof -
  let ?up = "\<lambda>st. st\<lparr>ackSeq := ackSeq st + 1\<rparr>"
  from r obtain st where st: "streams w s = Some st" by (auto simp: fin_def res_simps deref_def split: if_splits option.splits)
  then have t: "states w s = Some (tstate st)" and d: "deref (streams w) s = Inr st"
    using r by (auto simp: states_def fin_def res_simps deref_def)
  have seg: "states w2 = states w" if "stream_update s ?up w = Inr w1" "send_segment env s fl [] id dev w1 = Inr w2" for fl w1 w2
  proof -
    have "states w1 = states w" using that(1) by (rule update_keeps_states) simp
    moreover have "states w2 = (states w1)(s := map_option id (states w1 s))"
      using env that(2) by (rule segment_states) simp
    ultimately show ?thesis by (simp add: option.map_id)
  qed
  consider "tstate st = FinWait2" | "tstate st = Established" | "tstate st \<noteq> FinWait2" "tstate st \<noteq> Established" by blast
  then have "states w' = (states w)(s := fin_state (tstate st))"
  proof cases
    case 1
    with r d obtain w1 w2 w3 where ws: "stream_update s ?up w = Inr w1" "send_segment env s Ack [] id dev w1 = Inr w2"
      "stream_update s (\<lambda>st. st\<lparr>tstate := TimeWait\<rparr>) w2 = Inr w3" "remove_stream s w3 = Inr w'"
      by (auto simp: fin_def res_simps time_wait_def)
    have "states w3 = (states w2)(s \<mapsto> TimeWait)" using ws(3) by (rule update_sets_state) simp
    then show ?thesis using seg [OF ws(1,2)] remove_states [OF ws(4)] 1 by (simp add: fin_state_def)
  next
    case 2
    with r d obtain w1 w2 where ws: "stream_update s ?up w = Inr w1" "send_segment env s (Fin OR Ack) [] id dev w1 = Inr w2"
      "stream_update s (\<lambda>st. st\<lparr>tstate := LastAck\<rparr>) w2 = Inr w'"
      by (auto simp: fin_def res_simps)
    have "states w' = (states w2)(s \<mapsto> LastAck)" using ws(3) by (rule update_sets_state) simp
    then show ?thesis using seg [OF ws(1,2)] 2 by (simp add: fin_state_def)
  next
    case 3
    then have "w' = w" using r d by (simp add: fin_def)
    then show ?thesis using 3 t by (simp add: fin_state_def fun_upd_idem)
  qed
  with t that show ?thesis by blast
qed

subsection \<open>Properties\<close>

text \<open>
  What the code asks of the application a PSH calls: it leaves the states alone, or it has
  closed the stream it reads from with \<open>tcp_close\<close>. \<open>app_closes\<close>: the call made for this segment,
  after the ACK and the data have been handled, does the latter.
\<close>

definition app_contract :: "'a nworld_scheme net_env \<Rightarrow> bool" where
  "app_contract env \<longleftrightarrow> (\<forall>fn s buf n w w'. read_call env fn s buf n w = Inr w' \<longrightarrow>
     states w' = states w \<or> states w' = (states w)(s \<mapsto> FinWait1))"

definition before_read :: "u8 \<Rightarrow> u8 list \<Rightarrow> u64 \<Rightarrow> u32 \<Rightarrow> 'a nworld_scheme \<Rightarrow> 'a nworld_scheme res" where
  "before_read flags hdr s sz w =
     bind_res (if flags AND Ack \<noteq> 0 then acked s hdr w else Inr w) (\<lambda>w.
     bind_res (tcp_offset hdr) (\<lambda>off. buffer_data hdr s (sz - of_nat (4 * off)) w))"

definition app_closes :: "'a nworld_scheme net_env \<Rightarrow> u8 \<Rightarrow> u8 list \<Rightarrow> u64 \<Rightarrow> u32 \<Rightarrow> 'a nworld_scheme \<Rightarrow> bool" where
  "app_closes env flags hdr s sz w \<longleftrightarrow> flags AND Psh \<noteq> 0 \<and>
     (\<exists>wb st wr. before_read flags hdr s sz w = Inr wb \<and> streams wb s = Some st \<and>
        read_call env (readFn st) s (readBuf st) (readOffset st) wb = Inr wr \<and> states wr \<noteq> states wb)"

text \<open>The events of a segment: what the flags say, and the close of the application.\<close>

abbreviation events :: "u8 \<Rightarrow> bool \<Rightarrow> tcp_event list" where
  "events flags closes \<equiv> (if flags AND Ack \<noteq> 0 then [RcvAck] else []) @ (if closes then [AppClose] else []) @
     (if flags AND Fin \<noteq> 0 then [RcvFin] else [])"

lemma pushit_states:
  assumes app: "app_contract env" and r: "pushit env s w = Inr w'"
  obtains st t wr where "streams w s = Some st" "states w s = Some t"
    "read_call env (readFn st) s (readBuf st) (readOffset st) w = Inr wr"
    "states w' = (if states wr = states w then states w else (states w)(s \<mapsto> FinWait1))"
proof -
  from r obtain st wr where st: "streams w s = Some st"
    and rd: "read_call env (readFn st) s (readBuf st) (readOffset st) w = Inr wr"
    and up: "stream_update s (\<lambda>st. st\<lparr>readOffset := 0\<rparr>) wr = Inr w'"
    by (auto simp: pushit_def deref_def res_simps split: if_splits option.splits)
  have "states w' = states wr" using up by (rule update_keeps_states) simp
  moreover have "states wr = states w \<or> states wr = (states w)(s \<mapsto> FinWait1)"
    using app rd unfolding app_contract_def by blast
  ultimately have "states w' = (if states wr = states w then states w else (states w)(s \<mapsto> FinWait1))" by auto
  moreover have "states w s = Some (tstate st)" using st by (simp add: states_def)
  ultimately show ?thesis using that st rd by blast
qed

lemma ack_step: "tcp_step RcvAck t (if t = LastAck then None else Some (ack_state t))"
  by (cases t) (auto simp: ack_state_def intro: tcp_step.intros)

lemma fin_step: "tcp_step RcvFin t (fin_state t)"
  by (cases t) (auto simp: fin_state_def intro: tcp_step.intros)

lemma run_single: "tcp_step e t r \<Longrightarrow> tcp_run [e] (Some t) r"
  by (rule run_Cons [OF _ run_Nil])

lemma run_append: "tcp_run es r r' \<Longrightarrow> tcp_run es' r' r'' \<Longrightarrow> tcp_run (es @ es') r r''"
  by (induction rule: tcp_run.induct) (auto intro: run_Cons)

lemma segment_run:
  fixes w :: "'a nworld_scheme"
  assumes env: "tcp_states.keeps env" and app: "app_contract env"
    and s: "tcp_find dev srcIp hdr w = Inr s" "s \<noteq> 0" "states w s = Some t"
    and fl: "get8 hdr 13 = Inr flags" "flags AND Syn = 0"
    and r: "tcp_segment env dev hdr sz srcIp w = Inr w'"
  shows "tcp_run (events flags (app_closes env flags hdr s sz w)) (Some t) (states w' s) \<and>
    (\<forall>x. x \<noteq> s \<longrightarrow> states w' x = states w x)"
proof -
  from r s fl obtain w1 off w2 w3 where
    1: "(if flags AND Ack \<noteq> 0 then acked s hdr w else Inr w) = Inr w1"
    and off: "tcp_offset hdr = Inr off" and 2: "buffer_data hdr s (sz - of_nat (4 * off)) w1 = Inr w2"
    and 3: "(if flags AND Psh \<noteq> 0 then pushit env s w2 else Inr w2) = Inr w3"
    and 4: "(if flags AND Fin \<noteq> 0 then fin env dev s w3 else Inr w3) = Inr w'"
    by (auto simp: tcp_segment_def res_simps)
  have bf: "before_read flags hdr s sz w = Inr w2" using 1 off 2 by (simp add: before_read_def)
  define r1 where "r1 = (if flags AND Ack \<noteq> 0 then if t = LastAck then None else Some (ack_state t) else Some t)"
  have w1: "states w1 = (states w)(s := r1)"
  proof (cases "flags AND Ack = 0")
    case False
    then obtain t' where "states w s = Some t'" "states w1 = (states w)(s := if t' = LastAck then None else Some (ack_state t'))"
      using acked_states [of s hdr w w1] 1 by metis
    then show ?thesis using False s(3) by (simp add: r1_def)
  qed (use 1 s(3) in \<open>simp add: r1_def fun_upd_idem\<close>)
  then have w2: "states w2 = (states w)(s := r1)" using buffer_data_states [OF 2] by simp
  have run1: "tcp_run (if flags AND Ack \<noteq> 0 then [RcvAck] else []) (Some t) r1"
    using ack_step [of t] by (simp add: r1_def run_single run_Nil)
  let ?cl = "app_closes env flags hdr s sz w"
  obtain r2 where w3: "states w3 = (states w)(s := r2)" and run2: "tcp_run (if ?cl then [AppClose] else []) r1 r2"
  proof (cases "flags AND Psh = 0")
    case True
    then have "\<not> ?cl" "w3 = w2" using 3 by (simp_all add: app_closes_def)
    then show ?thesis using w2 by (intro that [of r1]) (simp_all add: run_Nil)
  next
    case False
    then have "pushit env s w2 = Inr w3" using 3 by simp
    then obtain st t2 wr where p: "streams w2 s = Some st" "states w2 s = Some t2"
      "read_call env (readFn st) s (readBuf st) (readOffset st) w2 = Inr wr"
      "states w3 = (if states wr = states w2 then states w2 else (states w2)(s \<mapsto> FinWait1))"
      by (rule pushit_states [OF app])
    have cl: "?cl \<longleftrightarrow> states wr \<noteq> states w2" using False bf p(1,3) by (auto simp: app_closes_def)
    have "r1 = Some t2" using w2 p(2) by simp
    then show ?thesis using p(4) w2 cl run_single [OF app_close [of t2]]
      by (intro that [of "if ?cl then Some FinWait1 else r1"]) (auto simp: run_Nil)
  qed
  have "tcp_run (if flags AND Fin \<noteq> 0 then [RcvFin] else []) r2 (states w' s) \<and> (\<forall>x. x \<noteq> s \<longrightarrow> states w' x = states w x)"
  proof (cases "flags AND Fin = 0")
    case True
    then show ?thesis using 4 w3 by (simp add: run_Nil)
  next
    case False
    then obtain t' where t': "states w3 s = Some t'" "states w' = (states w3)(s := fin_state t')"
      using fin_states [OF env, of dev s w3 w'] 4 by metis
    then have "r2 = Some t'" using w3 by simp
    then show ?thesis using t' w3 run_single [OF fin_step [of t']] False by simp
  qed
  with run_append [OF run1 run_append [OF run2]] show ?thesis by blast
qed

lemma run_after_close:
  "tcp_run (es @ AppClose # fs) r r' \<Longrightarrow> set fs \<subseteq> {RcvFin} \<Longrightarrow> r' = Some FinWait1"
proof (induction es arbitrary: r)
  case Nil
  then obtain t where "r = Some t" by (cases r) (simp_all add: tcp_run_None)
  with Nil have run: "tcp_run fs (Some FinWait1) r'" by (auto simp: tcp_run_Cons)
  from Nil(2) run show ?case
  proof (induction fs)
    case (Cons e fs)
    then show ?case by (auto simp: tcp_run_Cons)
  qed (simp add: tcp_run_Nil)
next
  case (Cons e es)
  then obtain t where "r = Some t" by (cases r) (simp_all add: tcp_run_None)
  with Cons show ?case by (auto simp: tcp_run_Cons)
qed

lemma pure_ack_returns:
  fixes w :: "'a nworld_scheme"
  assumes s: "tcp_find dev srcIp hdr w = Inr s" "s \<noteq> 0" "states w s = Some t" "t \<noteq> LastAck"
    and fl: "get8 hdr 13 = Inr flags" "flags AND Syn = 0" "flags AND Psh = 0" "flags AND Fin = 0"
    and hdr: "get32 hdr 8 = Inr ack" "tcp_offset hdr = Inr off" "unat sz = 4 * off"
  shows "\<exists>w'. tcp_segment env dev hdr sz srcIp w = Inr w'"
proof -
  obtain st where st: "streams w s = Some st" "tstate st = t" using s(3) by (auto simp: states_def)
  have "ack_state t \<noteq> LastAck" using s(4) by (simp add: ack_state_def)
  then have "\<exists>w1. acked s hdr w = Inr w1"
    using st s(2) hdr(1) by (simp add: acked_def stream_update_eq deref_def)
  moreover have "sz = of_nat (4 * off)" by (simp only: hdr(3) [symmetric] of_nat_unat) simp
  ultimately show ?thesis
    using s(1,2) fl hdr(2) by (auto simp: tcp_segment_def buffer_data_def)
qed

text \<open>
  C5. A segment without SYN for a known stream moves that stream along the TCP state machine, and no
  other stream: by an ACK event, a close by the application and a FIN event, in this order. ACK
  and FIN are events when the segment has the flag, the close is one when the segment has PSH and
  the application it calls closes the stream. Assumed are a device that leaves streams alone and
  applications that change no state but by closing their stream. A pure ACK is always handled
  unless it is the last one.
\<close>

theorem tcp_segment_refines:
  fixes w :: "'a nworld_scheme"
  assumes "tcp_states.keeps env" "app_contract env" "tcp_find dev srcIp hdr w = Inr s" "s \<noteq> 0" "states w s = Some t"
    and "get8 hdr 13 = Inr flags" "flags AND Syn = 0"
  shows "(\<forall>w'. tcp_segment env dev hdr sz srcIp w = Inr w' \<longrightarrow>
      tcp_run (events flags (app_closes env flags hdr s sz w)) (Some t) (states w' s) \<and>
      (\<forall>x. x \<noteq> s \<longrightarrow> states w' x = states w x)) \<and>
    (flags AND Psh = 0 \<and> flags AND Fin = 0 \<and> t \<noteq> LastAck \<and> get32 hdr 8 = Inr ack \<and> tcp_offset hdr = Inr off \<and>
       unat sz = 4 * off \<longrightarrow> (\<exists>w'. tcp_segment env dev hdr sz srcIp w = Inr w'))"
  using segment_run [OF assms] pure_ack_returns [OF assms(3-5) _ assms(6,7)] by blast

text \<open>An application that closes its stream at once, and a segment with ACK and PSH.\<close>

definition closing_env :: "nworld net_env" where
  "closing_env = demo_env\<lparr>read_call := (\<lambda>fn s buf n. stream_update s (\<lambda>st. st\<lparr>tstate := FinWait1\<rparr>))\<rparr>"

lemma closing_contract: "app_contract closing_env"
  unfolding app_contract_def closing_env_def
  using update_sets_state [where f = "\<lambda>st. st\<lparr>tstate := FinWait1\<rparr>" and t = FinWait1] by auto

theorem tcp_segment_refines_witness:
  "\<exists>w'. tcp_segment closing_env 8 (demo_segment 0x18 []) 20 0x0a000007 (demo_net Map.empty [8 \<mapsto> demo_device] empty_arp
       \<lparr>streams := [16 \<mapsto> demo_stream 0 SynReceived], all_streams := 16\<rparr>) = Inr w' \<and> states w' 16 = Some FinWait1"
proof -
  let ?w = "demo_net Map.empty [8 \<mapsto> demo_device] empty_arp\<lparr>streams := [16 \<mapsto> demo_stream 0 SynReceived], all_streams := 16\<rparr>"
  let ?hdr = "demo_segment 0x18 []"
  have k: "tcp_states.keeps closing_env" by (simp add: tcp_states.keeps_def closing_env_def demo_env_def)
  have dev: "devices ?w 8 = Some demo_device" by (simp add: demo_net_def demo_more_def kheap.defs)
  have s: "tcp_find 8 0x0a000007 ?hdr ?w = Inr 16" "states ?w 16 = Some SynReceived"
    using dev demo_segment_fields(3,4)
    by (simp_all add: tcp_find_def deref_def find_stream.simps walk_fuel_def stream_matches_def demo_stream_def
        demo_device_def states_def ntos.swap_swap)
  have off: "tcp_offset ?hdr = Inr 5" "get32 ?hdr 8 = Inr (ntol 2)" "get8 ?hdr 13 = Inr 0x18" by (rule demo_segment_fields)+
  have fl: "(0x18 :: u8) AND Syn = 0" "(0x18 :: u8) AND Psh \<noteq> 0" "(0x18 :: u8) AND Fin = 0" "(0x18 :: u8) AND Ack \<noteq> 0"
    by (simp_all add: layout)
  define w1 where "w1 = ?w\<lparr>streams := (streams ?w)(16 \<mapsto> (if pendingAck (demo_stream 0 SynReceived) \<le> ntol 2
      then (demo_stream 0 SynReceived)\<lparr>pendingAck := ntol 2\<rparr> else demo_stream 0 SynReceived)\<lparr>tstate := Established\<rparr>)\<rparr>"
  have t0: "tstate (demo_stream 0 SynReceived) = SynReceived" by (simp add: demo_stream_def)
  have ak: "acked 16 ?hdr ?w = Inr w1"
    using off(2) t0 by (simp add: acked_def stream_update_eq deref_def ack_state_def w1_def)
  have bd: "buffer_data ?hdr 16 0 w = Inr w" for w :: nworld by (simp add: buffer_data_def)
  have bf: "before_read 0x18 ?hdr 16 20 ?w = Inr w1" using fl(4) off(1) ak bd by (simp add: before_read_def)
  obtain st where st: "streams w1 16 = Some st" "states w1 16 = Some Established" by (simp add: w1_def states_def)
  define wr where "wr = w1\<lparr>streams := (streams w1)(16 \<mapsto> st\<lparr>tstate := FinWait1\<rparr>)\<rparr>"
  have rd: "read_call closing_env fn 16 buf n w1 = Inr wr" for fn buf n
    using st(1) by (simp add: closing_env_def stream_update_eq wr_def)
  have "states wr 16 = Some FinWait1" by (simp add: wr_def states_def)
  then have ne: "states wr \<noteq> states w1" using st(2) by auto
  have cl: "app_closes closing_env 0x18 ?hdr 16 20 ?w"
    unfolding app_closes_def using fl(2) bf st(1) rd ne by blast
  have "streams wr 16 = Some (st\<lparr>tstate := FinWait1\<rparr>)" by (simp add: wr_def)
  then have "pushit closing_env 16 w1 = Inr (wr\<lparr>streams := (streams wr)(16 \<mapsto> st\<lparr>tstate := FinWait1, readOffset := 0\<rparr>)\<rparr>)"
    using st(1) rd by (simp add: pushit_def deref_def stream_update_eq)
  then obtain w' where w': "tcp_segment closing_env 8 ?hdr 20 0x0a000007 ?w = Inr w'"
    using s(1) off fl ak bd by (auto simp: tcp_segment_def)
  have "tcp_run (events 0x18 True) (Some SynReceived) (states w' 16)"
    using tcp_segment_refines [OF k closing_contract s(1) _ s(2) off(3) fl(1), of 20] w' cl by simp
  then have "states w' 16 = Some FinWait1" using fl by (auto simp: tcp_run_Cons tcp_run_Nil)
  with w' show ?thesis by blast
qed

text \<open>
  C16. No segment moves a stream backwards by itself: after a segment without SYN the stream it
  belongs to is in the same or a later state of the TCP life cycle, whatever the flags; it is gone
  only if it was closing already. The exception is a PSH whose application closes the stream: it is
  then in FIN-WAIT-1, from whatever state it was in.
\<close>

theorem tcp_segment_forward:
  fixes w :: "'a nworld_scheme"
  assumes "tcp_states.keeps env" "app_contract env" "tcp_find dev srcIp hdr w = Inr s" "s \<noteq> 0" "states w s = Some t"
    and "get8 hdr 13 = Inr flags" "flags AND Syn = 0"
    and "tcp_segment env dev hdr sz srcIp w = Inr w'"
  shows "if app_closes env flags hdr s sz w then states w' s = Some FinWait1
    else case states w' s of None \<Rightarrow> FinWait1 \<le> t | Some t' \<Rightarrow> t \<le> t'"
proof -
  have run: "tcp_run (events flags (app_closes env flags hdr s sz w)) (Some t) (states w' s)" using segment_run [OF assms] by blast
  show ?thesis
  proof (cases "app_closes env flags hdr s sz w")
    case True
    have "states w' s = Some FinWait1"
      by (rule run_after_close [of "if flags AND Ack \<noteq> 0 then [RcvAck] else []" "if flags AND Fin \<noteq> 0 then [RcvFin] else []"])
        (use run True in auto)
    then show ?thesis using True by simp
  next
    case False
    then have run': "tcp_run (events flags False) (Some t) (states w' s)" using run by simp
    show ?thesis
    proof (cases "states w' s")
      case None
      then show ?thesis using run' False
        by (cases t) (auto simp: tcp_run_Cons tcp_run_Nil less_eq_TcpState_def split: if_splits)
    next
      case (Some t')
      moreover have "AppClose \<notin> set (events flags False)" by simp
      ultimately show ?thesis using tcp_run_forward [OF run'] False by simp
    qed
  qed
qed

theorem tcp_segment_forward_witness:
  "\<exists>w' t'. tcp_segment demo_env 8 (demo_segment 0x10 []) 20 0x0a000007 (demo_net Map.empty [8 \<mapsto> demo_device] empty_arp
       \<lparr>streams := [16 \<mapsto> demo_stream 0 SynReceived], all_streams := 16\<rparr>) = Inr w' \<and>
     states w' 16 = Some t' \<and> SynReceived \<le> t'"
proof -
  let ?w = "demo_net Map.empty [8 \<mapsto> demo_device] empty_arp\<lparr>streams := [16 \<mapsto> demo_stream 0 SynReceived], all_streams := 16\<rparr>"
  have k: "tcp_states.keeps demo_env" by (simp add: tcp_states.keeps_def demo_env_def)
  have a: "app_contract demo_env" by (simp add: app_contract_def demo_env_def)
  have dev: "devices ?w 8 = Some demo_device" by (simp add: demo_net_def demo_more_def kheap.defs)
  have s: "tcp_find 8 0x0a000007 (demo_segment 0x10 []) ?w = Inr 16" "states ?w 16 = Some SynReceived"
    using dev demo_segment_fields(3,4)
    by (simp_all add: tcp_find_def deref_def find_stream.simps walk_fuel_def stream_matches_def demo_stream_def
        demo_device_def states_def ntos.swap_swap)
  have fl: "(0x10 :: u8) AND Syn = 0" "(0x10 :: u8) AND Psh = 0" "(0x10 :: u8) AND Fin = 0" by (simp_all add: layout)
  obtain w' where w': "tcp_segment demo_env 8 (demo_segment 0x10 []) 20 0x0a000007 ?w = Inr w'"
    using pure_ack_returns [OF s(1) _ s(2) _ demo_segment_fields(5) fl demo_segment_fields(7,2), of 20 demo_env] by auto
  have "if app_closes demo_env 0x10 (demo_segment 0x10 []) 16 20 ?w then states w' 16 = Some FinWait1
      else case states w' 16 of None \<Rightarrow> FinWait1 \<le> SynReceived | Some t' \<Rightarrow> SynReceived \<le> t'"
    by (rule tcp_segment_forward [OF k a s(1) _ s(2) demo_segment_fields(5) fl(1) w']) simp
  moreover have "\<not> app_closes demo_env 0x10 (demo_segment 0x10 []) 16 20 ?w" using fl(2) by (simp add: app_closes_def)
  ultimately have "case states w' 16 of None \<Rightarrow> FinWait1 \<le> SynReceived | Some t' \<Rightarrow> SynReceived \<le> t'" by simp
  then show ?thesis using w' by (auto simp: less_eq_TcpState_def split: option.splits)
qed

end
