(* ===== verification/NetIn.thy ===== *)
theory NetIn
  imports TcpStates
begin

text \<open>
  Incoming frames: \<open>ethernet_packet\<close> (src/src/net/ethernet.c), \<open>ip_packet\<close> and \<open>icmp_segment\<close>
  (src/src/net/ip.c), which hand packets up to ARP, ICMP, TCP and UDP.
\<close>

unbundle bit_operations_syntax

definition sizeof_icmp_header :: nat where [layout]: "sizeof_icmp_header = 8"

text \<open>
  \<open>checksum\<close> runs over the reply before the payload is copied into it, so it sums what the buffer
  held.
\<close>

definition icmp_segment ::
  "'a nworld_scheme net_env \<Rightarrow> u32 \<Rightarrow> u64 \<Rightarrow> u8 list \<Rightarrow> u16 \<Rightarrow> 'a nworld_scheme \<Rightarrow> 'a nworld_scheme res" where
  "icmp_segment env sender dev bs len w =
     (if unat len < sizeof_icmp_header then on_con (warn (str ''ICMP packet too small'')) w
      else bind_res (get8 bs 0) (\<lambda>type.
        if type = 8 then
          bind_res (ip_sbuff_alloc len w) (\<lambda>(buf, w).
          bind_res (sbuff_add_ref buf w) (\<lambda>w.
          bind_res (get16 bs 4) (\<lambda>idn.
          bind_res (get16 bs 6) (\<lambda>sequence.
          bind_res (sbuff_fields buf [(0, replicate 8 0), (1, [0]), (0, [0]), (4, b16 idn), (6, b16 sequence), (2, b16 0)] w) (\<lambda>w.
          bind_res (sbuff_update buf (edit_head (\<lambda>h. checksum_at h (unat len) 2)) w) (\<lambda>w.
          bind_res (get_bytes bs sizeof_icmp_header (unat len - sizeof_icmp_header)) (\<lambda>pl.
          bind_res (sbuff_fields buf [(sizeof_icmp_header, pl)] w) (\<lambda>w.
          bind_res (ip_send env buf 1 sender dev w) (\<lambda>(r, w).
            sbuff_release_ref buf w)))))))))
        else Inr w))"

definition ip_register :: "u64 \<Rightarrow> 'a nworld_scheme \<Rightarrow> 'a nworld_scheme res" where
  "ip_register dev w =
     bind_res (if data (ip_devices w) = 0 then
                 bind_res (map_init w (ip_devices w) map_int_hash) (\<lambda>(m, w). Inr (w\<lparr>ip_devices := m\<rparr>))
               else Inr w) (\<lambda>w.
     bind_res (deref (devices w) dev) (\<lambda>d. map_add_kv w (ip_devices w) (dev_ip d) dev))"

text \<open>\<open>data + hdrLen\<close> past the packet is a fault of the reads that follow.\<close>

definition ip_packet ::
  "'a nworld_scheme net_env \<Rightarrow> u64 \<Rightarrow> u8 list \<Rightarrow> 'a nworld_scheme \<Rightarrow> 'a nworld_scheme res" where
  "ip_packet env dev bs w =
     bind_res (ip_register dev w) (\<lambda>w.
     bind_res (get8 bs 0) (\<lambda>b0.
     bind_res (get8 bs 9) (\<lambda>proto.
       let hdrLen = (ucast (b0 AND 0x0f) * 4 :: u16); rest = drop (unat hdrLen) bs
       in if proto = 1 then
            bind_res (get32 bs 12) (\<lambda>src. bind_res (get16 bs 2) (\<lambda>total_len.
              icmp_segment env (ntol src) dev rest (ntos total_len - hdrLen) w))
          else if proto = 2 then on_con (warn (str ''No habla igmp'' @ [10])) w
          else if proto = IPPROTO_TCP then
            bind_res (get16 bs 2) (\<lambda>total_len. bind_res (get32 bs 12) (\<lambda>src.
              tcp_segment env dev rest (ucast (ntos total_len) - ucast hdrLen) (ntol src) w))
          else if proto = 17 then bind_res (get32 bs 12) (\<lambda>src. udp_datagram env dev rest (ntol src) w)
          else bind_res (on_con (console_put_hex16 (ucast proto)) w) (on_con (warn (str ''Unsupported IP protocol''))))))"

definition ethernet_packet ::
  "'a nworld_scheme net_env \<Rightarrow> u64 \<Rightarrow> u8 list \<Rightarrow> 'a nworld_scheme \<Rightarrow> 'a nworld_scheme res" where
  "ethernet_packet env dev bs w =
     bind_res (get16 bs 12) (\<lambda>sizeOrType.
       let type = ntos sizeOrType
       in if type = 0x0800 then ip_packet env dev (drop 14 bs) w
          else if type = 0x0806 then arp_packet env dev (drop 14 bs) w
          else if type = 0x86dd then Inr w
          else
            bind_res (on_con (console_print_string (str '' Unknown or ethernet frame type: '') []) w) (\<lambda>w.
            bind_res (on_con (console_put_hex16 type) w) (\<lambda>w.
              on_con (console_print_string [10] []) w)))"

end
