(* ===== verification/Fs.thy ===== *)
theory Fs
  imports NetIn CString
begin

text \<open>
  The file system layer: the list of file systems of src/src/fs/vfs.c and the FAT32 reader of
  src/src/fs/fat32.c. The packed structs it reads from disk lie in byte memory and are read at
  their offsets; local arrays are at addresses of the caller's choice (\<open>sp\<close>). The functions
  behind a \<open>file_system\<close> are fields of \<open>fs_env\<close>; a storage device's \<open>read_sector\<close> is the
  parameter \<open>rs\<close> of the FAT32 functions (of the device, LBA, buffer and size).
\<close>

unbundle bit_operations_syntax

record fworld = nworld +
  file_systems :: list_t

type_synonym 'w sector_fn = "u64 \<Rightarrow> u64 \<Rightarrow> u64 \<Rightarrow> u64 \<Rightarrow> 'w \<Rightarrow> (int \<times> 'w) res"

record 'w fs_env =
  exists_call :: "u64 \<Rightarrow> u64 \<Rightarrow> u64 \<Rightarrow> 'w \<Rightarrow> (int \<times> 'w) res"
  slurp_call :: "u64 \<Rightarrow> u64 \<Rightarrow> u64 \<Rightarrow> u64 \<Rightarrow> u64 \<Rightarrow> 'w \<Rightarrow> (int \<times> 'w) res"

definition load16 :: "mem \<Rightarrow> u64 \<Rightarrow> u16" where
  "load16 m a = join_le (read_mem m a 2)"

subsection \<open>The list of file systems (vfs.c)\<close>

definition register_fs :: "u64 \<Rightarrow> 'a fworld_scheme \<Rightarrow> 'a fworld_scheme res" where
  "register_fs fs w =
     bind_res (list_append w (file_systems w) fs) (\<lambda>(node, l, w). Inr (w\<lparr>file_systems := l\<rparr>))"

text \<open>\<open>exists\<close> is at offset 0 and \<open>slurp\<close> at offset 8 of a \<open>file_system\<close>.\<close>

function vfs_walk :: "nat \<Rightarrow> 'a fworld_scheme fs_env \<Rightarrow> u64 \<Rightarrow> u64 \<Rightarrow> u64 \<Rightarrow> u64 \<Rightarrow> 'a fworld_scheme \<Rightarrow> (int \<times> 'a fworld_scheme) res" where
  "vfs_walk fuel env filename buf sz node w =
     (if node = 0 then Inr (ENOTFOUND, w)
      else if fuel = 0 then Inl (Fault Diverges)
      else bind_res (deref (nodes w) node) (\<lambda>n.
        let fs = payload n
        in bind_res (exists_call env (load64 (kmem w) fs) fs filename w) (\<lambda>(r, w).
           if r = EOK then slurp_call env (load64 (kmem w) (fs + 8)) fs filename buf sz w
           else bind_res (deref (nodes w) node) (\<lambda>n. vfs_walk (fuel - 1) env filename buf sz (nxt n) w))))"
  by pat_completeness auto
termination
  by (relation "measure (\<lambda>(fuel, env, filename, buf, sz, node, w). fuel)") auto

declare vfs_walk.simps [simp del]

definition vfs_read :: "'a fworld_scheme fs_env \<Rightarrow> u64 \<Rightarrow> u64 \<Rightarrow> u64 \<Rightarrow> 'a fworld_scheme \<Rightarrow> (int \<times> 'a fworld_scheme) res" where
  "vfs_read env filename buf sz w = vfs_walk walk_fuel env filename buf sz (lhead (file_systems w)) w"

subsection \<open>The structs of a FAT32 volume (fat32.c)\<close>

text \<open>
  \<open>fat_device\<close>: \<open>fs\<close> at 0, the parameter block at 16, the boot sector at 52 and \<open>store\<close> at 528.
\<close>

definition sizeof_fat_device :: u64 where [layout]: "sizeof_fat_device = 536"
definition bpb_bytesPerSector :: "mem \<Rightarrow> u64 \<Rightarrow> u16" where "bpb_bytesPerSector m self = load16 m (self + 27)"
definition bpb_sectorsPerCluster :: "mem \<Rightarrow> u64 \<Rightarrow> u8" where "bpb_sectorsPerCluster m self = m (self + 29)"
definition bpb_reservedSectors :: "mem \<Rightarrow> u64 \<Rightarrow> u16" where "bpb_reservedSectors m self = load16 m (self + 30)"
definition bpb_noFats :: "mem \<Rightarrow> u64 \<Rightarrow> u8" where "bpb_noFats m self = m (self + 32)"
definition bs_tableSize :: "mem \<Rightarrow> u64 \<Rightarrow> u32" where "bs_tableSize m self = load32 m (self + 52)"
definition bs_rootCluster :: "mem \<Rightarrow> u64 \<Rightarrow> u32" where "bs_rootCluster m self = load32 m (self + 60)"
definition bs_label :: "u64 \<Rightarrow> u64" where "bs_label self = self + 87"
definition bs_fatTypeLabel :: "u64 \<Rightarrow> u64" where "bs_fatTypeLabel self = self + 98"
definition fat_store :: "mem \<Rightarrow> u64 \<Rightarrow> u64" where "fat_store m self = load64 m (self + 528)"

text \<open>\<open>directory_entry\<close>: 32 bytes.\<close>

definition de_ext :: "u64 \<Rightarrow> u64" where "de_ext e = e + 8"
definition de_attributes :: "mem \<Rightarrow> u64 \<Rightarrow> u8" where "de_attributes m e = m (e + 11)"
definition de_clusterHigh :: "mem \<Rightarrow> u64 \<Rightarrow> u16" where "de_clusterHigh m e = load16 m (e + 20)"
definition de_clusterLow :: "mem \<Rightarrow> u64 \<Rightarrow> u16" where "de_clusterLow m e = load16 m (e + 26)"
definition de_fileSize :: "mem \<Rightarrow> u64 \<Rightarrow> u32" where "de_fileSize m e = load32 m (e + 28)"

definition lbaOfCluster :: "mem \<Rightarrow> u64 \<Rightarrow> u32 \<Rightarrow> u32" where
  "lbaOfCluster m self cluster =
     (let fatSectors = bs_tableSize m self * ucast (bpb_noFats m self);
          firstDataSector = ucast (bpb_reservedSectors m self) + fatSectors
      in firstDataSector + (cluster - 2) * ucast (bpb_sectorsPerCluster m self))"

subsection \<open>Names and directory search\<close>

text \<open>\<open>while ((*end == ' ' || *end == 0) && end >= name) *end-- = 0\<close> from \<open>name + k - 1\<close> down.\<close>

primrec trim_name :: "u64 \<Rightarrow> nat \<Rightarrow> mem \<Rightarrow> mem" where
  "trim_name name 0 m = m"
| "trim_name name (Suc k) m =
     (let e = name + of_nat k in if m e = 32 \<or> m e = 0 then trim_name name k (m(e := 0)) else m)"

text \<open>\<open>sizeof(name)\<close> is the size of a pointer, 8.\<close>

definition filenameFromDirectoryEntry :: "mem \<Rightarrow> u64 \<Rightarrow> u64 \<Rightarrow> mem" where
  "filenameFromDirectoryEntry m de name =
     (let m = bzero m name 13;
          m = strncpy m name de 8;
          dest = strnchr m name 32 8;
          dest = (if dest = 0 then name + 8 else dest);
          m = m(dest := 46);
          m = strncpy m (dest + 1) (de_ext de) 3
      in trim_name name 8 m)"

text \<open>
  The loop over the 16 entries at \<open>root\<close>, with the name buffer behind them; \<open>i\<close> is the next entry.
  As in the code the first byte of the entry is read before \<open>i\<close> is compared with 16; for \<open>i = 16\<close>
  that byte is the first one of the name buffer.
\<close>

function find_loop :: "u64 \<Rightarrow> u64 \<Rightarrow> u64 \<Rightarrow> nat \<Rightarrow> mem \<Rightarrow> int \<times> mem" where
  "find_loop root filename buf i m =
     (let e = root + 32 * of_nat i; name = root + 512
      in if m e \<noteq> 0 \<and> i < 16 then
           if m e = 0xe5 \<or> de_attributes m e = 0xf then find_loop root filename buf (Suc i) m
           else
             let m = filenameFromDirectoryEntry m e name
             in if strncmp m name filename 13 = 0 then
                  (EOK, if buf \<noteq> 0 then write_mem m buf (read_mem m e 32) else m)
                else find_loop root filename buf (Suc i) m
         else (ENOTFOUND, m))"
  by pat_completeness auto
termination
  by (relation "measure (\<lambda>(root, filename, buf, i, m). 16 - i)") auto

declare find_loop.simps [simp del]

definition fat_find :: "'a fworld_scheme sector_fn \<Rightarrow> u64 \<Rightarrow> u64 \<Rightarrow> u64 \<Rightarrow> u64 \<Rightarrow> 'a fworld_scheme \<Rightarrow> (int \<times> 'a fworld_scheme) res" where
  "fat_find rs sp dev filename buf w =
     (let lba = lbaOfCluster (kmem w) dev (bs_rootCluster (kmem w) dev)
      in bind_res (rs (fat_store (kmem w) dev) (ucast lba) sp 512 w) (\<lambda>(r, w).
         if r \<noteq> 0 then Inr (EINVALID, w)
         else let (r, m) = find_loop sp filename buf 0 (kmem w) in Inr (r, w\<lparr>kmem := m\<rparr>)))"

text \<open>The entry found is at \<open>sp\<close>, the frame of \<open>find\<close> behind it.\<close>

definition fat_slurp ::
  "'a fworld_scheme sector_fn \<Rightarrow> u64 \<Rightarrow> u64 \<Rightarrow> u64 \<Rightarrow> u64 \<Rightarrow> u64 \<Rightarrow> 'a fworld_scheme \<Rightarrow> (int \<times> 'a fworld_scheme) res" where
  "fat_slurp rs sp dev filename buf sz w =
     bind_res (fat_find rs (sp + 32) dev filename sp w) (\<lambda>(r, w).
       let m = kmem w
       in if r = EOK then
            if de_attributes m sp \<noteq> 0x20 then Inr (EINVALID, w)
            else
              let cluster = push_bit 16 (ucast (de_clusterHigh m sp)) + ucast (de_clusterLow m sp);
                  lba = lbaOfCluster m dev cluster;
                  sz = (if sz > ucast (de_fileSize m sp) then ucast (de_fileSize m sp) else sz)
              in bind_res (rs (fat_store m dev) (ucast lba) buf sz w) (\<lambda>(r, w).
                   if r = EOK then Inr (sint (ucast sz :: u32), w) else Inr (r, w))
          else Inr (r, w))"

definition fat_exists :: "'a fworld_scheme sector_fn \<Rightarrow> u64 \<Rightarrow> u64 \<Rightarrow> u64 \<Rightarrow> 'a fworld_scheme \<Rightarrow> (int \<times> 'a fworld_scheme) res" where
  "fat_exists rs sp dev filename w = fat_find rs sp dev filename 0 w"

text \<open>
  \<open>lit\<close> is the address of the literal \<open>FAT32\<close>, \<open>exists_fn\<close> and \<open>slurp_fn\<close> those of the two
  functions; the label is at \<open>sp\<close> and the root directory behind it.
\<close>

definition init_fat32 :: "'a fworld_scheme sector_fn \<Rightarrow> u64 \<Rightarrow> u64 \<Rightarrow> u64 \<Rightarrow> u64 \<Rightarrow> u64 \<Rightarrow> 'a fworld_scheme \<Rightarrow> 'a fworld_scheme res" where
  "init_fat32 rs lit exists_fn slurp_fn sp dev w =
     bind_res (kmem_alloc w sizeof_fat_device) (\<lambda>(self, w).
       let w = w\<lparr>kmem := store64 (bzero (kmem w) self sizeof_fat_device) (self + 528) dev\<rparr>
       in bind_res (rs dev 0 (self + 16) 512 w) (\<lambda>(r, w).
          if r \<noteq> EOK then
            bind_res (on_con (console_print_string (str ''Cannot read '' @ [10]) []) w) (\<lambda>w. kmem_free w self)
          else if memcmp (kmem w) (bs_fatTypeLabel self) lit 5 \<noteq> 0 then kmem_free w self
          else
            let m = (strncpy (kmem w) sp (bs_label self) 8)(sp + 8 := 0); w = w\<lparr>kmem := m\<rparr>
            in bind_res (on_con (console_print_string
                   (str ''Hello from FAT. Label: %s Sector size %d, Cluster size: %d'' @ [10])
                   [AStr (cstr m sp 9), AInt (ucast (bpb_bytesPerSector m self)), AInt (ucast (bpb_sectorsPerCluster m self))]) w) (\<lambda>w.
               bind_res (rs dev (ucast (lbaOfCluster (kmem w) self (bs_rootCluster (kmem w) self))) (sp + 16) 512 w) (\<lambda>(r, w).
                 if r \<noteq> 0 then
                   bind_res (on_con (console_print_string (str ''Could not read root dir'' @ [10]) []) w) (\<lambda>w. kmem_free w self)
                 else register_fs self (w\<lparr>kmem := store64 (store64 (kmem w) self exists_fn) (self + 8) slurp_fn\<rparr>)))))"

subsection \<open>File names as byte lists\<close>

lemma write_mem_upd:
  assumes "i < length W" "length W < 2 ^ 64"
  shows "(write_mem m a W)(a + of_nat i := v) = write_mem m a (W[i := v])"
proof
  fix x
  have i: "unat (of_nat i :: u64) = i" using assms by (intro unat_of_nat_small) simp
  show "((write_mem m a W)(a + of_nat i := v)) x = write_mem m a (W[i := v]) x"
  proof (cases "x = a + of_nat i")
    case True
    then show ?thesis using assms i by (simp add: write_mem_def)
  next
    case False
    then have "unat (x - a) \<noteq> i" using of_nat_unat_offset [of a x] by auto
    then show ?thesis using False by (simp add: write_mem_def)
  qed
qed

lemma write_mem_nth: "i < length W \<Longrightarrow> length W < 2 ^ 64 \<Longrightarrow> write_mem m a W (a + of_nat i) = W ! i"
  by (simp add: write_mem_def unat_of_nat_small)

lemma write_mem_overlay:
  assumes "i + length V \<le> length W" "length W < 2 ^ 64"
  shows "write_mem (write_mem m a W) (a + of_nat i) V = write_mem m a (overlay i V W)"
  using assms
proof (induction V arbitrary: i W)
  case Nil
  then show ?case by (simp add: overlay_def)
next
  case (Cons v V)
  have "write_mem (write_mem m a W) (a + of_nat i) (v # V) =
      write_mem ((write_mem m a W)(a + of_nat i := v)) (a + of_nat i + 1) V"
    using Cons.prems by (intro write_mem_Cons) simp
  also have "(write_mem m a W)(a + of_nat i := v) = write_mem m a (W[i := v])"
    using Cons.prems by (intro write_mem_upd) simp_all
  also have "a + of_nat i + 1 = a + of_nat (Suc i)" by simp
  also have "write_mem (write_mem m a (W[i := v])) (a + of_nat (Suc i)) V = write_mem m a (overlay (Suc i) V (W[i := v]))"
    using Cons.prems by (intro Cons.IH) simp_all
  also have "overlay (Suc i) V (W[i := v]) = overlay i (v # V) W"
    using Cons.prems by (simp add: overlay_def take_Suc_update)
  finally show ?case .
qed

lemma write_mem_twice: "length V = length W \<Longrightarrow> write_mem (write_mem m a W) a V = write_mem m a V"
  by (auto simp: write_mem_def)

primrec trim_list :: "nat \<Rightarrow> u8 list \<Rightarrow> u8 list" where
  "trim_list 0 W = W"
| "trim_list (Suc k) W = (if W ! k = 32 \<or> W ! k = 0 then trim_list k (W[k := 0]) else W)"

lemma trim_name_list:
  assumes "length W < 2 ^ 64" "k \<le> length W"
  shows "trim_name name k (write_mem m name W) = write_mem m name (trim_list k W)"
  using assms
proof (induction k arbitrary: W)
  case (Suc k)
  then have "trim_name name k (write_mem m name (W[k := 0])) = write_mem m name (trim_list k (W[k := 0]))"
    by (intro Suc.IH) simp_all
  with Suc.prems show ?case by (simp add: Let_def write_mem_nth write_mem_upd del: fun_upd_apply)
qed simp

text \<open>The bytes of the name buffer for an entry with base name \<open>b\<close> and extension \<open>e\<close>.\<close>

definition name_bytes :: "u8 list \<Rightarrow> u8 list \<Rightarrow> u8 list" where
  "name_bytes b e = trim_list 8 (overlay (Suc (length b)) e
     ((b @ replicate (8 - length b) 32 @ replicate 5 0)[length b := 46]))"

lemma cstr_full: "0 \<notin> set (read_mem m a n) \<Longrightarrow> cstr m a n = read_mem m a n"
  by (rule takeWhile_eq_all_conv [THEN iffD2]) auto

lemma scast_inject: "(scast b :: u32) = scast c \<longleftrightarrow> b = c" for b c :: u8
proof
  assume eq: "(scast b :: u32) = scast c"
  show "b = c"
  proof (rule bit_word_eqI)
    fix n assume "n < LENGTH(8)"
    then show "bit b n \<longleftrightarrow> bit c n"
      using arg_cong [OF eq, of "\<lambda>x. bit x n"] by (auto simp: bit_word_scast_iff dest: bit_imp_le_length split: if_splits)
  qed
qed simp

lemma read_mem_prefix:
  assumes "length W < 2 ^ 64" "n \<le> length W"
  shows "read_mem (write_mem m a W) a n = take n W"
  by (rule nth_equalityI) (use assms in \<open>simp_all add: write_mem_nth\<close>)

lemma filename_bytes:
  assumes de: "read_mem m de 8 = b @ replicate (8 - length b) 32" "read_mem m (de + 8) 3 = e"
    and b: "0 < length b" "length b \<le> 8" "0 \<notin> set b" "32 \<notin> set b" and e: "0 \<notin> set e"
    and sep: "unat de + 32 \<le> unat name" "unat name + 13 < 2 ^ 64"
  shows "filenameFromDirectoryEntry m de name = write_mem m name (name_bytes b e)"
proof -
  let ?bs = "b @ replicate (8 - length b) 32" and ?k = "length b"
  let ?W = "?bs @ replicate 5 0"
  have e3: "length e = 3" using de(2) by (metis length_read_mem)
  have uname: "unat (name + of_nat j) = unat name + j" if "j \<le> 13" for j
    using that sep(2) by (simp add: unat_plus_if' unat_of_nat_small)
  have ude: "unat (de + 8) = unat de + 8" using sep by (simp add: unat_plus_if')
  have s1: "separate name 8 de 8" by (subst separate_sym, rule separateI_less) (use sep in simp_all)
  have s2: "separate (name + of_nat (Suc ?k)) 3 (de + 8) 3"
    by (subst separate_sym, rule separateI_less) (use sep b(2) uname [of "Suc ?k"] ude in simp_all)
  have rd: "read_mem (write_mem m name W) de 8 = ?bs" "read_mem (write_mem m name W) (de + 8) 3 = e" if "length W = 13" for W
    using read_write_separate [of de 8 name W m] read_write_separate [of "de + 8" 3 name W m] that sep ude de
    by (simp_all add: separateI_less)
  have "bzero m name 13 = write_mem m name (replicate 13 0)" by (simp add: bzero_eq)
  moreover have "strncpy (write_mem m name (replicate 13 0)) name de 8 = write_mem m name ?W"
  proof -
    have c: "cstr (write_mem m name (replicate 13 0)) de 8 = ?bs"
      using cstr_full [of "write_mem m name (replicate 13 0)" de 8] rd(1) [of "replicate 13 0"] b(3) by auto
    have "strncpy (write_mem m name (replicate 13 0)) name de 8 = write_mem (write_mem m name (replicate 13 0)) name ?bs"
      using strncpy_eq [of name 8 de "write_mem m name (replicate 13 0)"] s1 b(2) by (simp add: c)
    also have "\<dots> = write_mem m name (overlay 0 ?bs (replicate 13 0))"
      using write_mem_overlay [of 0 ?bs "replicate 13 0" m name] b(2) by simp
    finally show ?thesis using b(2) by (simp add: overlay_def)
  qed
  moreover have "(if strnchr (write_mem m name ?W) name 32 8 = 0 then name + 8 else strnchr (write_mem m name ?W) name 32 8) =
      name + of_nat ?k"
  proof -
    have "read_mem (write_mem m name ?W) name 8 = ?bs" using read_mem_prefix [of ?W 8 m name] b(2) by simp
    then have c: "cstr (write_mem m name ?W) name 8 = ?bs" using cstr_full [of "write_mem m name ?W" name 8] b(3) by auto
    have "(scast x :: u32) \<noteq> 32 \<longleftrightarrow> x \<noteq> 32" for x :: u8 using scast_inject [of x 32] by simp
    then have tw: "takeWhile (\<lambda>x. (scast x :: u32) \<noteq> 32) ?bs = b"
      using b(4) by (cases "8 - length b") (auto simp: takeWhile_append takeWhile_eq_all_conv)
    have u8: "unat (8 :: u64) = 8" by simp
    have "strnchr (write_mem m name ?W) name 32 8 = (if b = ?bs then 0 else name + of_nat ?k)"
      unfolding strnchr_eq u8 c tw Let_def ..
    moreover have "name + of_nat ?k \<noteq> 0" using uname [of ?k] b by auto
    moreover have "b = ?bs \<longleftrightarrow> ?k = 8" using b(2) by auto
    ultimately show ?thesis by auto
  qed
  moreover have "(write_mem m name ?W)(name + of_nat ?k := 46) = write_mem m name (?W[?k := 46])"
    using b(2) by (intro write_mem_upd) simp_all
  moreover have "strncpy (write_mem m name (?W[?k := 46])) (name + of_nat ?k + 1) (de + 8) 3 =
      write_mem m name (overlay (Suc ?k) e (?W[?k := 46]))"
  proof -
    have "cstr (write_mem m name (?W[?k := 46])) (de + 8) 3 = e"
      using cstr_full [of "write_mem m name (?W[?k := 46])" "de + 8" 3] rd(2) [of "?W[?k := 46]"] b(2) e by auto
    then have "strncpy (write_mem m name (?W[?k := 46])) (name + of_nat (Suc ?k)) (de + 8) 3 =
        write_mem (write_mem m name (?W[?k := 46])) (name + of_nat (Suc ?k)) e"
      using strncpy_eq [of "name + of_nat (Suc ?k)" 3 "de + 8" "write_mem m name (?W[?k := 46])"] s2 e3 by simp
    also have "\<dots> = write_mem m name (overlay (Suc ?k) e (?W[?k := 46]))"
      using b(2) e3 by (intro write_mem_overlay) simp_all
    finally show ?thesis by (simp add: ac_simps)
  qed
  moreover have "trim_name name 8 (write_mem m name (overlay (Suc ?k) e (?W[?k := 46]))) = write_mem m name (name_bytes b e)"
    unfolding name_bytes_def append_assoc using b(2) e3 by (intro trim_name_list) (simp_all add: length_overlay)
  ultimately show ?thesis
    unfolding filenameFromDirectoryEntry_def Let_def de_ext_def by (simp only:)
qed

lemma trim_stop:
  assumes "8 \<le> length xs" "32 \<notin> set xs" "0 \<notin> set xs"
  shows "trim_list 8 (xs @ ys) = xs @ ys"
proof -
  have "xs ! 7 \<in> set xs" using assms(1) by (intro nth_mem) simp
  then have "xs ! 7 \<noteq> 32" "xs ! 7 \<noteq> 0" using assms(2,3) by auto
  moreover have "trim_list (Suc 7) (xs @ ys) = (if (xs @ ys) ! 7 = 32 \<or> (xs @ ys) ! 7 = 0 then trim_list 7 ((xs @ ys)[7 := 0]) else xs @ ys)"
    by (rule trim_list.simps)
  ultimately show ?thesis using assms(1) by (simp add: nth_append)
qed

lemma trim_blanks:
  assumes "xs \<noteq> []" "32 \<notin> set xs" "0 \<notin> set xs"
  shows "trim_list (length xs + n) (xs @ replicate n 32 @ zs) = xs @ replicate n 0 @ zs"
proof (induction n arbitrary: zs)
  case 0
  obtain ys y where xs: "xs = ys @ [y]" using assms(1) by (metis rev_exhaust)
  with assms show ?case by (simp add: nth_append)
next
  case (Suc n)
  have "xs @ replicate (Suc n) 32 @ zs = xs @ replicate n 32 @ 32 # zs" by (simp add: replicate_app_Cons_same)
  moreover have "trim_list (length xs + Suc n) (xs @ replicate n 32 @ 32 # zs) = trim_list (length xs + n) (xs @ replicate n 32 @ 0 # zs)"
    by (simp add: nth_append list_update_append)
  ultimately show ?case using Suc.IH [of "0 # zs"] by (simp add: replicate_app_Cons_same)
qed

lemma name_bytes_eq:
  assumes "length b \<le> 8" "length e = 3"
  shows "name_bytes b e = trim_list 8 ((b @ [46] @ e) @ replicate (4 - length b) 32 @ replicate (min 5 (9 - length b)) 0)"
proof -
  let ?W = "b @ replicate (8 - length b) 32 @ replicate 5 0"
  have "take (Suc (length b)) (?W[length b := 46]) = b @ [46]" by (simp add: take_Suc_update)
  moreover have "drop (Suc (length b) + 3) (?W[length b := 46]) = drop (length b + 4) ?W" by simp
  moreover have "drop (length b + 4) ?W = replicate (4 - length b) 32 @ replicate (min 5 (9 - length b)) 0"
    using assms(1) by (auto simp: min_def)
  ultimately show ?thesis using assms(2) unfolding name_bytes_def overlay_def by (simp only: append_assoc)
qed

lemma name_bytes_full:
  assumes "length b \<le> 8" "0 \<notin> set b" "32 \<notin> set b" "length e = 3" "0 \<notin> set e" "32 \<notin> set e"
  shows "name_bytes b e = b @ [46] @ e @ replicate (9 - length b) 0"
proof -
  let ?xs = "b @ [46] @ e"
  have x: "32 \<notin> set ?xs" "0 \<notin> set ?xs" "?xs \<noteq> []" using assms by auto
  note eq = name_bytes_eq [OF assms(1,4)]
  show ?thesis
  proof (cases "4 \<le> length b")
    case True
    then have "8 \<le> length ?xs" "4 - length b = 0" "min 5 (9 - length b) = 9 - length b" using assms(4) by auto
    then show ?thesis using eq trim_stop [OF _ x(1,2)] by simp
  next
    case False
    then have n: "8 = length ?xs + (4 - length b)" "min 5 (9 - length b) = 5" "9 - length b = (4 - length b) + 5"
      using assms(4) by auto
    have "trim_list 8 (?xs @ replicate (4 - length b) 32 @ replicate 5 0) = ?xs @ replicate (4 - length b) 0 @ replicate 5 0"
      using trim_blanks [OF x(3,1,2), of "4 - length b" "replicate 5 0"] n(1) by metis
    then show ?thesis unfolding eq n(2) by (simp only: n(3) replicate_add append_assoc)
  qed
qed

lemma name_bytes_blank:
  assumes "length b = 8" "0 \<notin> set b" "32 \<notin> set b"
  shows "name_bytes b [32, 32, 32] = b @ [46, 32, 32, 32, 0]"
  using name_bytes_eq [of b "[32, 32, 32]"] trim_stop [of b "[46, 32, 32, 32, 0]"] assms by simp

subsection \<open>Properties\<close>

text \<open>
  The name built for a directory entry is the base name, a dot and the extension when the
  extension has three characters, for every length of the base name; with a blank extension
  and a base name of eight characters the three blanks stay, so such a file is never found
  by its name.
\<close>

theorem fat_filename:
  assumes de: "read_mem m de 8 = b @ replicate (8 - length b) 32" "read_mem m (de + 8) 3 = e"
    and b: "0 < length b" "length b \<le> 8" "0 \<notin> set b" "32 \<notin> set b" and e: "0 \<notin> set e"
    and sep: "unat de + 32 \<le> unat name" "unat name + 13 < 2 ^ 64"
  shows "(32 \<notin> set e \<longrightarrow> cstr (filenameFromDirectoryEntry m de name) name 13 = b @ [46] @ e) \<and>
    (length b = 8 \<and> e = [32, 32, 32] \<longrightarrow>
      cstr (filenameFromDirectoryEntry m de name) name 13 = b @ [46, 32, 32, 32])"
proof -
  have e3: "length e = 3" using de(2) by (metis length_read_mem)
  have cs: "cstr (filenameFromDirectoryEntry m de name) name 13 = takeWhile (\<lambda>x. x \<noteq> 0) W"
    if "name_bytes b e = W" "length W = 13" for W
    using filename_bytes [OF assms] read_mem_prefix [of W 13 m name] that by simp
  show ?thesis
  proof (intro conjI impI)
    assume "32 \<notin> set e"
    then have "name_bytes b e = b @ [46] @ e @ replicate (9 - length b) 0"
      using name_bytes_full b e3 e by blast
    from cs [OF this] show "cstr (filenameFromDirectoryEntry m de name) name 13 = b @ [46] @ e"
      using b e e3 by (cases "9 - length b") (auto simp: takeWhile_append takeWhile_eq_all_conv)
  next
    assume "length b = 8 \<and> e = [32, 32, 32]"
    then show "cstr (filenameFromDirectoryEntry m de name) name 13 = b @ [46, 32, 32, 32]"
      using cs [of "b @ [46, 32, 32, 32, 0]"] name_bytes_blank [of b] b by (auto simp: takeWhile_append)
  qed
qed

definition demo_dir :: mem where
  "demo_dir = write_mem (\<lambda>_. 0) 4096 (str ''MOD     TXT'')"

theorem fat_filename_witness:
  "cstr (filenameFromDirectoryEntry demo_dir 4096 8192) 8192 13 = str ''MOD.TXT''"
proof -
  have l: "length (str ''MOD     TXT'') = 11" by (simp add: str_def)
  have "read_mem demo_dir 4096 8 = take 8 (str ''MOD     TXT'')"
    unfolding demo_dir_def by (rule read_mem_prefix) (use l in simp_all)
  then have 1: "read_mem demo_dir 4096 8 = str ''MOD'' @ replicate (8 - length (str ''MOD'')) 32"
    by (simp add: str_def numeral_eq_Suc)
  have "read_mem demo_dir 4096 (8 + 3) = read_mem demo_dir 4096 8 @ read_mem demo_dir (4096 + of_nat 8) 3"
    by (rule read_mem_add)
  moreover have "read_mem demo_dir 4096 11 = str ''MOD     TXT''"
    using read_mem_prefix [of "str ''MOD     TXT''" 11 "\<lambda>_. 0" 4096] l unfolding demo_dir_def by simp
  ultimately have 2: "read_mem demo_dir (4096 + 8) 3 = str ''TXT''"
    using 1 by (simp add: str_def numeral_eq_Suc)
  have "32 \<notin> set (str ''TXT'')" by (simp add: str_def)
  with fat_filename [OF 1 2, of 8192] show ?thesis by (simp add: str_def)
qed

end
