(* ===== verification/Clock.thy ===== *)
theory Clock
  imports Fs
begin

text \<open>
  The real-time clock of src/src/rtc.c and the clock display of src/src/service/clock.c. The CMOS
  is a parameter: \<open>hw n r\<close> is what the \<open>n\<close>-th read of register \<open>r\<close> returns, and a count of the
  reads done is passed along. The two loops that wait for the hardware take fuel.
\<close>

unbundle bit_operations_syntax

record cworld = fworld +
  rtc_time :: u32
  shown_time :: u32

subsection \<open>Reading the clock (rtc.c)\<close>

type_synonym cmos = "nat \<Rightarrow> u8 \<Rightarrow> u8"

definition gettime :: "'a cworld_scheme \<Rightarrow> u32" where
  "gettime w = rtc_time w"

definition is_update_in_progress :: "cmos \<Rightarrow> nat \<Rightarrow> bool \<times> nat" where
  "is_update_in_progress hw n = (hw n 0x0a AND 0x80 \<noteq> 0, n + 1)"

definition get_cmos_reg :: "cmos \<Rightarrow> u8 \<Rightarrow> nat \<Rightarrow> u8 \<times> nat" where
  "get_cmos_reg hw reg n = (hw n reg, n + 1)"

text \<open>\<open>char\<close> is signed, and division truncates.\<close>

definition from_bcd :: "u8 \<Rightarrow> u8" where
  "from_bcd x = word_of_int (uint (x AND 0xf) + (sint x sdiv 16) * 10)"

fun wait_for_update :: "cmos \<Rightarrow> nat \<Rightarrow> nat \<Rightarrow> nat res" where
  "wait_for_update hw 0 n = Inl (Fault Diverges)"
| "wait_for_update hw (Suc fuel) n =
     (let (busy, n) = is_update_in_progress hw n in if busy then wait_for_update hw fuel n else Inr n)"

definition read_rtc_internal :: "cmos \<Rightarrow> nat \<Rightarrow> nat \<Rightarrow> (u32 \<times> nat) res" where
  "read_rtc_internal hw fuel n =
     bind_res (wait_for_update hw fuel n) (\<lambda>n.
       let (second, n) = get_cmos_reg hw 0x00 n;
           (minute, n) = get_cmos_reg hw 0x02 n;
           (hour, n) = get_cmos_reg hw 0x04 n;
           (day, n) = get_cmos_reg hw 0x07 n;
           (month, n) = get_cmos_reg hw 0x08 n;
           (year, n) = get_cmos_reg hw 0x09 n;
           (regB, n) = get_cmos_reg hw 0x0b n;
           bcd = (regB AND 0x04 = 0);
           second = (if bcd then from_bcd second else second);
           minute = (if bcd then from_bcd minute else minute);
           hour = (if bcd then from_bcd hour else hour);
           hour = (if regB AND 0x02 = 0 \<and> hour AND 0x80 \<noteq> 0 then 0 else hour)
       in Inr (word_of_int ((sint hour * 60 + sint minute) * 60 + sint second), n))"

text \<open>\<open>do ... while (a != b)\<close>; \<open>tries\<close> bounds the repetitions.\<close>

fun read_rtc_loop :: "cmos \<Rightarrow> nat \<Rightarrow> nat \<Rightarrow> nat \<Rightarrow> (u32 \<times> nat) res" where
  "read_rtc_loop hw fuel 0 n = Inl (Fault Diverges)"
| "read_rtc_loop hw fuel (Suc tries) n =
     bind_res (read_rtc_internal hw fuel n) (\<lambda>(a, n).
     bind_res (read_rtc_internal hw fuel n) (\<lambda>(b, n).
       if a \<noteq> b then read_rtc_loop hw fuel tries n else Inr (a, n)))"

definition read_rtc :: "cmos \<Rightarrow> nat \<Rightarrow> nat \<Rightarrow> nat \<Rightarrow> 'a cworld_scheme \<Rightarrow> (u32 \<times> nat \<times> 'a cworld_scheme) res" where
  "read_rtc hw fuel tries n w =
     bind_res (read_rtc_loop hw fuel tries n) (\<lambda>(a, n). Inr (a, n, w\<lparr>rtc_time := a\<rparr>))"

subsection \<open>Showing it (service/clock.c)\<close>

text \<open>The stores \<open>clock[2 * i]\<close> into video memory at offset \<open>2 * (80 - 8)\<close>.\<close>

fun poke_clock :: "nat \<Rightarrow> u8 list \<Rightarrow> u8 list \<Rightarrow> u8 list" where
  "poke_clock i [] v = v"
| "poke_clock i (c # cs) v = poke_clock (i + 2) cs (v[144 + i := c])"

definition digit :: "u32 \<Rightarrow> u8" where
  "digit d = ucast (d + 48)"

definition clock_chars :: "u32 \<Rightarrow> u8 list" where
  "clock_chars t =
     (let hr = t div 3600; mn = t div 60 mod 60; sec = t mod 60
      in [digit (hr div 10), digit (hr mod 10), 58, digit (mn div 10), digit (mn mod 10), 58,
          digit (sec div 10), digit (sec mod 10)])"

definition update_clock :: "'a cworld_scheme \<Rightarrow> 'a cworld_scheme" where
  "update_clock w =
     (let now = gettime w
      in if shown_time w \<noteq> now
         then w\<lparr>shown_time := now, con := (con w)\<lparr>video := poke_clock 0 (clock_chars now) (video (con w))\<rparr>\<rparr>
         else w)"

definition timer_irq :: "cmos \<Rightarrow> nat \<Rightarrow> nat \<Rightarrow> nat \<Rightarrow> u64 \<Rightarrow> 'a cworld_scheme \<Rightarrow> (nat \<times> 'a cworld_scheme) res" where
  "timer_irq hw fuel tries n update_task w =
     bind_res (read_rtc hw fuel tries n w) (\<lambda>(a, n, w).
     bind_res (task_enqueue w update_task) (\<lambda>w. Inr (n, w)))"

definition user_task :: "'a cworld_scheme \<Rightarrow> 'a cworld_scheme" where
  "user_task w = update_clock w"

definition init_clock :: "u64 \<Rightarrow> u64 \<Rightarrow> u64 \<Rightarrow> 'a cworld_scheme \<Rightarrow> 'a cworld_scheme res" where
  "init_clock user_task_fn update_clock_fn irq_fn w =
     bind_res (task_alloc w user_task_fn update_clock_fn) (\<lambda>(t, w).
     bind_res (add_ref w t) (\<lambda>w. Inr (register_interrupt_handler 32 irq_fn t w)))"

subsection \<open>Binary-coded decimals\<close>

text \<open>The byte with the decimal digits of \<open>n\<close> in its two halves.\<close>

definition bcd :: "nat \<Rightarrow> u8" where
  "bcd n = of_nat (16 * (n div 10) + n mod 10)"

lemma sint_of_nat8: "n < 128 \<Longrightarrow> sint (of_nat n :: u8) = int n"
  by (simp add: signed_of_nat signed_take_bit_int_eq_self)

lemma and_low4: "uint (x AND 0xf) = uint x mod 16" for x :: u8
proof -
  have "(0xf :: u8) = mask 4" by (simp add: mask_eq_exp_minus_1)
  then have "x AND 0xf = take_bit 4 x" by (simp add: take_bit_eq_mask)
  then have "uint (x AND 0xf) = take_bit 4 (uint x)" by (simp only: unsigned_take_bit_eq)
  then show ?thesis by (simp add: take_bit_eq_mod)
qed

lemma from_bcd_bcd:
  assumes "n < 80"
  shows "from_bcd (bcd n) = of_nat n"
proof -
  let ?k = "16 * (n div 10) + n mod 10"
  have k: "?k < 128" using assms mod_less_divisor [of 10 n] less_mult_imp_div_less [of n 8 10] by linarith
  have u: "uint (bcd n) = int ?k" "sint (bcd n) = int ?k"
    using k unat_of_nat_small [of ?k, where 'a = 8] sint_of_nat8 [OF k]
    unfolding bcd_def uint_nat by simp_all
  have q: "(16 * a + b) mod 16 = b" "(16 * a + b) div 16 = a" if "b < 16" for a b :: nat using that by simp_all
  have "n mod 10 < 16" using mod_less_divisor [of 10 n] by linarith
  note q = q [OF this]
  have "int ?k mod 16 = int (n mod 10)" "int ?k sdiv 16 = int (n div 10)"
    using arg_cong [OF q(1), of int] arg_cong [OF q(2), of int] by (simp_all only: zmod_int zdiv_int sdiv_nonneg of_nat_0_le_iff of_nat_numeral zero_le_numeral)
  then have "from_bcd (bcd n) = word_of_int (int (n mod 10) + int (n div 10) * 10)"
    unfolding from_bcd_def and_low4 u by simp
  also have "int (n mod 10) + int (n div 10) * 10 = int n"
    using mult_div_mod_eq [of 10 n] by linarith
  finally show ?thesis by simp
qed

lemma of_nat_div_word:
  assumes "a < 2 ^ LENGTH('w)" "b < 2 ^ LENGTH('w)"
  shows "(of_nat a :: 'w::len word) div of_nat b = of_nat (a div b)" "(of_nat a :: 'w word) mod of_nat b = of_nat (a mod b)"
proof -
  have "a div b < 2 ^ LENGTH('w)" "a mod b < 2 ^ LENGTH('w)"
    using assms(1) div_le_dividend [of a b] mod_less_eq_dividend [of a b] by linarith+
  then show "(of_nat a :: 'w::len word) div of_nat b = of_nat (a div b)" "(of_nat a :: 'w word) mod of_nat b = of_nat (a mod b)"
    using assms by (simp_all add: word_unat_eq_iff unat_div_distrib unat_mod_distrib unat_of_nat_small)
qed

lemma digit_of_nat: "digit (of_nat d) = of_nat (d + 48)" if "d < 10"
  using that by (simp add: digit_def word_unat_eq_iff unsigned_ucast_eq unat_of_nat_small unat_plus_if' take_bit_nat_eq_self)

lemma clock_chars_eq:
  assumes "h < 24" "m < 60" "s < 60"
  shows "clock_chars (of_nat ((h * 60 + m) * 60 + s)) =
    map (\<lambda>d. of_nat (d + 48)) [h div 10, h mod 10] @ [58] @ map (\<lambda>d. of_nat (d + 48)) [m div 10, m mod 10] @ [58] @
    map (\<lambda>d. of_nat (d + 48)) [s div 10, s mod 10]"
proof -
  let ?t = "(h * 60 + m) * 60 + s"
  have t: "?t < 2 ^ 32" using assms by simp
  have q: "(x * 60 + y) div 60 = x" "(x * 60 + y) mod 60 = y" if "y < 60" for x y :: nat using that by simp_all
  have "?t div 60 = h * 60 + m" "?t mod 60 = s" "(h * 60 + m) div 60 = h" "(h * 60 + m) mod 60 = m"
    by (rule q [OF assms(3)], rule q [OF assms(3)], rule q [OF assms(2)], rule q [OF assms(2)])
  moreover from this have "?t div 3600 = h" using div_mult2_eq [of ?t 60 60] by simp
  ultimately have w: "(of_nat ?t :: u32) div 3600 = of_nat h" "(of_nat ?t :: u32) div 60 mod 60 = of_nat m" "(of_nat ?t :: u32) mod 60 = of_nat s"
    using of_nat_div_word [of ?t 3600, where 'w = 32] of_nat_div_word [of ?t 60, where 'w = 32]
      of_nat_div_word [of "h * 60 + m" 60, where 'w = 32] t assms by simp_all
  have d: "(of_nat x :: u32) div 10 = of_nat (x div 10)" "(of_nat x :: u32) mod 10 = of_nat (x mod 10)" if "x < 60" for x
    using of_nat_div_word [of x 10, where 'w = 32] that by simp_all
  show ?thesis
    unfolding clock_chars_def Let_def w using assms by (simp add: d digit_of_nat del: of_nat_add)
qed

subsection \<open>Properties\<close>

lemma and_high_bit: "n < 128 \<Longrightarrow> (of_nat n :: u8) AND 0x80 = 0"
proof -
  assume n: "n < 128"
  have "\<not> bit n 7" using n by (simp add: bit_iff_odd)
  then have "\<not> bit (unat (of_nat n :: u8)) 7" using n by (simp add: unat_of_nat_small)
  then have "\<not> bit (of_nat n :: u8) 7" by (simp add: bit_unsigned_iff)
  moreover have "(0x80 :: u8) = 2 ^ 7" by simp
  ultimately show ?thesis by (metis and_exp_eq_0_iff_not_bit)
qed

lemma pm_hour_negative:
  assumes "1 \<le> h" "h \<le> 12"
  shows "from_bcd (bcd h + 0x80) AND 0x80 \<noteq> 0"
proof -
  have "h = 1 \<or> h = 2 \<or> h = 3 \<or> h = 4 \<or> h = 5 \<or> h = 6 \<or> h = 7 \<or> h = 8 \<or> h = 9 \<or> h = 10 \<or> h = 11 \<or> h = 12"
    using assms by arith
  then show ?thesis by (elim disjE) (simp_all add: bcd_def from_bcd_def signed_divide_int_def)
qed

text \<open>The time of day the registers denote to the code: hours after noon in 12-hour mode count as 0.\<close>

definition cmos_regs :: "(u8 \<Rightarrow> u8) \<Rightarrow> bool \<Rightarrow> nat \<Rightarrow> nat \<Rightarrow> nat \<Rightarrow> bool" where
  "cmos_regs reg pm h m s \<longleftrightarrow> reg 0x0a AND 0x80 = 0 \<and> reg 0x0b AND 0x04 = 0 \<and> reg 0 = bcd s \<and> reg 2 = bcd m \<and> m < 60 \<and> s < 60 \<and>
     (if pm then reg 0x0b AND 0x02 = 0 \<and> reg 4 = bcd h + 0x80 \<and> 1 \<le> h \<and> h \<le> 12 else reg 4 = bcd h \<and> h < 24)"

lemma read_internal_eq:
  assumes "cmos_regs reg pm h m s" "0 < fuel"
  shows "read_rtc_internal (\<lambda>_. reg) fuel n = Inr (of_nat (((if pm then 0 else h) * 60 + m) * 60 + s), n + 8)"
proof -
  obtain f where f: "fuel = Suc f" using assms(2) by (cases fuel) auto
  let ?h = "if pm then from_bcd (bcd h + 0x80) else of_nat h"
  let ?H = "if reg 0x0b AND 0x02 = 0 \<and> ?h AND 0x80 \<noteq> 0 then 0 else ?h :: u8"
  have r: "from_bcd (reg 0) = of_nat s" "from_bcd (reg 2) = of_nat m" "from_bcd (reg 4) = ?h"
    using assms(1) from_bcd_bcd [of s] from_bcd_bcd [of m] from_bcd_bcd [of h] by (auto simp: cmos_regs_def split: if_splits)
  have "?H = of_nat (if pm then 0 else h)"
    using assms(1) pm_hour_negative [of h] and_high_bit [of h] by (auto simp: cmos_regs_def split: if_splits)
  then have "sint ?H = int (if pm then 0 else h)" using assms(1) sint_of_nat8 [of "if pm then 0 else h"]
    by (simp only:) (auto simp: cmos_regs_def split: if_splits)
  moreover have "sint (of_nat s :: u8) = int s" "sint (of_nat m :: u8) = int m"
    using assms(1) by (simp_all add: cmos_regs_def sint_of_nat8)
  ultimately have "(sint ?H * 60 + sint (of_nat m :: u8)) * 60 + sint (of_nat s :: u8) = int (((if pm then 0 else h) * 60 + m) * 60 + s)"
    by simp
  moreover have regs: "reg 0x0a AND 0x80 = 0" "reg 0x0b AND 0x04 = 0" using assms(1) by (simp_all add: cmos_regs_def)
  have "read_rtc_internal (\<lambda>_. reg) fuel n =
      Inr (word_of_int ((sint ?H * 60 + sint (of_nat m :: u8)) * 60 + sint (of_nat s :: u8)), n + 8)"
    unfolding f read_rtc_internal_def Let_def wait_for_update.simps is_update_in_progress_def get_cmos_reg_def
    by (simp add: regs r)
  ultimately show ?thesis by (simp only: of_int_of_nat_eq)
qed

lemma poke_clock_shows:
  assumes "length v = 4000" "length cs = 8"
  shows "map (\<lambda>i. poke_clock 0 cs v ! (144 + 2 * i)) [0..<8] = cs"
proof -
  obtain a b c d e f g h where "cs = [a, b, c, d, e, f, g, h]"
    using assms(2) by (auto simp: length_Suc_conv numeral_eq_Suc)
  then show ?thesis using assms(1) by (simp add: upt_rec nth_list_update)
qed

text \<open>
  C36. A timer interrupt reads the clock and the screen then shows it: with the registers in BCD and
  stable, the top right corner shows the hours, minutes and seconds in two digits each. Hours
  after noon in 12-hour mode are shown as 00, and the hour 12 of the morning as 12.
\<close>

theorem clock_shows_rtc:
  fixes w :: "'a cworld_scheme"
  assumes regs: "cmos_regs reg pm h m s" and fuel: "0 < fuel" "0 < tries"
    and scr: "length (video (con w)) = 4000" and new: "shown_time w \<noteq> of_nat (((if pm then 0 else h) * 60 + m) * 60 + s)"
  shows "\<exists>w'. read_rtc (\<lambda>_. reg) fuel tries n w = Inr (of_nat (((if pm then 0 else h) * 60 + m) * 60 + s), n + 16, w') \<and>
    map (\<lambda>i. video (con (user_task w')) ! (144 + 2 * i)) [0..<8] =
      (let digits = (\<lambda>x. [of_nat (x div 10 + 48), of_nat (x mod 10 + 48)])
       in digits (if pm then 0 else h) @ [58] @ digits m @ [58] @ digits s)"
proof -
  let ?H = "if pm then 0 else h" let ?t = "of_nat ((?H * 60 + m) * 60 + s) :: u32"
  have b: "?H < 24" "m < 60" "s < 60" using regs by (auto simp: cmos_regs_def split: if_splits)
  obtain t' where t': "tries = Suc t'" using fuel(2) by (cases tries) auto
  have "read_rtc (\<lambda>_. reg) fuel tries n w = Inr (?t, n + 16, w\<lparr>rtc_time := ?t\<rparr>)"
    using read_internal_eq [OF regs fuel(1)] unfolding t' read_rtc_def read_rtc_loop.simps by (simp del: of_nat_add of_nat_mult)
  moreover have "video (con (user_task (w\<lparr>rtc_time := ?t\<rparr>))) = poke_clock 0 (clock_chars ?t) (video (con w))"
    using new by (simp add: user_task_def update_clock_def gettime_def Let_def del: of_nat_add of_nat_mult)
  moreover have "map (\<lambda>i. poke_clock 0 (clock_chars ?t) (video (con w)) ! (144 + 2 * i)) [0..<8] = clock_chars ?t"
    using scr by (rule poke_clock_shows) (simp add: clock_chars_def Let_def)
  ultimately show ?thesis using clock_chars_eq [OF b] by (simp del: of_nat_add of_nat_mult)
qed

definition demo_clock :: cworld where
  "demo_clock = nworld.extend (demo_net Map.empty Map.empty empty_arp) \<lparr>file_systems = list_create, rtc_time = 0, shown_time = 0\<rparr>"

theorem clock_shows_rtc_witness:
  "\<exists>w'. read_rtc (\<lambda>_ r. if r = 0 then 0x59 else if r = 2 then 0x07 else if r = 4 then 0x23 else if r = 0x0b then 0x02 else 0) 1 1 0 demo_clock
       = Inr (83279, 16, w') \<and>
     map (\<lambda>i. video (con (user_task w')) ! (144 + 2 * i)) [0..<8] = str ''23:07:59''"
proof -
  let ?r = "\<lambda>r :: u8. if r = 0 then 0x59 else if r = 2 then 0x07 else if r = 4 then 0x23 else if r = 0x0b then 0x02 else (0 :: u8)"
  have "cmos_regs ?r False 23 7 59" by (simp add: cmos_regs_def bcd_def)
  moreover have "length (video (con demo_clock)) = 4000" "shown_time demo_clock = 0"
    by (simp_all add: demo_clock_def nworld.defs demo_net_def demo_more_def kheap.defs console_boot_def)
  ultimately show ?thesis
    using clock_shows_rtc [of ?r False 23 7 59 1 1 demo_clock 0] by (simp add: str_def)
qed

end
