(* ===== verification/Pci.thy ===== *)
theory Pci
  imports Clock
begin

text \<open>
  PCI enumeration of src/src/pci.c. Configuration space is a parameter: \<open>cfg a\<close> is what reading
  port 0xcfc returns after \<open>a\<close> was written to 0xcf8.
\<close>

unbundle bit_operations_syntax

definition pci_address :: "u8 \<Rightarrow> u8 \<Rightarrow> u8 \<Rightarrow> u8 \<Rightarrow> u32" where
  "pci_address bus slot func off =
     push_bit 16 (ucast bus) OR push_bit 11 (ucast slot) OR push_bit 8 (ucast func) OR push_bit 31 1 OR (ucast off AND 0xfc)"

definition readPciConfig :: "(u32 \<Rightarrow> u32) \<Rightarrow> u8 \<Rightarrow> u8 \<Rightarrow> u8 \<Rightarrow> u8 \<Rightarrow> u32" where
  "readPciConfig cfg bus slot func off = cfg (pci_address bus slot func off)"

definition config_word :: "(u32 \<Rightarrow> u32) \<Rightarrow> u8 \<Rightarrow> u8 \<Rightarrow> console \<Rightarrow> console res" where
  "config_word cfg slot off c =
     bind_res (console_print_string (str '' '') [] c) (console_put_hex (readPciConfig cfg 0 slot 0 off))"

definition print_device :: "(u32 \<Rightarrow> u32) \<Rightarrow> u32 \<Rightarrow> u8 \<Rightarrow> u8 \<Rightarrow> console \<Rightarrow> console res" where
  "print_device cfg vendev slot f c =
     bind_res (console_print_string (str ''%d.%d: '') [AInt (ucast slot), AInt (ucast f)] c) (\<lambda>c.
     bind_res (console_put_hex16 (ucast (vendev AND 0xffff)) c) (\<lambda>c.
     bind_res (console_print_string (str '':'') [] c) (\<lambda>c.
     bind_res (console_put_hex16 (ucast (drop_bit 16 vendev)) c) (\<lambda>c.
     bind_res (console_print_string (str '' '') [] c) (\<lambda>c.
     bind_res (console_put_hex8 (ucast (drop_bit 16 (readPciConfig cfg 0 slot f 0xc))) c) (\<lambda>c.
     bind_res (console_print_string (str '' '') [] c) (\<lambda>c.
     bind_res (console_put_hex (readPciConfig cfg 0 slot f 0x10) c) (\<lambda>c.
     bind_res (console_print_string (str '' '') [] c) (\<lambda>c.
     bind_res (console_put_hex (readPciConfig cfg 0 slot f 0x14) c) (\<lambda>c.
     bind_res (console_print_string (str '' '') [] c) (\<lambda>c.
     bind_res (console_print_string (str ''%x '') [AInt (readPciConfig cfg 0 slot f 0x4)] c) (\<lambda>c.
       let intr = (ucast (readPciConfig cfg 0 slot f 0x3c) :: u8)
       in bind_res (if intr \<noteq> 0 then console_print_string (str '' int %d'') [AInt (ucast intr)] c else Inr c)
            (console_print_string [10] [])))))))))))))"

fun each :: "('x \<Rightarrow> 'w \<Rightarrow> 'w res) \<Rightarrow> 'x list \<Rightarrow> 'w \<Rightarrow> 'w res" where
  "each f [] w = Inr w"
| "each f (x # xs) w = bind_res (f x w) (each f xs)"

definition probe_function :: "(u32 \<Rightarrow> u32) \<Rightarrow> u8 \<Rightarrow> u8 \<Rightarrow> console \<Rightarrow> console res" where
  "probe_function cfg slot f c =
     (let vendev = readPciConfig cfg 0 slot f 0
      in if vendev \<noteq> 0xffffffff then print_device cfg vendev slot f c else Inr c)"

definition probe_slot :: "(u32 \<Rightarrow> u32) \<Rightarrow> u8 \<Rightarrow> console \<Rightarrow> console res" where
  "probe_slot cfg slot c =
     (let vendev = readPciConfig cfg 0 slot 0 0
      in if vendev \<noteq> 0xffffffff then
           bind_res (print_device cfg vendev slot 0 c) (\<lambda>c.
             let hdr = (ucast (drop_bit 16 (readPciConfig cfg 0 slot 0 0xc)) :: u8)
             in if hdr AND 0x80 \<noteq> 0 then each (probe_function cfg slot) (map of_nat [1..<8]) c else Inr c)
         else Inr c)"

definition init_pci :: "(u32 \<Rightarrow> u32) \<Rightarrow> console \<Rightarrow> console res" where
  "init_pci cfg c =
     bind_res (console_print_string (str ''Probing the PCI bus:'' @ [10]) [] c)
       (each (probe_slot cfg) (map of_nat [0..<32]))"

definition register_slot ::
  "(u32 \<Rightarrow> u32) \<Rightarrow> u16 \<Rightarrow> u16 \<Rightarrow> (u8 \<Rightarrow> u32 \<Rightarrow> 'w \<Rightarrow> 'w res) \<Rightarrow> u8 \<Rightarrow> 'w \<Rightarrow> 'w res" where
  "register_slot cfg vendor device fn slot w =
     (if readPciConfig cfg 0 slot 0 0 = (push_bit 16 (ucast device) OR ucast vendor)
      then fn (ucast (readPciConfig cfg 0 slot 0 0x3c)) (readPciConfig cfg 0 slot 0 0x10) w
      else Inr w)"

definition register_pci_device ::
  "(u32 \<Rightarrow> u32) \<Rightarrow> u16 \<Rightarrow> u16 \<Rightarrow> (u8 \<Rightarrow> u32 \<Rightarrow> 'w \<Rightarrow> 'w res) \<Rightarrow> 'w \<Rightarrow> 'w res" where
  "register_pci_device cfg vendor device fn = each (register_slot cfg vendor device fn) (map of_nat [0..<32])"

subsection \<open>Registration\<close>

lemma each_filter:
  "each (\<lambda>x. if P x then f x else Inr) xs w = each f (filter P xs) w"
  by (induction xs arbitrary: w) (auto intro: bind_res_cong)

text \<open>Exactly the slots that hold the device are initialised, in order.\<close>

lemma register_pci_device_slots:
  "register_pci_device cfg vendor device fn w =
     each (\<lambda>slot. fn (ucast (readPciConfig cfg 0 slot 0 0x3c)) (readPciConfig cfg 0 slot 0 0x10))
       (filter (\<lambda>slot. readPciConfig cfg 0 slot 0 0 = (push_bit 16 (ucast device) OR ucast vendor)) (map of_nat [0..<32])) w"
proof -
  have "register_slot cfg vendor device fn =
      (\<lambda>slot. if readPciConfig cfg 0 slot 0 0 = (push_bit 16 (ucast device) OR ucast vendor)
        then fn (ucast (readPciConfig cfg 0 slot 0 0x3c)) (readPciConfig cfg 0 slot 0 0x10) else Inr)"
    by (intro ext) (simp add: register_slot_def)
  then show ?thesis by (simp only: register_pci_device_def each_filter)
qed

end
