(* ===== verification/Services.thy ===== *)
theory Services
  imports Pci
begin

text \<open>
  The services of src/src/service: the echo service on TCP and UDP port 7 and the web server on
  port 80. Addresses of functions and of string literals are parameters.
\<close>

unbundle bit_operations_syntax

subsection \<open>Echo (echo.c)\<close>

definition tcp_echo_read ::
  "'a nworld_scheme net_env \<Rightarrow> u64 \<Rightarrow> u8 list \<Rightarrow> u32 \<Rightarrow> 'a nworld_scheme \<Rightarrow> 'a nworld_scheme res" where
  "tcp_echo_read env s bs sz w = tcp_send env s bs (ucast sz) w"

definition tcp_echo_accept :: "u64 \<Rightarrow> u64" where
  "tcp_echo_accept read_fn = read_fn"

definition udp_echo_notify ::
  "'a nworld_scheme net_env \<Rightarrow> udp_quad \<Rightarrow> u8 list \<Rightarrow> u32 \<Rightarrow> 'a nworld_scheme \<Rightarrow> 'a nworld_scheme res" where
  "udp_echo_notify env quad bs sz w =
     (let reverse = \<lparr>src_addr = dst_addr quad, dst_addr = src_addr quad, src_port = dst_port quad, dst_port = src_port quad\<rparr>
      in bind_res (udp_send env reverse bs sz w) (\<lambda>(rc, w).
           if rc \<noteq> EOK then on_con (warn (str ''Could not send UDP.'')) w else Inr w))"

definition init_echo :: "u64 \<Rightarrow> u64 \<Rightarrow> 'a nworld_scheme \<Rightarrow> 'a nworld_scheme res" where
  "init_echo accept_fn notify_fn w =
     bind_res (tcp_listen 7 accept_fn w) (\<lambda>(r, w).
     bind_res (if r \<noteq> EOK then on_con (warn (str ''Cannot listen on port 7 for tcp echo'')) w else Inr w) (\<lambda>w.
     bind_res (udp_listen 7 notify_fn w) (\<lambda>(r, w).
       if r \<noteq> EOK then on_con (warn (str ''Cannot listen on port 7 for udp echo'')) w else Inr w)))"

subsection \<open>Web server (http.c)\<close>

definition strlen_res :: "mem \<Rightarrow> u64 \<Rightarrow> u64 res" where
  "strlen_res m p = (case strlen m p of None \<Rightarrow> Inl (Fault Diverges) | Some n \<Rightarrow> Inr n)"

text \<open>\<open>h1\<close>, \<open>sep\<close> and \<open>fname\<close> are the addresses of the literals; the array \<open>body\<close> is at \<open>sp\<close>.\<close>

definition http_read ::
  "'a fworld_scheme net_env \<Rightarrow> 'a fworld_scheme fs_env \<Rightarrow> u64 \<Rightarrow> u64 \<Rightarrow> u64 \<Rightarrow> u64 \<Rightarrow> u64 \<Rightarrow> 'a fworld_scheme \<Rightarrow> 'a fworld_scheme res" where
  "http_read env fenv h1 sep fname sp s w =
     bind_res (vfs_read fenv fname sp 256 w) (\<lambda>(count, w).
       if count < 0 then on_con (warn (str ''Cannot load HELLO~1.HTM'')) w
       else
         bind_res (strlen_res (kmem w) h1) (\<lambda>l1.
           let total = (word_of_int count + ucast l1 + 4 * 2 :: u32)
           in bind_res (kmem_alloc w (ucast total)) (\<lambda>(response, w).
                let m = strncpy (kmem w) response h1 l1;
                    (m, next) = to_str m (word_of_int count) (response + l1);
                    m = strncpy m next sep 4
                in bind_res (strlen_res m sep) (\<lambda>l2.
                     let next = next + l2;
                         m = strncpy m next sp (word_of_int count);
                         m = strncpy m (next + word_of_int count) sep 4
                     in bind_res (tcp_send env s (read_mem m response (unat total)) (ucast total) (w\<lparr>kmem := m\<rparr>)) (\<lambda>w.
                        bind_res (tcp_close env s w) (\<lambda>w. kmem_free w response))))))"

definition http_accept :: "u64 \<Rightarrow> u64" where
  "http_accept read_fn = read_fn"

definition http_run :: "u64 \<Rightarrow> 'a nworld_scheme \<Rightarrow> 'a nworld_scheme res" where
  "http_run accept_fn w =
     bind_res (tcp_listen 80 accept_fn w) (\<lambda>(r, w).
       if r \<noteq> EOK then on_con (console_print_string (str ''Failed to listen on port 80'' @ [10]) []) w else Inr w)"

definition init_http :: "u64 \<Rightarrow> 'a nworld_scheme \<Rightarrow> 'a nworld_scheme res" where
  "init_http accept_fn w = http_run accept_fn w"

subsection \<open>Listeners\<close>

text \<open>The chain of listeners from \<open>l\<close> on, as the list of their ports.\<close>

fun lseg :: "(u64 \<rightharpoonup> listen_state) \<Rightarrow> u64 \<Rightarrow> (u64 \<times> u16) list \<Rightarrow> bool" where
  "lseg ls l [] \<longleftrightarrow> l = 0"
| "lseg ls l ((a, p) # xs) \<longleftrightarrow> l = a \<and> a \<noteq> 0 \<and> (\<exists>x. ls a = Some x \<and> lport x = p \<and> lseg ls (lnext x) xs)"

lemma lseg_upd: "lseg ls l xs \<Longrightarrow> a \<notin> fst ` set xs \<Longrightarrow> lseg (ls(a \<mapsto> y)) l xs"
  by (induction ls l xs rule: lseg.induct) auto

lemma lseg_nonnull: "lseg ls l xs \<Longrightarrow> 0 \<notin> fst ` set xs"
  by (induction ls l xs rule: lseg.induct) auto

lemma find_listener_lseg:
  "lseg ls l xs \<Longrightarrow> length xs < fuel \<Longrightarrow>
     find_listener fuel ls port l = Inr (case find (\<lambda>x. snd x = port) xs of None \<Rightarrow> 0 | Some x \<Rightarrow> fst x)"
proof (induction ls l xs arbitrary: fuel rule: lseg.induct)
  case (1 ls l)
  then show ?case by (simp add: find_listener.simps)
next
  case (2 ls l a p xs)
  then obtain x where x: "ls a = Some x" "lport x = p" "lseg ls (lnext x) xs" "l = a" "a \<noteq> 0" by auto
  have "find_listener (fuel - 1) ls port (lnext x) = Inr (case find (\<lambda>x. snd x = port) xs of None \<Rightarrow> 0 | Some x \<Rightarrow> fst x)"
    using "2.IH" [of x "fuel - 1"] x "2.prems"(2) by simp
  then show ?case using x "2.prems"(2) by (subst find_listener.simps) (auto simp: deref_def)
qed

lemma lseg_length:
  assumes "lseg ls l xs" "distinct (map fst xs)"
  shows "length xs < walk_fuel"
proof -
  have "insert 0 (fst ` set xs) \<subseteq> UNIV" "0 \<notin> fst ` set xs" using lseg_nonnull [OF assms(1)] by blast+
  then have "Suc (card (fst ` set xs)) \<le> card (UNIV :: u64 set)"
    using card_mono [of "UNIV :: u64 set" "insert 0 (fst ` set xs)"] by simp
  moreover have "card (fst ` set xs) = length xs" using assms(2) by (metis distinct_card length_map set_map)
  ultimately show ?thesis by (simp add: walk_fuel_def card_word)
qed

text \<open>
  \<open>tcp_listen\<close> keeps at most one listener per port: a port in use is refused and nothing
  changes, a new one is put in front of the chain.
\<close>

definition listening :: "'a nworld_scheme \<Rightarrow> (u64 \<times> u16) list \<Rightarrow> bool" where
  "listening w xs \<longleftrightarrow> lseg (listeners w) (all_listeners w) xs \<and> distinct (map fst xs) \<and> distinct (map snd xs)"

lemma tcp_listen_in_use:
  assumes "listening w xs" "port \<in> snd ` set xs"
  shows "tcp_listen port accept w = Inr (EADDRINUSE, w)"
proof -
  have l: "lseg (listeners w) (all_listeners w) xs" "length xs < walk_fuel"
    using assms(1) lseg_length by (auto simp: listening_def)
  obtain x where x: "find (\<lambda>x. snd x = port) xs = Some x" using assms(2) by (cases "find (\<lambda>x. snd x = port) xs") (auto simp: find_None_iff)
  then have "x \<in> set xs" by (auto simp: find_Some_iff)
  then have "fst x \<noteq> 0" using lseg_nonnull [OF l(1)] by force
  then show ?thesis using find_listener_lseg [OF l, of port] x by (simp add: tcp_listen_def)
qed

lemma tcp_listen_new:
  assumes xs: "listening w xs" "port \<notin> snd ` set xs"
    and alloc: "kmem_alloc w 24 = Inr (l, w1)" "l \<noteq> 0" "l \<notin> fst ` set xs"
  shows "\<exists>w'. tcp_listen port accept w = Inr (EOK, w') \<and> listening w' ((l, port) # xs)"
proof -
  have ls: "lseg (listeners w) (all_listeners w) xs" "length xs < walk_fuel"
    using xs(1) lseg_length by (auto simp: listening_def)
  have w1: "listeners w1 = listeners w" "all_listeners w1 = all_listeners w" using kmem_alloc_frame [OF alloc(1)] by auto
  have "find (\<lambda>x. snd x = port) xs = None" using xs(2) by (force simp: find_None_iff)
  then have "tcp_listen port accept w = Inr (EOK, w1\<lparr>listeners := (listeners w)(l \<mapsto> \<lparr>lport = port, laccept = accept, lnext = all_listeners w\<rparr>),
      all_listeners := l\<rparr>)"
    using find_listener_lseg [OF ls, of port] alloc(1) by (simp add: tcp_listen_def layout w1)
  moreover have "listening (w1\<lparr>listeners := (listeners w)(l \<mapsto> \<lparr>lport = port, laccept = accept, lnext = all_listeners w\<rparr>),
      all_listeners := l\<rparr>) ((l, port) # xs)"
    using xs alloc(2,3) lseg_upd [OF ls(1) alloc(3)] by (auto simp: listening_def)
  ultimately show ?thesis by blast
qed

subsection \<open>The services keep the contract of applications\<close>

lemma tcp_send_states:
  assumes "tcp_states.keeps env" "tcp_send env s bs sz w = Inr w'"
  shows "states w' = states w"
proof -
  from assms(2) obtain pl and st :: stream and w1 where 1: "send_segment env s Psh pl id (sdev st) w = Inr w1"
    and 2: "stream_update s (\<lambda>st. st\<lparr>localSeq := localSeq st + ucast sz\<rparr>) w1 = Inr w'"
    by (auto simp: tcp_send_def res_simps)
  have "states w1 = (states w)(s := map_option id (states w s))" using assms(1) 1 by (rule segment_states) simp
  moreover have "states w' = states w1" using 2 by (rule update_keeps_states) simp
  ultimately show ?thesis by (simp add: option.map_id)
qed

lemma tcp_close_states:
  assumes "tcp_states.keeps env" "tcp_close env s w = Inr w'"
  shows "states w' = (states w)(s \<mapsto> FinWait1)"
proof -
  from assms(2) obtain st where st: "streams w s = Some st"
    by (auto simp: tcp_close_def deref_def res_simps split: if_splits option.splits)
  obtain dv w1 where 1: "send_segment env s Fin [] (\<lambda>st. st\<lparr>tstate := FinWait1\<rparr>) dv w = Inr w1"
    and 2: "stream_update s (\<lambda>st. st\<lparr>localSeq := localSeq st + 1\<rparr>) w1 = Inr w'"
    using assms(2) by (auto simp: tcp_close_def res_simps)
  have "states w1 = (states w)(s := map_option (\<lambda>_. FinWait1) (states w s))" using assms(1) 1 by (rule segment_states) simp
  moreover have "states w' = states w1" using 2 by (rule update_keeps_states) simp
  moreover have "states w s = Some (tstate st)" using st by (simp add: states_def)
  ultimately show ?thesis by simp
qed

lemma tcp_echo_read_states: "tcp_states.keeps env \<Longrightarrow> tcp_echo_read env s bs sz w = Inr w' \<Longrightarrow> states w' = states w"
  by (simp add: tcp_echo_read_def tcp_send_states)

text \<open>\<open>http_read\<close> closes the stream it answers on, or warns and leaves it; reading the page changes no stream.\<close>

lemma http_read_states:
  fixes w :: "'a fworld_scheme"
  assumes env: "tcp_states.keeps env" and fs: "\<And>b n w r w'. vfs_read fenv fname b n w = Inr (r, w') \<Longrightarrow> states w' = states w"
    and r: "http_read env fenv h1 sep fname sp s w = Inr w'"
  shows "states w' = states w \<or> states w' = (states w)(s \<mapsto> FinWait1)"
proof -
  obtain count w1 where v: "vfs_read fenv fname sp 256 w = Inr (count, w1)" using r by (auto simp: http_read_def res_simps)
  have 1: "states w1 = states w" using v by (rule fs)
  show ?thesis
  proof (cases "count < 0")
    case True
    then have "on_con (warn (str ''Cannot load HELLO~1.HTM'')) w1 = Inr w'" using r v by (simp add: http_read_def)
    then show ?thesis using 1 by (auto simp: on_con_def res_simps states_def)
  next
    case False
    then obtain n response w2 m bs k w3 w4 where a: "kmem_alloc w1 n = Inr (response, w2)"
      and 2: "tcp_send env s bs k (w2\<lparr>kmem := m\<rparr>) = Inr w3" and 3: "tcp_close env s w3 = Inr w4"
      and 4: "kmem_free w4 response = Inr w'"
      using r v by (auto simp: http_read_def res_simps Let_def split_beta)
    have "states w2 = states w1" by (rule tcp_states.alloc_view [OF a])
    moreover have "states w3 = states (w2\<lparr>kmem := m\<rparr>)" by (rule tcp_send_states [OF env 2])
    moreover have "states (w2\<lparr>kmem := m\<rparr>) = states w2" by (simp add: states_def)
    moreover have "states w4 = (states w3)(s \<mapsto> FinWait1)" by (rule tcp_close_states [OF env 3])
    moreover have "states w' = states w4" by (rule tcp_states.free_view [OF 4])
    ultimately show ?thesis using 1 by simp
  qed
qed

end
