(* ===== verification/Boot.thy ===== *)
theory Boot
  imports Services
begin

text \<open>
  Processes and the task state segment (src/src/process.c), and the parts of src/src/main.c that
  set the machine up: descriptor table, memory map, CPU details and the fault handlers. What
  the assembly of entry.asm and the CPU provide (control registers, \<open>cpuid\<close>, loading of the
  descriptor table) is a parameter.
\<close>

unbundle bit_operations_syntax

subsection \<open>Processes and descriptors (process.c, process.h)\<close>

record gdt_entry =
  lowLimit :: u16
  baseLow :: u16
  baseMid :: u8
  gtype :: u8
  descType :: u8
  privLvl :: u8
  present :: u8
  segLimit :: u8
  available :: u8
  glong :: u8
  db :: u8
  granularity :: u8
  baseHigh :: u8

definition gdt_zero :: gdt_entry where
  "gdt_zero = \<lparr>lowLimit = 0, baseLow = 0, baseMid = 0, gtype = 0, descType = 0, privLvl = 0, present = 0,
     segLimit = 0, available = 0, glong = 0, db = 0, granularity = 0, baseHigh = 0\<rparr>"

text \<open>The task state segment as its 26 words: \<open>rsp0\<close> is words 1 and 2, \<open>ist1\<close> words 9 and 10.\<close>

type_synonym tss = "u32 list"

definition sizeof_tss :: u32 where [layout]: "sizeof_tss = 104"
definition StackSize :: u64 where [layout]: "StackSize = 4096"

definition create_tss :: "u64 \<Rightarrow> u64 \<Rightarrow> u64 \<Rightarrow> gdt_entry \<Rightarrow> tss \<times> gdt_entry" where
  "create_tss base kernel_stack safe_stack entry =
     (let t = replicate 26 0;
          stack = kernel_stack + StackSize;
          t = t[1 := ucast stack, 2 := ucast (drop_bit 32 stack)];
          stack = safe_stack + StackSize;
          t = t[9 := ucast stack, 10 := ucast (drop_bit 32 stack)]
      in (t, entry\<lparr>lowLimit := ucast (sizeof_tss - 1), baseLow := ucast (base AND 0xffff),
            baseMid := ucast (drop_bit 16 base AND 0xff), gtype := 9, descType := 0, privLvl := 3, present := 1,
            segLimit := 0, available := 0, glong := 0, db := 0, granularity := 0,
            baseHigh := ucast (drop_bit 24 base AND 0xff)\<rparr>))"

record process =
  pentry :: u64
  pstack :: u64
  preap :: u64

record bworld = cworld +
  processes :: "u64 \<rightharpoonup> process"

definition process_reap :: "u64 \<Rightarrow> 'a bworld_scheme \<Rightarrow> 'a bworld_scheme res" where
  "process_reap p w = bind_res (kmem_free w p) (\<lambda>w. Inr (w\<lparr>processes := (processes w)(p := None)\<rparr>))"

definition create_process :: "u64 \<Rightarrow> u64 \<Rightarrow> u64 \<Rightarrow> 'a bworld_scheme \<Rightarrow> (u64 \<times> 'a bworld_scheme) res" where
  "create_process reap_fn call_user_fn fn w =
     bind_res (kmem_alloc w (24 + StackSize)) (\<lambda>(proc, w).
     bind_res (task_enqueue_easy (w\<lparr>processes := (processes w)(proc \<mapsto>
         \<lparr>pentry = fn, pstack = proc + 24 + StackSize - 8, preap = reap_fn\<rparr>)\<rparr>) call_user_fn proc) (\<lambda>w.
       Inr (proc, w)))"

subsection \<open>Descriptor table and memory map (main.c)\<close>

definition init_gdt :: "u64 \<Rightarrow> u64 \<Rightarrow> u64 \<Rightarrow> tss \<times> gdt_entry list" where
  "init_gdt base kernel_stack safe_stack =
     (let gdt = replicate 8 gdt_zero;
          gdt = gdt[1 := (gdt ! 1)\<lparr>granularity := 1, glong := 1, present := 1, descType := 1, gtype := 8,
                  lowLimit := 0xffff, segLimit := 0xf\<rparr>];
          gdt = gdt[2 := (gdt ! 1)\<lparr>gtype := 2, glong := 0, db := 1\<rparr>];
          gdt = gdt[3 := gdt ! 0];
          gdt = gdt[4 := (gdt ! 2)\<lparr>privLvl := 3\<rparr>];
          gdt = gdt[5 := (gdt ! 1)\<lparr>privLvl := 3\<rparr>];
          (t, e) = create_tss base kernel_stack safe_stack (gdt ! 6)
      in (t, gdt[6 := e]))"

text \<open>An entry of the memory map: \<open>ptr\<close> at 0, \<open>len\<close> at 8, \<open>type\<close> at 16; 32 bytes each.\<close>

definition HeapStart :: u64 where [layout]: "HeapStart = 0x200000"

fun memory_map_loop :: "nat \<Rightarrow> u64 \<Rightarrow> 'a iworld_scheme \<Rightarrow> 'a iworld_scheme res" where
  "memory_map_loop 0 table w = Inl (Fault Diverges)"
| "memory_map_loop (Suc fuel) table w =
     (let ptr = load64 (kmem w) table; len = load64 (kmem w) (table + 8); ty = load32 (kmem w) (table + 16)
      in if ptr = 0 \<and> len = 0 then Inr w
         else
           bind_res
             (if len \<noteq> 0 \<and> ty = 1 \<and> HeapStart \<le> ptr + len then
                let (begin, len) = (if ptr < HeapStart then (HeapStart, len - (HeapStart - ptr)) else (ptr, len))
                in bind_res (console_print_string (str ''Adding %p %x to available heap'' @ [10]) [APtr begin, AInt (ucast len)] (con w)) (\<lambda>c.
                     kmem_add_block (w\<lparr>con := c\<rparr>) begin len 0x400)
              else Inr w) (\<lambda>w. memory_map_loop fuel (table + 32) w))"

definition parse_memory_map :: "nat \<Rightarrow> 'a iworld_scheme \<Rightarrow> 'a iworld_scheme res" where
  "parse_memory_map fuel w =
     bind_res (kmem_add_block w 0x8000 0x2000 0x80) (memory_map_loop fuel 0x4000)"

subsection \<open>CPU details and fault handlers (main.c)\<close>

text \<open>\<open>cpuid l\<close> returns \<open>eax\<close>, \<open>ebx\<close>, \<open>ecx\<close> and \<open>edx\<close>.\<close>

definition cpu_brand :: "(u32 \<Rightarrow> u32 \<times> u32 \<times> u32 \<times> u32) \<Rightarrow> u8 list" where
  "cpu_brand cpuid = concat (map (\<lambda>l. case cpuid l of (a, b, c, d) \<Rightarrow> b32 a @ b32 b @ b32 c @ b32 d)
     [0x80000002, 0x80000003, 0x80000004])"

definition cpu_model :: "u32 \<Rightarrow> u32" where
  "cpu_model eax =
     (let family = drop_bit 8 eax AND 0xf
      in if family = 6 \<or> family = 0xf then (drop_bit 12 eax AND 0xf0) + (drop_bit 4 eax AND 0xf)
         else drop_bit 4 eax AND 0xf)"

definition cpu_display_family :: "u32 \<Rightarrow> u32" where
  "cpu_display_family eax =
     (let family = drop_bit 8 eax AND 0xf
      in if family = 0xf then (drop_bit 20 eax AND 0xff) + family else family)"

text \<open>
  The array \<open>brand\<close> has 48 bytes and no room for a terminator: printing it reads on when it is
  full.
\<close>

definition cpu_details :: "(u32 \<Rightarrow> u32 \<times> u32 \<times> u32 \<times> u32) \<Rightarrow> console \<Rightarrow> console res" where
  "cpu_details cpuid c =
     (let brand = cpu_brand cpuid; eax = fst (cpuid 1)
      in if 0 \<notin> set brand then Inl (Fault OutOfBounds)
         else
           bind_res (console_print_string (str ''Running on a %s'' @ [10]) [AStr (takeWhile (\<lambda>b. b \<noteq> 0) brand)] c)
             (console_print_string (str ''eax %x, Model %d, family %d, stepping %d'' @ [10])
                [AInt eax, AInt (cpu_model eax), AInt (cpu_display_family eax), AInt (eax AND 0xf)]))"

record registers =
  reg_ss :: u64
  reg_ds :: u64
  reg_es :: u64
  reg_fs :: u64
  reg_gs :: u64
  reg_rdi :: u64
  reg_rsi :: u64
  reg_rax :: u64
  reg_rbx :: u64
  reg_rcx :: u64
  reg_rdx :: u64
  reg_r8 :: u64
  reg_r9 :: u64
  reg_r10 :: u64
  reg_r11 :: u64
  reg_r12 :: u64
  reg_r13 :: u64
  reg_r14 :: u64
  reg_r15 :: u64
  reg_rbp :: u64
  reg_errorCode :: u64
  reg_rip :: u64
  reg_cs :: u64
  reg_rflags :: u64

text \<open>\<open>regs\<close> is the address of the frame, 192 bytes long; the words behind it are the interrupted stack.\<close>

definition dump_stack :: "mem \<Rightarrow> u64 \<Rightarrow> console \<Rightarrow> console res" where
  "dump_stack m regs = each (\<lambda>i. let p = regs + 192 + 16 * of_nat i
       in console_print_string (str ''%p: %x %x %x %x'' @ [10])
            [APtr p, AInt (load32 m p), AInt (load32 m (p + 4)), AInt (load32 m (p + 8)), AInt (load32 m (p + 12))]) [0..<4]"

definition flag_letter :: "u64 \<Rightarrow> nat \<Rightarrow> string \<Rightarrow> string \<Rightarrow> console \<Rightarrow> console res" where
  "flag_letter v n on off = console_print_string (str (if v AND push_bit n 1 \<noteq> 0 then on else off)) []"

definition dump_regs :: "u64 \<Rightarrow> registers \<Rightarrow> u64 \<Rightarrow> u64 \<Rightarrow> u64 \<Rightarrow> u64 \<Rightarrow> console \<Rightarrow> console res" where
  "dump_regs addr r cr0 cr2 cr3 cr4 = each (\<lambda>f. f)
     [console_print_string (str ''rax %p rbx %p'' @ [10]) [APtr (reg_rax r), APtr (reg_rbx r)],
      console_print_string (str ''rcx %p rdx %p'' @ [10]) [APtr (reg_rcx r), APtr (reg_rdx r)],
      console_print_string (str ''r8  %p r9  %p'' @ [10]) [APtr (reg_r8 r), APtr (reg_r9 r)],
      console_print_string (str ''r10 %p r11 %p'' @ [10]) [APtr (reg_r10 r), APtr (reg_r11 r)],
      console_print_string (str ''r12 %p r13 %p'' @ [10]) [APtr (reg_r12 r), APtr (reg_r13 r)],
      console_print_string (str ''r14 %p r15 %p'' @ [10]) [APtr (reg_r14 r), APtr (reg_r15 r)],
      console_print_string (str ''rsi %p rdi %p'' @ [10]) [APtr (reg_rsi r), APtr (reg_rdi r)],
      console_print_string (str ''ds %x es %x fs %x gs %x'' @ [10])
        [AInt (ucast (reg_ds r)), AInt (ucast (reg_es r)), AInt (ucast (reg_fs r)), AInt (ucast (reg_gs r))],
      console_print_string (str ''rip '') [], console_put_hex64 (reg_rip r),
      console_print_string (str '' cs  '') [], console_put_hex (ucast (reg_cs r)),
      console_print_string [10] [],
      console_print_string (str ''rflags %p'') [APtr (reg_rflags r)],
      flag_letter (reg_rflags r) 14 '' N'' '' n'', flag_letter (reg_rflags r) 11 ''O'' ''o'',
      flag_letter (reg_rflags r) 10 ''D'' ''d'', flag_letter (reg_rflags r) 9 ''I'' ''i'',
      flag_letter (reg_rflags r) 8 ''T'' ''t'', flag_letter (reg_rflags r) 7 ''S'' ''s'',
      flag_letter (reg_rflags r) 6 ''Z'' ''z'', flag_letter (reg_rflags r) 4 ''A'' ''a'',
      flag_letter (reg_rflags r) 2 ''P'' ''p'', flag_letter (reg_rflags r) 0 ''C'' ''c'',
      console_print_string (str '' IOPL=%x'' @ [10]) [AInt (ucast (drop_bit 12 (reg_rflags r) AND 3))],
      console_print_string (str ''error %p'' @ [10]) [APtr (reg_errorCode r)],
      console_print_string (str ''ss %x rsp %p - rbp %p'' @ [10]) [AInt (ucast (reg_ss r)), APtr (addr + 192), APtr (reg_rbp r)],
      console_print_string (str ''cr0 %p cr2 %p'' @ [10]) [APtr cr0, APtr cr2],
      console_print_string (str ''cr3 %p cr4 %p'' @ [10]) [APtr cr3, APtr cr4]]"

definition halt :: "string \<Rightarrow> console \<Rightarrow> console res" where
  "halt why c = bind_res (panic (str why) c) (\<lambda>c. Inl (Panic why))"

definition double_fault :: "console \<Rightarrow> console res" where
  "double_fault = halt ''double fault!''"

definition breakpoint :: "mem \<Rightarrow> u64 \<Rightarrow> registers \<Rightarrow> u64 \<Rightarrow> u64 \<Rightarrow> u64 \<Rightarrow> u64 \<Rightarrow> console \<Rightarrow> console res" where
  "breakpoint m addr r cr0 cr2 cr3 cr4 = each (\<lambda>f. f)
     [console_print_string (str ''breakpoint!'' @ [10]) [], dump_regs addr r cr0 cr2 cr3 cr4, dump_stack m addr]"

definition protection :: "mem \<Rightarrow> u64 \<Rightarrow> registers \<Rightarrow> u64 \<Rightarrow> u64 \<Rightarrow> u64 \<Rightarrow> u64 \<Rightarrow> console \<Rightarrow> console res" where
  "protection m addr r cr0 cr2 cr3 cr4 = each (\<lambda>f. f)
     [console_print_string (str ''General protection fault'' @ [10]) [], dump_regs addr r cr0 cr2 cr3 cr4, dump_stack m addr,
      halt ''cannot continue'']"

definition page_fault :: "mem \<Rightarrow> u64 \<Rightarrow> registers \<Rightarrow> u64 \<Rightarrow> u64 \<Rightarrow> u64 \<Rightarrow> u64 \<Rightarrow> console \<Rightarrow> console res" where
  "page_fault m addr r cr0 cr2 cr3 cr4 = each (\<lambda>f. f)
     [console_print_string (str ''page fault at %x'' @ [10]) [AInt (ucast cr2)],
      console_print_string (str ''cause: %s %s %s (%x)'' @ [10])
        [AStr (str (if reg_errorCode r AND 1 \<noteq> 0 then ''protection'' else ''non-present page'')),
         AStr (str (if reg_errorCode r AND 2 \<noteq> 0 then ''write'' else ''read'')),
         AStr (str (if reg_errorCode r AND 4 \<noteq> 0 then ''user'' else ''supervisor'')),
         AInt (ucast (reg_errorCode r))],
      dump_regs addr r cr0 cr2 cr3 cr4, dump_stack m addr, halt ''cannot continue'']"

end
