(* ===== verification/FatDir.thy ===== *)
theory FatDir
  imports Fs
begin

text \<open>
  Finding and reading files of a FAT32 volume, against a reference: a directory as a list of
  32-byte entries. The interface \<open>storage\<close> is what the FAT32 reader relies on of a storage device; the
  ATA driver is shown to provide it in Ata.
\<close>

unbundle bit_operations_syntax

subsection \<open>Directories as lists\<close>

definition entry_base :: "u8 list \<Rightarrow> u8 list" where
  "entry_base e = takeWhile (\<lambda>x. x \<noteq> 32) (take 8 e)"

definition entry_ext :: "u8 list \<Rightarrow> u8 list" where
  "entry_ext e = take 3 (drop 8 e)"

definition entry_ok :: "u8 list \<Rightarrow> bool" where
  "entry_ok e \<longleftrightarrow> entry_base e \<noteq> [] \<and> 0 \<notin> set (entry_base e) \<and> 0 \<notin> set (entry_ext e) \<and>
     take 8 e = entry_base e @ replicate (8 - length (entry_base e)) 32"

definition entry_name :: "u8 list \<Rightarrow> u8 list" where
  "entry_name e = takeWhile (\<lambda>x. x \<noteq> 0) (name_bytes (entry_base e) (entry_ext e))"

definition entry_skipped :: "u8 list \<Rightarrow> bool" where
  "entry_skipped e \<longleftrightarrow> e ! 0 = 0xe5 \<or> e ! 11 = 0xf"

fun dir_ok :: "u8 list list \<Rightarrow> bool" where
  "dir_ok [] \<longleftrightarrow> True"
| "dir_ok (e # es) \<longleftrightarrow> e ! 0 = 0 \<or> (entry_skipped e \<or> entry_ok e) \<and> dir_ok es"

fun dir_find :: "u8 list \<Rightarrow> u8 list list \<Rightarrow> u8 list option" where
  "dir_find f [] = None"
| "dir_find f (e # es) =
     (if e ! 0 = 0 then None
      else if \<not> entry_skipped e \<and> entry_name e = f then Some e
      else dir_find f es)"

definition sector_entries :: "u8 list \<Rightarrow> u8 list list" where
  "sector_entries S = map (\<lambda>i. take 32 (drop (32 * i) S)) [0..<16]"

subsection \<open>Slices of memory\<close>

lemma read_mem_slice: "k + j \<le> n \<Longrightarrow> read_mem m (a + of_nat k) j = take j (drop k (read_mem m a n))"
  by (rule nth_equalityI) (simp_all add: add.assoc)

lemma read_mem_at: "k < n \<Longrightarrow> m (a + of_nat k) = read_mem m a n ! k"
  by simp

lemma write_mem_self: "n < 2 ^ 64 \<Longrightarrow> write_mem m a (read_mem m a n) = m"
  by (rule ext) (simp add: write_mem_def)

lemma read_write_slice:
  assumes "k + j \<le> length W" "length W < 2 ^ 64"
  shows "read_mem (write_mem m a W) (a + of_nat k) j = take j (drop k W)"
  using read_mem_slice [of k j "length W" "write_mem m a W" a] assms by (simp add: read_write_same)

lemma separate_tail:
  assumes "separate a n b k" "j < k" "k < 2 ^ 64"
  shows "separate a n (b + of_nat j) (k - j)"
proof -
  have s: "n \<le> unat (b - a)" "k \<le> unat (a - b)" using assms(1) by (auto simp: separate_def)
  have neg: "unat (- y) = 2 ^ 64 - unat y" if "0 < unat y" for y :: u64 using that unat_sub_if' [of 0 y] by simp
  have j: "unat (of_nat j :: u64) = j" using assms(2,3) by (simp add: unat_of_nat_small)
  have "unat (a - b - of_nat j) = unat (a - b) - j" using s(2) assms(2) j by (simp add: unat_sub_if')
  moreover have "a - b - of_nat j = a - (b + of_nat j)" by simp
  ultimately have x: "unat (a - (b + of_nat j)) = unat (a - b) - j" by simp
  have "unat (b + of_nat j - a) = 2 ^ 64 - (unat (a - b) - j)" "unat (b - a) = 2 ^ 64 - unat (a - b)"
    using neg [of "a - (b + of_nat j)"] neg [of "a - b"] x s(2) assms(2) by simp_all
  with x have "k - j \<le> unat (a - (b + of_nat j))" "n \<le> unat (b + of_nat j - a)" using s by simp_all
  then show ?thesis using s assms(2) by (auto simp: separate_def)
qed

text \<open>A write inside a region that is separate from what is read.\<close>

lemma read_write_inside:
  assumes "separate a n b k" "j + length W \<le> k" "k < 2 ^ 64"
  shows "read_mem (write_mem m (b + of_nat j) W) a n = read_mem m a n"
proof -
  have "write_mem m (b + of_nat j) W = write_mem (write_mem m b (read_mem m b k)) (b + of_nat j) W"
    using assms(3) by (simp add: write_mem_self)
  also have "\<dots> = write_mem m b (overlay j W (read_mem m b k))" using assms by (intro write_mem_overlay) simp_all
  finally show ?thesis using assms(1,2) by (simp add: read_write_separate length_overlay)
qed

lemma length_trim_list [simp]: "length (trim_list k W) = length W"
  by (induction k arbitrary: W) simp_all

lemma length_name_bytes: "length b \<le> 8 \<Longrightarrow> length e = 3 \<Longrightarrow> length (name_bytes b e) = 13"
  by (simp add: name_bytes_def length_overlay)

lemma length_entry_base: "length (entry_base e) \<le> 8"
  unfolding entry_base_def by (rule order_trans [OF length_takeWhile_le]) simp

text \<open>
  The loop of \<open>find\<close> over the last \<open>n\<close> entries of the sector \<open>S\<close> at \<open>root\<close>, whose name buffer holds
  \<open>V\<close>: it finds what the reference finds and writes nothing but the buffers.
\<close>

lemma find_loop_dir:
  assumes S: "length S = 512" and top: "unat root + 525 < 2 ^ 64"
    and fn: "separate filename 13 root 525" "cstr m filename 13 = f"
  shows "n \<le> 16 \<Longrightarrow> dir_ok (drop (16 - n) (sector_entries S)) \<Longrightarrow> length V = 13 \<Longrightarrow>
    \<exists>V'. length V' = 13 \<and> find_loop root filename buf (16 - n) (write_mem m root (S @ V)) =
      (case dir_find f (drop (16 - n) (sector_entries S)) of
         None \<Rightarrow> (ENOTFOUND, write_mem m root (S @ V'))
       | Some e \<Rightarrow> (EOK, if buf \<noteq> 0 then write_mem (write_mem m root (S @ V')) buf e else write_mem m root (S @ V')))"
proof (induction n arbitrary: V)
  case 0
  then show ?case by (intro exI [of _ V]) (simp add: sector_entries_def find_loop.simps [of _ _ _ 16])
next
  case (Suc n)
  define d where "d = 32 * (15 - n)"
  define e where "e = take 32 (drop d S)"
  let ?m = "write_mem m root (S @ V)" and ?e = "root + of_nat d" and ?name = "root + of_nat 512"
  have d: "d + 32 \<le> 512" by (simp add: d_def)
  have "16 - Suc n < length (sector_entries S)" by (simp add: sector_entries_def)
  then have es: "drop (16 - Suc n) (sector_entries S) = e # drop (16 - n) (sector_entries S)"
    using Suc.prems(1) Cons_nth_drop_Suc [of "16 - Suc n" "sector_entries S"] Suc_diff_le [of n 15]
    by (simp add: sector_entries_def e_def d_def)
  have addr: "root + 32 * of_nat (15 - n) = ?e" "root + 512 = ?name" by (simp_all add: d_def)
  have e: "read_mem ?m ?e 32 = e" "length e = 32"
    using read_write_slice [of d 32 "S @ V" m root] S Suc.prems(3) d by (simp_all add: e_def)
  have b0: "?m ?e = e ! 0" and b11: "de_attributes ?m ?e = e ! 11"
    using read_mem_at [of 0 32 ?m ?e] read_mem_at [of 11 32 ?m ?e] unfolding e(1) de_attributes_def by simp_all
  have unfold: "find_loop root filename buf (16 - Suc n) ?m =
      (if e ! 0 = 0 then (ENOTFOUND, ?m)
       else if entry_skipped e then find_loop root filename buf (16 - n) ?m
       else
         let m = filenameFromDirectoryEntry ?m ?e ?name
         in if strncmp m ?name filename 13 = 0 then (EOK, if buf \<noteq> 0 then write_mem m buf (read_mem m ?e 32) else m)
            else find_loop root filename buf (16 - n) m)"
  proof -
    have i: "16 - Suc n = 15 - n" "Suc (15 - n) = 16 - n" "15 - n < 16" using Suc.prems(1) by simp_all
    show ?thesis
      unfolding i(1) find_loop.simps [of root filename buf "15 - n"] Let_def addr b0 b11 entry_skipped_def i(2)
      using i(3) by (cases "e ! 0 = 0") (simp_all only: simp_thms if_True if_False)
  qed
  show ?case
  proof (cases "e ! 0 = 0")
    case True
    then show ?thesis using Suc.prems(3) unfolding es unfold by (intro exI [of _ V]) simp
  next
    case used: False
    show ?thesis
    proof (cases "entry_skipped e")
      case True
      then obtain V' where "length V' = 13" "find_loop root filename buf (16 - n) ?m =
          (case dir_find f (drop (16 - n) (sector_entries S)) of
             None \<Rightarrow> (ENOTFOUND, write_mem m root (S @ V'))
           | Some e \<Rightarrow> (EOK, if buf \<noteq> 0 then write_mem (write_mem m root (S @ V')) buf e else write_mem m root (S @ V')))"
        using Suc.IH [of V] Suc.prems used unfolding es by auto
      then show ?thesis using True used unfolding es unfold by (intro exI [of _ V']) simp
    next
      case live: False
      then have ok: "entry_ok e" using Suc.prems(2) used unfolding es by simp
      let ?W = "name_bytes (entry_base e) (entry_ext e)"
      have x: "length (entry_ext e) = 3" using e(2) by (simp add: entry_ext_def)
      have W: "length ?W = 13" using length_entry_base x by (rule length_name_bytes)
      have r: "read_mem ?m ?e 8 = entry_base e @ replicate (8 - length (entry_base e)) 32"
        using read_mem_slice [of 0 8 32 ?m ?e] e ok by (simp add: entry_ok_def)
      have r': "read_mem ?m (?e + 8) 3 = entry_ext e"
        using read_mem_slice [of 8 3 32 ?m ?e] e by (simp add: entry_ext_def)
      have u: "unat ?e = unat root + d" "unat ?name = unat root + 512"
        using top d by (simp_all add: unat_plus_if' unat_of_nat_small)
      have base32: "32 \<notin> set (entry_base e)" by (auto simp: entry_base_def dest: set_takeWhileD)
      have "filenameFromDirectoryEntry ?m ?e ?name = write_mem ?m ?name ?W"
        by (rule filename_bytes [OF r r']) (use ok top d u base32 length_entry_base in \<open>auto simp: entry_ok_def\<close>)
      also have "\<dots> = write_mem m root (overlay 512 ?W (S @ V))"
        using S Suc.prems(3) W by (intro write_mem_overlay) simp_all
      also have "overlay 512 ?W (S @ V) = S @ ?W" using S Suc.prems(3) W by (simp add: overlay_def)
      finally have name: "filenameFromDirectoryEntry ?m ?e ?name = write_mem m root (S @ ?W)" .
      let ?m' = "write_mem m root (S @ ?W)"
      have "read_mem ?m' ?name 13 = ?W" using read_write_slice [of 512 13 "S @ ?W" m root] S W by simp
      moreover have "read_mem ?m' filename 13 = read_mem m filename 13" using fn(1) S W by (intro read_write_separate) simp
      ultimately have cmp: "strncmp ?m' ?name filename 13 = 0 \<longleftrightarrow> entry_name e = f"
        using fn(2) by (simp add: strncmp_zero_iff_cstr entry_name_def)
      have e': "read_mem ?m' ?e 32 = e" using read_write_slice [of d 32 "S @ ?W" m root] S W d by (simp add: e_def)
      obtain V' where V': "length V' = 13" "find_loop root filename buf (16 - n) ?m' =
          (case dir_find f (drop (16 - n) (sector_entries S)) of
             None \<Rightarrow> (ENOTFOUND, write_mem m root (S @ V'))
           | Some e \<Rightarrow> (EOK, if buf \<noteq> 0 then write_mem (write_mem m root (S @ V')) buf e else write_mem m root (S @ V')))"
        using Suc.IH [OF _ _ W] Suc.prems used unfolding es by auto
      have step: "find_loop root filename buf (16 - Suc n) ?m =
          (if entry_name e = f then (EOK, if buf \<noteq> 0 then write_mem ?m' buf e else ?m') else find_loop root filename buf (16 - n) ?m')"
        using live used unfolding unfold name Let_def cmp e' by simp
      show ?thesis
      proof (cases "entry_name e = f")
        case True
        then show ?thesis using live used W unfolding es step by (intro exI [of _ ?W]) simp
      next
        case False
        then show ?thesis using live used V' unfolding es step by (intro exI [of _ V']) simp
      qed
    qed
  qed
qed


lemma ucast_lba: "(ucast (l :: u32) :: u64) < 2 ^ 48"
  using unat_less_2p [of l] by (simp add: word_less_nat_alt unsigned_ucast_eq take_bit_nat_eq_self)

text \<open>Fields of a \<open>fat_device\<close> depend only on its 536 bytes.\<close>

lemma fat_device_cong:
  assumes "read_mem m' dev 536 = read_mem m dev 536"
  shows "fat_store m' dev = fat_store m dev" "lbaOfCluster m' dev = lbaOfCluster m dev" "bs_rootCluster m' dev = bs_rootCluster m dev"
proof -
  have s: "read_mem m' (dev + of_nat k) j = read_mem m (dev + of_nat k) j" if "k + j \<le> 536" for k j
    using that assms by (simp add: read_mem_slice)
  have b: "m' (dev + of_nat k) = m (dev + of_nat k)" if "k < 536" for k
    unfolding read_mem_at [OF that, of m' dev] read_mem_at [OF that, of m dev] assms ..
  show "fat_store m' dev = fat_store m dev" using s [of 528 8] unfolding fat_store_def load64_def by simp
  show "bs_rootCluster m' dev = bs_rootCluster m dev" using s [of 60 4] unfolding bs_rootCluster_def load32_def by simp
  show "lbaOfCluster m' dev = lbaOfCluster m dev"
    using s [of 30 2] s [of 52 4] b [of 29] b [of 32]
    by (intro ext) (simp add: lbaOfCluster_def bs_tableSize_def bpb_noFats_def bpb_reservedSectors_def bpb_sectorsPerCluster_def load32_def load16_def)
qed

text \<open>The fields of a directory entry that \<open>slurp\<close> uses.\<close>

definition file_cluster :: "u8 list \<Rightarrow> u32" where
  "file_cluster e = push_bit 16 (ucast (join_le (take 2 (drop 20 e)) :: u16)) + ucast (join_le (take 2 (drop 26 e)) :: u16)"

definition file_size :: "u8 list \<Rightarrow> u32" where
  "file_size e = join_le (take 4 (drop 28 e))"

lemma entry_fields:
  assumes "read_mem m p 32 = e"
  shows "de_attributes m p = e ! 11" "de_fileSize m p = file_size e"
    "push_bit 16 (ucast (de_clusterHigh m p)) + ucast (de_clusterLow m p) = file_cluster e"
proof -
  have r: "read_mem m (p + of_nat k) j = take j (drop k e)" if "k + j \<le> 32" for k j
    using read_mem_slice [OF that, of m p] assms by simp
  show "de_attributes m p = e ! 11" using read_mem_at [of 11 32 m p] unfolding assms de_attributes_def by simp
  show "de_fileSize m p = file_size e" using r [of 28 4] unfolding de_fileSize_def file_size_def load32_def by simp
  show "push_bit 16 (ucast (de_clusterHigh m p)) + ucast (de_clusterLow m p) = file_cluster e"
    using r [of 20 2] r [of 26 2] unfolding de_clusterHigh_def de_clusterLow_def file_cluster_def load16_def by simp
qed

lemma write_mem_padded:
  assumes "length W + n \<le> 2 ^ 64" "n < 2 ^ 64"
  shows "write_mem m a W = write_mem m a (W @ read_mem (write_mem m a W) (a + of_nat (length W)) n)"
proof -
  have "write_mem m a (W @ read_mem (write_mem m a W) (a + of_nat (length W)) n) =
      write_mem (write_mem m a W) (a + of_nat (length W)) (read_mem (write_mem m a W) (a + of_nat (length W)) n)"
    using assms by (intro write_mem_append) simp
  then show ?thesis using assms(2) by (simp add: write_mem_self)
qed

text \<open>The root directory of the volume.\<close>

abbreviation root_lba :: "mem \<Rightarrow> u64 \<Rightarrow> u64" where
  "root_lba m dev \<equiv> ucast (lbaOfCluster m dev (bs_rootCluster m dev))"

subsection \<open>Storage devices\<close>

text \<open>
  \<open>ready p w\<close>: the device at \<open>p\<close> can be read in state \<open>w\<close>. A read stores a prefix of the sector, of even
  length, at the buffer and changes nothing else of the kernel's state.
\<close>

definition same_kernel :: "'a fworld_scheme \<Rightarrow> 'a fworld_scheme \<Rightarrow> bool" where
  "same_kernel w w' \<longleftrightarrow> fworld.truncate w' = fworld.truncate w"

lemma same_kernelD:
  assumes "same_kernel w w'"
  shows "kmem w' = kmem w" "nodes w' = nodes w" "file_systems w' = file_systems w"
  using assms by (auto simp: same_kernel_def fworld.defs)

lemma dir_find_length:
  "(\<And>x. x \<in> set es \<Longrightarrow> length x = 32) \<Longrightarrow> dir_find f es = Some e \<Longrightarrow> length e = 32"
  by (induction f es rule: dir_find.induct) (auto split: if_splits)

lemma small_sint: "unat x \<le> 512 \<Longrightarrow> sint (ucast x :: u32) = int (unat x)" for x :: u64
proof -
  assume le: "unat x \<le> 512"
  have "sint (of_nat n :: u32) = int n" if "n \<le> 512" for n
    using that by (simp add: signed_of_nat signed_take_bit_int_eq_self)
  moreover have "ucast x = (of_nat (unat x) :: u32)" by simp
  ultimately show ?thesis using le by (simp only:)
qed

locale storage =
  fixes rs :: "'a fworld_scheme sector_fn"
    and ready :: "u64 \<Rightarrow> 'a fworld_scheme \<Rightarrow> bool"
    and disk :: "u64 \<Rightarrow> u8 list"
  assumes sector: "ready p w \<Longrightarrow> 0 < sz \<Longrightarrow> sz \<le> 512 \<Longrightarrow> lba < 2 ^ 48 \<Longrightarrow>
      \<exists>w'. rs p lba buf sz w = Inr (0, w') \<and> ready p w' \<and>
        same_kernel (w\<lparr>kmem := write_mem (kmem w) buf (take (2 * (unat sz div 2)) (disk lba))\<rparr>) w'"
    and ready_kmem: "ready p (w\<lparr>kmem := m\<rparr>) \<longleftrightarrow> ready p w"
    and sector_length: "ready p w \<Longrightarrow> length (disk lba) = 512"
begin

lemma whole_sector:
  assumes "ready p w" "lba < 2 ^ 48"
  obtains w' where "rs p lba buf 512 w = Inr (0, w')" "ready p w'" "same_kernel (w\<lparr>kmem := write_mem (kmem w) buf (disk lba)\<rparr>) w'"
  using sector [OF assms(1) _ _ assms(2), of 512 buf] sector_length [OF assms(1), of lba] by auto

lemma find_served:
  assumes rdy: "ready (fat_store (kmem w) dev) w" and top: "unat sp + 525 < 2 ^ 64"
    and fn: "separate filename 13 sp 525" "cstr (kmem w) filename 13 = f"
    and dir: "dir_ok (sector_entries (disk (root_lba (kmem w) dev)))"
  obtains V w' M where "length V = 13"
    "M = write_mem (kmem w) sp (disk (root_lba (kmem w) dev) @ V)"
    "ready (fat_store (kmem w) dev) w'"
    "case dir_find f (sector_entries (disk (root_lba (kmem w) dev))) of
       None \<Rightarrow> fat_find rs sp dev filename buf w = Inr (ENOTFOUND, w') \<and> same_kernel (w\<lparr>kmem := M\<rparr>) w'
     | Some e \<Rightarrow> fat_find rs sp dev filename buf w = Inr (EOK, w') \<and>
         same_kernel (w\<lparr>kmem := if buf \<noteq> 0 then write_mem M buf e else M\<rparr>) w'"
proof -
  let ?p = "fat_store (kmem w) dev" and ?S = "disk (root_lba (kmem w) dev)"
  have S: "length ?S = 512" using rdy by (rule sector_length)
  obtain w1 where w1: "rs ?p (root_lba (kmem w) dev) sp 512 w = Inr (0, w1)" "ready ?p w1"
      "same_kernel (w\<lparr>kmem := write_mem (kmem w) sp ?S\<rparr>) w1"
    using whole_sector [OF rdy ucast_lba] by blast
  define V0 where "V0 = read_mem (write_mem (kmem w) sp ?S) (sp + of_nat 512) 13"
  have k1: "kmem w1 = write_mem (kmem w) sp (?S @ V0)"
    using same_kernelD(1) [OF w1(3)] write_mem_padded [of ?S 13 "kmem w" sp] S by (simp add: V0_def)
  have "drop (16 - 16) (sector_entries ?S) = sector_entries ?S" by simp
  then obtain V where V: "length V = 13" "find_loop sp filename buf 0 (kmem w1) =
      (case dir_find f (sector_entries ?S) of
         None \<Rightarrow> (ENOTFOUND, write_mem (kmem w) sp (?S @ V))
       | Some e \<Rightarrow> (EOK, if buf \<noteq> 0 then write_mem (write_mem (kmem w) sp (?S @ V)) buf e else write_mem (kmem w) sp (?S @ V)))"
    using find_loop_dir [OF S top fn, of 16 V0 buf] dir unfolding k1 by (auto simp: V0_def)
  define r where "r = fst (find_loop sp filename buf 0 (kmem w1))"
  define w' where "w' = w1\<lparr>kmem := snd (find_loop sp filename buf 0 (kmem w1))\<rparr>"
  have "fat_find rs sp dev filename buf w = Inr (r, w')"
    using w1(1) by (simp add: fat_find_def Let_def split_beta r_def w'_def)
  moreover have "ready ?p w'" using w1(2) by (simp add: w'_def ready_kmem)
  moreover have "same_kernel (w\<lparr>kmem := snd (find_loop sp filename buf 0 (kmem w1))\<rparr>) w'"
    using w1(3) by (auto simp: same_kernel_def fworld.defs w'_def)
  ultimately show ?thesis
    using V by (intro that [OF V(1) refl, of w']) (auto simp: r_def split: option.splits)
qed

lemma slurp_absent:
  assumes rdy: "ready (fat_store (kmem w) dev) w" and top: "unat sp + 557 < 2 ^ 64"
    and fn: "separate filename 13 sp 557" "cstr (kmem w) filename 13 = f"
    and dir: "dir_ok (sector_entries (disk (root_lba (kmem w) dev)))" "dir_find f (sector_entries (disk (root_lba (kmem w) dev))) = None"
  obtains w' where "fat_slurp rs sp dev filename buf sz w = Inr (ENOTFOUND, w')"
proof -
  have u: "unat (sp + 32) = unat sp + 32" using top by (simp add: unat_plus_if')
  have s: "separate filename 13 (sp + 32) 525" using separate_tail [OF fn(1), of 32] by simp
  show ?thesis
    by (rule find_served [OF rdy _ s fn(2) dir(1), of sp]) (use top u dir(2) in \<open>auto simp: fat_slurp_def layout intro: that\<close>)
qed

lemma slurp_file:
  assumes rdy: "ready (fat_store (kmem w) dev) w" and sp: "sp \<noteq> 0" "unat sp + 557 < 2 ^ 64"
    and fn: "separate filename 13 sp 557" "cstr (kmem w) filename 13 = f" and vol: "separate dev 536 sp 557"
    and dir: "dir_ok (sector_entries (disk (root_lba (kmem w) dev)))" "dir_find f (sector_entries (disk (root_lba (kmem w) dev))) = Some e"
    and fl: "e ! 11 = 0x20" "0 < file_size e" "0 < sz" "sz \<le> 512"
  obtains w' n where "fat_slurp rs sp dev filename buf sz w = Inr (int n, w')" "n = min (unat sz) (unat (file_size e))"
    "read_mem (kmem w') buf (2 * (n div 2)) = take (2 * (n div 2)) (disk (ucast (lbaOfCluster (kmem w) dev (file_cluster e))))"
    "ready (fat_store (kmem w) dev) w'"
proof -
  let ?p = "fat_store (kmem w) dev" and ?S = "disk (root_lba (kmem w) dev)"
  have S: "length ?S = 512" using rdy by (rule sector_length)
  have u: "unat (sp + 32) = unat sp + 32" using sp by (simp add: unat_plus_if')
  have s: "separate filename 13 (sp + 32) 525" using separate_tail [OF fn(1), of 32] by simp
  obtain V w1 where V: "length V = 13" and r1: "ready ?p w1" "fat_find rs (sp + 32) dev filename sp w = Inr (EOK, w1)"
      "same_kernel (w\<lparr>kmem := write_mem (write_mem (kmem w) (sp + 32) (?S @ V)) sp e\<rparr>) w1"
    by (rule find_served [OF rdy _ s fn(2) dir(1), of sp]) (use sp u dir(2) in auto)
  have m1: "kmem w1 = write_mem (write_mem (kmem w) (sp + 32) (?S @ V)) sp e" using same_kernelD(1) [OF r1(3)] by simp
  have e: "length e = 32" by (rule dir_find_length [OF _ dir(2)]) (auto simp: sector_entries_def S)
  have "read_mem (kmem w1) dev 536 = read_mem (write_mem (kmem w) (sp + 32) (?S @ V)) dev 536"
    unfolding m1 using read_write_inside [OF vol, of 0 e] e by simp
  also have "\<dots> = read_mem (kmem w) dev 536" using read_write_inside [OF vol, of 32 "?S @ V"] S V by simp
  finally have same: "fat_store (kmem w1) dev = fat_store (kmem w) dev" "lbaOfCluster (kmem w1) dev = lbaOfCluster (kmem w) dev"
    by (rule fat_device_cong)+
  have "read_mem (kmem w1) sp 32 = e" unfolding m1 using e by (intro read_write_same) simp_all
  note fields = entry_fields [OF this]
  define n where "n = min (unat sz) (unat (file_size e))"
  let ?sz = "if sz > ucast (file_size e) then ucast (file_size e) else sz"
  have sz: "unat ?sz = n" by (auto simp: n_def word_less_nat_alt)
  have "0 < unat (file_size e)" "0 < unat sz" "unat sz \<le> 512" using fl(2-4) by (simp_all add: word_less_nat_alt word_le_nat_alt)
  then have n: "0 < n" "n \<le> 512" by (auto simp: n_def)
  have sz': "0 < ?sz" "?sz \<le> 512" using n sz by (simp_all only: word_less_nat_alt word_le_nat_alt) simp_all
  let ?D = "disk (ucast (lbaOfCluster (kmem w) dev (file_cluster e)))"
  obtain w2 where w2: "rs ?p (ucast (lbaOfCluster (kmem w) dev (file_cluster e))) buf ?sz w1 = Inr (0, w2)" "ready ?p w2"
      "same_kernel (w1\<lparr>kmem := write_mem (kmem w1) buf (take (2 * (unat ?sz div 2)) ?D)\<rparr>) w2"
    using sector [OF r1(1) sz' ucast_lba] by blast
  have "sint (ucast ?sz :: u32) = int n" using small_sint [of ?sz] sz n by simp
  then have "fat_slurp rs sp dev filename buf sz w = Inr (int n, w2)"
    unfolding fat_slurp_def r1(2) bind_res.simps prod.case Let_def fields same w2(1) using fl(1) by (simp add: layout)
  moreover have "length ?D = 512" using rdy by (rule sector_length)
  then have "read_mem (kmem w2) buf (2 * (n div 2)) = take (2 * (n div 2)) ?D"
    using same_kernelD(1) [OF w2(3)] n unfolding sz by (simp add: read_write_same)
  ultimately show ?thesis using w2(2) by (intro that [OF _ n_def])
qed

end

end
