(* ===== verification/Ata.thy ===== *)
theory Ata
  imports Boot FatDir
begin

text \<open>
  The ATA driver of src/src/ata.c in polled mode. The machine's ports are a parameter: \<open>io\<close> says
  what reading and writing a port does to the hardware, whose state is the field \<open>hw\<close> of the
  world. Loops that wait for a status bit take fuel.
\<close>

unbundle bit_operations_syntax

subsection \<open>Port input and output (common.c)\<close>

record 'd port_io =
  io_inb :: "u16 \<Rightarrow> 'd \<Rightarrow> u8 \<times> 'd"
  io_inw :: "u16 \<Rightarrow> 'd \<Rightarrow> u16 \<times> 'd"
  io_inl :: "u16 \<Rightarrow> 'd \<Rightarrow> u32 \<times> 'd"
  io_outb :: "u16 \<Rightarrow> u8 \<Rightarrow> 'd \<Rightarrow> 'd"
  io_outw :: "u16 \<Rightarrow> u16 \<Rightarrow> 'd \<Rightarrow> 'd"

datatype MasterOrSlave = Master | Slave

record AtaDevice =
  abus :: u8
  abase :: u16
  actrl :: u16
  ams :: MasterOrSlave
  atype :: "string option"
  lba48 :: u8
  lba28Sectors :: u32
  lba48Sectors :: u64

record 'd hworld = bworld +
  hw :: 'd
  ata_devs :: "u64 \<rightharpoonup> AtaDevice"

definition inb_hw :: "'d port_io \<Rightarrow> u16 \<Rightarrow> ('d, 'a) hworld_scheme \<Rightarrow> u8 \<times> ('d, 'a) hworld_scheme" where
  "inb_hw io p w = (let (v, d) = io_inb io p (hw w) in (v, w\<lparr>hw := d\<rparr>))"

definition inw_hw :: "'d port_io \<Rightarrow> u16 \<Rightarrow> ('d, 'a) hworld_scheme \<Rightarrow> u16 \<times> ('d, 'a) hworld_scheme" where
  "inw_hw io p w = (let (v, d) = io_inw io p (hw w) in (v, w\<lparr>hw := d\<rparr>))"

definition inl_hw :: "'d port_io \<Rightarrow> u16 \<Rightarrow> ('d, 'a) hworld_scheme \<Rightarrow> u32 \<times> ('d, 'a) hworld_scheme" where
  "inl_hw io p w = (let (v, d) = io_inl io p (hw w) in (v, w\<lparr>hw := d\<rparr>))"

definition outb_hw :: "'d port_io \<Rightarrow> u16 \<Rightarrow> u8 \<Rightarrow> ('d, 'a) hworld_scheme \<Rightarrow> ('d, 'a) hworld_scheme" where
  "outb_hw io p v w = w\<lparr>hw := io_outb io p v (hw w)\<rparr>"

definition outw_hw :: "'d port_io \<Rightarrow> u16 \<Rightarrow> u16 \<Rightarrow> ('d, 'a) hworld_scheme \<Rightarrow> ('d, 'a) hworld_scheme" where
  "outw_hw io p v w = w\<lparr>hw := io_outw io p v (hw w)\<rparr>"

fun outs_hw :: "'d port_io \<Rightarrow> (u16 \<times> u8) list \<Rightarrow> ('d, 'a) hworld_scheme \<Rightarrow> ('d, 'a) hworld_scheme" where
  "outs_hw io [] w = w"
| "outs_hw io ((p, v) # xs) w = outs_hw io xs (outb_hw io p v w)"

subsection \<open>The driver (ata.c)\<close>

definition ATA_ERR :: u8 where [layout]: "ATA_ERR = 1"
definition DRQ :: u8 where [layout]: "DRQ = 8"
definition BSY :: u8 where [layout]: "BSY = 128"

definition ERR_BUSY :: int where [layout]: "ERR_BUSY = 1"

text \<open>Offsets from the base port: data 0, sector count 2, LBA 3 to 5, drive 6, command and status 7.\<close>

definition drive_select :: "'d port_io \<Rightarrow> AtaDevice \<Rightarrow> ('d, 'a) hworld_scheme \<Rightarrow> u8 \<times> ('d, 'a) hworld_scheme" where
  "drive_select io dev w =
     (let w = outb_hw io (abase dev + 6) (if ams dev = Slave then 0xb0 else 0xa0) w;
          (_, w) = inb_hw io (actrl dev) w;
          (_, w) = inb_hw io (actrl dev) w;
          (_, w) = inb_hw io (actrl dev) w;
          (_, w) = inb_hw io (actrl dev) w
      in inb_hw io (actrl dev) w)"

fun wait_not_busy :: "'d port_io \<Rightarrow> u16 \<Rightarrow> nat \<Rightarrow> u8 \<Rightarrow> ('d, 'a) hworld_scheme \<Rightarrow> (u8 \<times> ('d, 'a) hworld_scheme) res" where
  "wait_not_busy io p 0 status w = Inl (Fault Diverges)"
| "wait_not_busy io p (Suc fuel) status w =
     (if status AND BSY \<noteq> 0 then let (status, w) = inb_hw io p w in wait_not_busy io p fuel status w
      else Inr (status, w))"

fun read_words :: "'d port_io \<Rightarrow> u16 \<Rightarrow> u64 \<Rightarrow> nat \<Rightarrow> ('d, 'a) hworld_scheme \<Rightarrow> ('d, 'a) hworld_scheme" where
  "read_words io p dst 0 w = w"
| "read_words io p dst (Suc n) w =
     (let (v, w) = inw_hw io p w
      in read_words io p (dst + 2) n (w\<lparr>kmem := write_mem (kmem w) dst (split_le 2 v)\<rparr>))"

fun drain_drq :: "'d port_io \<Rightarrow> u16 \<Rightarrow> nat \<Rightarrow> u8 \<Rightarrow> ('d, 'a) hworld_scheme \<Rightarrow> ('d, 'a) hworld_scheme res" where
  "drain_drq io b 0 status w = Inl (Fault Diverges)"
| "drain_drq io b (Suc fuel) status w =
     (if status AND DRQ \<noteq> 0 then
        let (status, w) = inb_hw io (b + 7) w; (_, w) = inw_hw io b w
        in drain_drq io b fuel status w
      else Inr w)"

text \<open>The register writes of \<open>read_sector\<close>: high bytes first, then low bytes, then the command.\<close>

definition read_command :: "AtaDevice \<Rightarrow> u64 \<Rightarrow> u64 \<Rightarrow> (u16 \<times> u8) list" where
  "read_command dev lba sz =
     (let b = abase dev;
          nSectors = (ucast (sz div 512) :: u16);
          nSectors = (if sz mod 512 \<noteq> 0 then nSectors + 1 else nSectors)
      in [(b + 6, 0x40 OR (if ams dev = Slave then 0x10 else 0)),
          (b + 2, ucast (drop_bit 8 nSectors)),
          (b + 3, byte_at lba 3), (b + 4, byte_at lba 4), (b + 5, byte_at lba 5),
          (b + 2, ucast (nSectors AND 0xff)),
          (b + 3, byte_at lba 0), (b + 4, byte_at lba 1), (b + 5, byte_at lba 2),
          (b + 7, 0x24)])"

definition read_sector ::
  "'d port_io \<Rightarrow> nat \<Rightarrow> u64 \<Rightarrow> u64 \<Rightarrow> u64 \<Rightarrow> u64 \<Rightarrow> ('d, 'a) hworld_scheme \<Rightarrow> (int \<times> ('d, 'a) hworld_scheme) res" where
  "read_sector io fuel self lba buf sz w =
     bind_res (deref (ata_devs w) self) (\<lambda>dev.
       let (status, w) = drive_select io dev w
       in if status AND ATA_ERR \<noteq> 0 \<or> status AND DRQ \<noteq> 0 \<or> status AND BSY \<noteq> 0 then Inr (ERR_BUSY, w)
          else
            let w = outs_hw io (read_command dev lba sz) w;
                (status, w) = inb_hw io (abase dev + 7) w
            in bind_res (wait_not_busy io (abase dev + 7) fuel status w) (\<lambda>(_, w).
                 let w = read_words io (abase dev) buf (unat (sz div 2)) w;
                     (status, w) = inb_hw io (abase dev + 7) w
                 in bind_res (drain_drq io (abase dev) fuel status w) (\<lambda>w. Inr (0, w))))"

definition device_type :: "u8 \<Rightarrow> u8 \<Rightarrow> string option \<Rightarrow> string option" where
  "device_type sigLow sigHigh t =
     (let t = (if sigLow = 0 \<and> sigHigh = 0 then Some ''ATA'' else t);
          t = (if sigLow = 0x14 \<and> sigHigh = 0xeb then Some ''ATAPI'' else t);
          t = (if sigLow = 0x69 \<and> sigHigh = 0x96 then Some ''SATAPI'' else t)
      in if sigLow = 0x3c \<and> sigHigh = 0xc3 then Some ''SATA'' else t)"

text \<open>The wait for \<open>DRQ\<close> or \<open>ERR\<close>: true when data is ready.\<close>

fun wait_data :: "'d port_io \<Rightarrow> u16 \<Rightarrow> nat \<Rightarrow> u8 \<Rightarrow> ('d, 'a) hworld_scheme \<Rightarrow> (bool \<times> ('d, 'a) hworld_scheme) res" where
  "wait_data io p 0 status w = Inl (Fault Diverges)"
| "wait_data io p (Suc fuel) status w =
     (if status AND DRQ \<noteq> 0 then Inr (True, w)
      else if status AND ATA_ERR \<noteq> 0 then Inr (False, w)
      else let (status, w) = inb_hw io p w in wait_data io p fuel status w)"

fun read_ident :: "'d port_io \<Rightarrow> u16 \<Rightarrow> nat \<Rightarrow> ('d, 'a) hworld_scheme \<Rightarrow> u16 list \<times> ('d, 'a) hworld_scheme" where
  "read_ident io p 0 w = ([], w)"
| "read_ident io p (Suc n) w =
     (let (v, w) = inw_hw io p w; (vs, w) = read_ident io p n w in (v # vs, w))"

definition ident_fields :: "u16 list \<Rightarrow> AtaDevice \<Rightarrow> AtaDevice" where
  "ident_fields ident dev = dev\<lparr>
     lba48 := (if (ucast (ident ! 83) :: u32) AND 0x400 \<noteq> 0 then 1 else 0),
     lba28Sectors := ucast (ident ! 60) OR push_bit 16 (ucast (ident ! 61)),
     lba48Sectors := ucast (ident ! 100) OR push_bit 16 (ucast (ident ! 101)) OR
       push_bit 32 (ucast (ident ! 102)) OR push_bit 48 (ucast (ident ! 103))\<rparr>"

definition ata_update :: "u64 \<Rightarrow> (AtaDevice \<Rightarrow> AtaDevice) \<Rightarrow> ('d, 'a) hworld_scheme \<Rightarrow> ('d, 'a) hworld_scheme res" where
  "ata_update p f w = bind_res (deref (ata_devs w) p) (\<lambda>dev. Inr (w\<lparr>ata_devs := (ata_devs w)(p \<mapsto> f dev)\<rparr>))"

definition identify ::
  "'d port_io \<Rightarrow> nat \<Rightarrow> u64 \<Rightarrow> ('d, 'a) hworld_scheme \<Rightarrow> (bool \<times> ('d, 'a) hworld_scheme) res" where
  "identify io fuel p w =
     bind_res (deref (ata_devs w) p) (\<lambda>dev.
       let b = abase dev; (status, w) = inb_hw io (b + 7) w
       in if status = 0xff then Inr (False, w)
          else
            let (_, w) = drive_select io dev w;
                w = outs_hw io [(b + 3, 0), (b + 4, 0), (b + 5, 0), (b + 7, 0xec)] w;
                (sigLow, w) = inb_hw io (b + 4) w;
                (sigHigh, w) = inb_hw io (b + 5) w
            in bind_res (ata_update p (\<lambda>dev. dev\<lparr>atype := device_type sigLow sigHigh (atype dev)\<rparr>) w) (\<lambda>w.
               let (status, w) = inb_hw io (b + 7) w
               in if status = 0 then Inr (False, w)
                  else bind_res (wait_not_busy io (b + 7) fuel status w) (\<lambda>(status, w).
                       bind_res (wait_data io (b + 7) fuel status w) (\<lambda>(ready, w).
                         if \<not> ready then Inr (False, w)
                         else let (ident, w) = read_ident io b 256 w
                              in bind_res (ata_update p (ident_fields ident) w) (\<lambda>w. Inr (True, w))))))"

definition ata_irq_handler :: "'w \<Rightarrow> 'w res" where
  "ata_irq_handler w = Inr w"

text \<open>
  \<open>devs\<close> is the address of the array \<open>possible_devices\<close>, 48 bytes for each element. A device whose
  signature is unknown has no type; printing it follows a null pointer.
\<close>

definition possible_devices :: "AtaDevice list" where
  "possible_devices = concat (map (\<lambda>(n, b, c). map (\<lambda>m. \<lparr>abus = n, abase = b, actrl = c, ams = m, atype = None,
       lba48 = 0, lba28Sectors = 0, lba48Sectors = 0\<rparr>) [Master, Slave])
     [(0, 0x1f0, 0x3f6), (1, 0x170, 0x376), (2, 0x1e8, 0x3e6), (3, 0x168, 0x366)])"

text \<open>Addresses fixed by the linker: the literal \<open>FAT32\<close> and the two functions of the file system; the stack.\<close>

record fat_addrs =
  fat_lit :: u64
  fat_exists_fn :: u64
  fat_slurp_fn :: u64
  fat_sp :: u64

definition probe_ata ::
  "'d port_io \<Rightarrow> nat \<Rightarrow> fat_addrs \<Rightarrow> u64 \<Rightarrow> ('d, 'a) hworld_scheme \<Rightarrow> ('d, 'a) hworld_scheme res" where
  "probe_ata io fuel fa p w =
     bind_res (identify io fuel p w) (\<lambda>(found, w).
     bind_res (deref (ata_devs w) p) (\<lambda>dev.
       if found \<and> lba48 dev \<noteq> 0 then
         (case atype dev of
            None \<Rightarrow> Inl (Fault NullDeref)
          | Some t \<Rightarrow>
              bind_res (on_con (console_print_string (str ''Discovered %s device %d:%d. %d lba48 sectors'' @ [10])
                [AStr (str t), AInt (ucast (abus dev)), AInt (if ams dev = Slave then 1 else 0), AInt (ucast (lba48Sectors dev))]) w)
                (init_fat32 (read_sector io fuel) (fat_lit fa) (fat_exists_fn fa) (fat_slurp_fn fa) (fat_sp fa) p))
       else Inr w))"

definition init_ata ::
  "'d port_io \<Rightarrow> nat \<Rightarrow> fat_addrs \<Rightarrow> u64 \<Rightarrow> u64 \<Rightarrow> ('d, 'a) hworld_scheme \<Rightarrow> ('d, 'a) hworld_scheme res" where
  "init_ata io fuel fa handler devs w =
     (let w = register_interrupt_handler (14 + 32) handler 0 w;
          w = register_interrupt_handler (15 + 32) handler 1 w
      in each (\<lambda>i. probe_ata io fuel fa (devs + 48 * of_nat i)) [0..<8] w)"

subsection \<open>A drive in polled mode\<close>

text \<open>
  What the driver relies on of a drive (ATA-6, PIO data-in with 48-bit addresses): an idle drive
  shows none of \<open>ERR\<close>, \<open>DRQ\<close> and \<open>BSY\<close>; the count and LBA registers remember the last two bytes written;
  \<open>READ SECTORS EXT\<close> for one sector makes the drive busy for at most \<open>delay\<close> looks at the status,
  then it offers the words of the sector one by one, \<open>DRQ\<close> set while there are any.
  \<open>serving n ws\<close>: busy for \<open>n\<close> more looks, \<open>ws\<close> still to be read. \<open>hob r\<close>: previous and
  current contents of register \<open>r\<close>.
\<close>

record 'd drive =
  idle :: "'d \<Rightarrow> bool"
  serving :: "nat \<Rightarrow> u16 list \<Rightarrow> 'd \<Rightarrow> bool"
  hob :: "'d \<Rightarrow> u16 \<Rightarrow> u8 \<times> u8"
  dsel :: "'d \<Rightarrow> u8"

fun le_words :: "u8 list \<Rightarrow> u16 list" where
  "le_words (a # b # bs) = join_le [a, b] # le_words bs"
| "le_words bs = []"

definition hob_lba :: "(u16 \<Rightarrow> u8 \<times> u8) \<Rightarrow> u64" where
  "hob_lba h = join_le [snd (h 3), snd (h 4), snd (h 5), fst (h 3), fst (h 4), fst (h 5)]"

definition pio_drive :: "'d port_io \<Rightarrow> AtaDevice \<Rightarrow> 'd drive \<Rightarrow> nat \<Rightarrow> (u64 \<Rightarrow> u8 list) \<Rightarrow> bool" where
  "pio_drive io dev D delay disk \<longleftrightarrow>
     (\<forall>d. idle D d \<longrightarrow> idle D (snd (io_inb io (actrl dev) d)) \<and> fst (io_inb io (actrl dev) d) AND 0x89 = 0) \<and>
     (\<forall>d v. idle D d \<longrightarrow> idle D (io_outb io (abase dev + 6) v d) \<and> dsel D (io_outb io (abase dev + 6) v d) = v) \<and>
     (\<forall>d v r. idle D d \<and> r \<in> {2, 3, 4, 5} \<longrightarrow> idle D (io_outb io (abase dev + r) v d) \<and>
        dsel D (io_outb io (abase dev + r) v d) = dsel D d \<and>
        hob D (io_outb io (abase dev + r) v d) = (hob D d)(r := (snd (hob D d r), v))) \<and>
     (\<forall>d. idle D d \<and> dsel D d = 0x40 OR (if ams dev = Slave then 0x10 else 0) \<and> hob D d 2 = (0, 1) \<longrightarrow>
        (\<exists>n\<le>delay. serving D n (le_words (disk (hob_lba (hob D d)))) (io_outb io (abase dev + 7) 0x24 d))) \<and>
     (\<forall>d n ws. serving D (Suc n) ws d \<longrightarrow>
        serving D n ws (snd (io_inb io (abase dev + 7) d)) \<and> fst (io_inb io (abase dev + 7) d) AND 0x80 \<noteq> 0) \<and>
     (\<forall>d ws. serving D 0 ws d \<longrightarrow> serving D 0 ws (snd (io_inb io (abase dev + 7) d)) \<and>
        fst (io_inb io (abase dev + 7) d) AND 0x80 = 0 \<and> (fst (io_inb io (abase dev + 7) d) AND 8 \<noteq> 0 \<longleftrightarrow> ws \<noteq> [])) \<and>
     (\<forall>d ws. serving D 0 ws d \<longrightarrow> serving D 0 (tl ws) (snd (io_inw io (abase dev) d)) \<and>
        (ws \<noteq> [] \<longrightarrow> fst (io_inw io (abase dev) d) = hd ws)) \<and>
     (\<forall>d. serving D 0 [] d \<longrightarrow> idle D d) \<and> (\<forall>l. length (disk l) = 512)"


text \<open>The laws of a drive one by one, over the constants of the driver.\<close>

lemma and_mask_zero:
  "x AND ATA_ERR = 0" "x AND DRQ = 0" "x AND BSY = 0" if "x AND 0x89 = 0" for x :: u8
proof -
  have b: "x AND (0x89 AND m) = 0" for m using \<open>x AND 0x89 = 0\<close> by (simp flip: and.assoc)
  show "x AND ATA_ERR = 0" "x AND DRQ = 0" "x AND BSY = 0" using b [of 1] b [of 8] b [of 128] by (simp_all add: layout)
qed

lemma pio_idle:
  assumes "pio_drive io dev D delay disk" "idle D d"
  shows "idle D (snd (io_inb io (actrl dev) d))" "fst (io_inb io (actrl dev) d) AND 0x89 = 0"
    "idle D (io_outb io (abase dev + 6) v d)" "dsel D (io_outb io (abase dev + 6) v d) = v"
  using assms(1) [unfolded pio_drive_def, THEN conjunct1, rule_format, OF assms(2)]
    assms(1) [unfolded pio_drive_def, THEN conjunct2, THEN conjunct1, rule_format, OF assms(2)] by simp_all

lemma pio_register:
  assumes "pio_drive io dev D delay disk" "idle D d" "r \<in> {2, 3, 4, 5}"
  shows "idle D (io_outb io (abase dev + r) v d)" "dsel D (io_outb io (abase dev + r) v d) = dsel D d"
    "hob D (io_outb io (abase dev + r) v d) = (hob D d)(r := (snd (hob D d r), v))"
  using assms(1) [unfolded pio_drive_def, THEN conjunct2, THEN conjunct2, THEN conjunct1, rule_format, OF conjI [OF assms(2,3)]] by simp_all

lemma pio_command:
  assumes "pio_drive io dev D delay disk" "idle D d" "dsel D d = 0x40 OR (if ams dev = Slave then 0x10 else 0)" "hob D d 2 = (0, 1)"
  obtains n where "n \<le> delay" "serving D n (le_words (disk (hob_lba (hob D d)))) (io_outb io (abase dev + 7) 0x24 d)"
  using assms(1) [unfolded pio_drive_def, THEN conjunct2, THEN conjunct2, THEN conjunct2, THEN conjunct1, rule_format, of d] assms(2-) by blast

lemma pio_busy:
  assumes "pio_drive io dev D delay disk" "serving D (Suc n) ws d"
  shows "serving D n ws (snd (io_inb io (abase dev + 7) d))" "fst (io_inb io (abase dev + 7) d) AND BSY \<noteq> 0"
  using assms(1) [unfolded pio_drive_def, THEN conjunct2, THEN conjunct2, THEN conjunct2, THEN conjunct2, THEN conjunct1, rule_format, OF assms(2)] by (simp_all add: layout)

lemma pio_serving:
  assumes "pio_drive io dev D delay disk" "serving D 0 ws d"
  shows "serving D 0 ws (snd (io_inb io (abase dev + 7) d))" "fst (io_inb io (abase dev + 7) d) AND BSY = 0"
    "fst (io_inb io (abase dev + 7) d) AND DRQ \<noteq> 0 \<longleftrightarrow> ws \<noteq> []"
    "serving D 0 (tl ws) (snd (io_inw io (abase dev) d))" "ws \<noteq> [] \<Longrightarrow> fst (io_inw io (abase dev) d) = hd ws"
  using assms(1) [unfolded pio_drive_def, THEN conjunct2, THEN conjunct2, THEN conjunct2, THEN conjunct2, THEN conjunct2, THEN conjunct1, rule_format, OF assms(2)]
    assms(1) [unfolded pio_drive_def, THEN conjunct2, THEN conjunct2, THEN conjunct2, THEN conjunct2, THEN conjunct2, THEN conjunct2, THEN conjunct1, rule_format, OF assms(2)] by (simp_all add: layout)

lemma pio_done:
  assumes "pio_drive io dev D delay disk"
  shows "serving D 0 [] d \<Longrightarrow> idle D d" "length (disk l) = 512"
  using assms(1) [unfolded pio_drive_def, THEN conjunct2, THEN conjunct2, THEN conjunct2, THEN conjunct2, THEN conjunct2, THEN conjunct2, THEN conjunct2, THEN conjunct1, rule_format] assms(1) [unfolded pio_drive_def, THEN conjunct2, THEN conjunct2, THEN conjunct2, THEN conjunct2, THEN conjunct2, THEN conjunct2, THEN conjunct2, THEN conjunct2] by simp_all

lemma outs_hw_eq: "outs_hw io xs w = w\<lparr>hw := fold (\<lambda>(p, v). io_outb io p v) xs (hw w)\<rparr>"
  by (induction io xs w rule: outs_hw.induct) (simp_all add: outb_hw_def)

lemma select_idle:
  assumes drv: "pio_drive io dev D delay disk" and d: "idle D (hw w)"
  obtains st d' where "drive_select io dev w = (st, w\<lparr>hw := d'\<rparr>)" "idle D d'" "st AND 0x89 = 0"
proof -
  note laws = pio_idle [OF drv]
  define look where "look = (\<lambda>d. snd (io_inb io (actrl dev) d))"
  define d0 where "d0 = io_outb io (abase dev + 6) (if ams dev = Slave then 0xb0 else 0xa0) (hw w)"
  have i: "idle D (look (look (look (look d0))))" unfolding look_def by (intro laws(1)) (simp add: d0_def laws(3) d)
  show ?thesis
    by (rule that [of "fst (io_inb io (actrl dev) (look (look (look (look d0)))))" "look (look (look (look (look d0))))"])
      (use laws(1,2) [OF i] in \<open>simp_all add: drive_select_def inb_hw_def outb_hw_def Let_def split_beta look_def d0_def\<close>)
qed

lemma wait_serving:
  assumes drv: "pio_drive io dev D delay disk" and "serving D n ws (hw w)" "n + 1 < fuel" "st AND BSY \<noteq> 0"
  shows "\<exists>st' d'. wait_not_busy io (abase dev + 7) fuel st w = Inr (st', w\<lparr>hw := d'\<rparr>) \<and> serving D 0 ws d'"
  using assms(2-)
proof (induction n arbitrary: fuel st w)
  case 0
  then obtain f where "fuel = Suc (Suc f)" by (cases fuel; cases "fuel - 1") auto
  moreover note pio_serving(1,2) [OF drv 0(1)]
  ultimately show ?case using 0(3) by (auto simp: inb_hw_def split_beta Let_def)
next
  case (Suc n)
  then obtain f where f: "fuel = Suc f" "n + 1 < f" by (cases fuel) auto
  note s = pio_busy [OF drv Suc.prems(1)]
  have "\<exists>st' d'. wait_not_busy io (abase dev + 7) f (fst (io_inb io (abase dev + 7) (hw w))) (w\<lparr>hw := snd (io_inb io (abase dev + 7) (hw w))\<rparr>) =
      Inr (st', w\<lparr>hw := d'\<rparr>) \<and> serving D 0 ws d'"
    using Suc.IH [of "w\<lparr>hw := snd (io_inb io (abase dev + 7) (hw w))\<rparr>" f] s f(2) by simp
  then show ?case using Suc.prems(3) f(1) by (simp add: inb_hw_def split_beta Let_def)
qed

lemma wait_ready:
  assumes drv: "pio_drive io dev D delay disk" and s: "serving D n ws (hw w)" "n + 1 < fuel"
  obtains st' d' where
    "(case inb_hw io (abase dev + 7) w of (st, w) \<Rightarrow> wait_not_busy io (abase dev + 7) fuel st w) = Inr (st', w\<lparr>hw := d'\<rparr>)"
    "serving D 0 ws d'"
proof (cases n)
  case 0
  note pio_serving(1,2) [OF drv s(1) [unfolded 0]]
  moreover obtain f where "fuel = Suc f" using s(2) by (cases fuel) auto
  ultimately show ?thesis by (intro that) (simp_all add: inb_hw_def split_beta Let_def)
next
  case (Suc k)
  let ?w = "w\<lparr>hw := snd (io_inb io (abase dev + 7) (hw w))\<rparr>"
  have "serving D k ws (hw ?w)" "fst (io_inb io (abase dev + 7) (hw w)) AND BSY \<noteq> 0"
    using pio_busy [OF drv s(1) [unfolded Suc]] by simp_all
  then obtain st' d' where "wait_not_busy io (abase dev + 7) fuel (fst (io_inb io (abase dev + 7) (hw w))) ?w = Inr (st', ?w\<lparr>hw := d'\<rparr>)"
      "serving D 0 ws d'"
    using wait_serving [OF drv] s(2) Suc by (metis Suc_eq_plus1 Suc_lessD)
  then show ?thesis by (intro that [of st' d']) (simp_all add: inb_hw_def split_beta Let_def)
qed

lemma read_words_serving:
  assumes drv: "pio_drive io dev D delay disk" and "serving D 0 ws (hw w)" "n \<le> length ws" "2 * n < 2 ^ 64"
  shows "\<exists>d'. read_words io (abase dev) dst n w =
      w\<lparr>kmem := write_mem (kmem w) dst (concat (map (split_le 2) (take n ws))), hw := d'\<rparr> \<and> serving D 0 (drop n ws) d'"
  using assms(2-)
proof (induction n arbitrary: dst ws w)
  case 0
  then show ?case by (intro exI [of _ "hw w"]) simp
next
  case (Suc n)
  then obtain v vs where ws: "ws = v # vs" by (cases ws) auto
  let ?r = "io_inw io (abase dev) (hw w)"
  have r: "serving D 0 vs (snd ?r)" "fst ?r = v" using pio_serving(4,5) [OF drv Suc.prems(1)] ws by simp_all
  let ?w = "w\<lparr>hw := snd ?r, kmem := write_mem (kmem w) dst (split_le 2 v)\<rparr>"
  obtain d' where d': "read_words io (abase dev) (dst + 2) n ?w =
      ?w\<lparr>kmem := write_mem (kmem ?w) (dst + 2) (concat (map (split_le 2) (take n vs))), hw := d'\<rparr>" "serving D 0 (drop n vs) d'"
    using Suc.IH [of vs ?w "dst + 2"] r(1) Suc.prems(2,3) ws by auto
  have "length (concat (map (split_le 2) (take n vs))) = 2 * n" 
    using Suc.prems(2) ws by (simp add: length_concat comp_def sum_list_triv)
  then have "write_mem (kmem ?w) (dst + 2) (concat (map (split_le 2) (take n vs))) =
      write_mem (kmem w) dst (split_le 2 v @ concat (map (split_le 2) (take n vs)))"
    using write_mem_append [of "split_le 2 v" "concat (map (split_le 2) (take n vs))" "kmem w" dst] Suc.prems(3) by simp
  with d' r show ?case by (auto simp: inw_hw_def split_beta Let_def ws)
qed

lemma drain_serving:
  assumes drv: "pio_drive io dev D delay disk" and "serving D 0 ws (hw w)" "length ws + 1 < fuel" "st AND DRQ \<noteq> 0"
  shows "\<exists>d'. drain_drq io (abase dev) fuel st w = Inr (w\<lparr>hw := d'\<rparr>) \<and> idle D d'"
  using assms(2-)
proof (induction fuel arbitrary: ws st w)
  case 0
  then show ?case by simp
next
  case (Suc f)
  let ?r = "io_inb io (abase dev + 7) (hw w)" let ?q = "io_inw io (abase dev) (snd ?r)"
  note r = pio_serving(1,3) [OF drv Suc.prems(1)]
  note q = pio_serving(4) [OF drv r(1)]
  have step: "drain_drq io (abase dev) (Suc f) st w = drain_drq io (abase dev) f (fst ?r) (w\<lparr>hw := snd ?q\<rparr>)"
    using Suc.prems(3) by (simp add: inb_hw_def inw_hw_def split_beta Let_def)
  show ?case
  proof (cases "ws = []")
    case True
    then have "idle D (snd ?q)" using pio_done(1) [OF drv] q by simp
    moreover obtain g where "f = Suc g" using Suc.prems(2) by (cases f) auto
    ultimately show ?thesis using r(2) True unfolding step by auto
  next
    case False
    then show ?thesis using Suc.IH [of "tl ws" "w\<lparr>hw := snd ?q\<rparr>" "fst ?r"] q r(2) Suc.prems(2) unfolding step by (cases ws) auto
  qed
qed


lemma drain_ready:
  assumes drv: "pio_drive io dev D delay disk" and s: "serving D 0 ws (hw w)" "length ws + 1 < fuel"
  obtains d' where "(case inb_hw io (abase dev + 7) w of (st, w) \<Rightarrow> drain_drq io (abase dev) fuel st w) = Inr (w\<lparr>hw := d'\<rparr>)" "idle D d'"
proof -
  let ?r = "io_inb io (abase dev + 7) (hw w)"
  note r = pio_serving(1,3) [OF drv s(1)]
  show ?thesis
  proof (cases "ws = []")
    case True
    then show ?thesis using pio_done(1) [OF drv, of "snd ?r"] r s(2)
      by (cases fuel) (auto simp: inb_hw_def split_beta Let_def intro: that)
  next
    case False
    then obtain d' where "drain_drq io (abase dev) fuel (fst ?r) (w\<lparr>hw := snd ?r\<rparr>) = Inr (w\<lparr>hw := d'\<rparr>)" "idle D d'"
      using drain_serving [OF drv, of ws "w\<lparr>hw := snd ?r\<rparr>" fuel "fst ?r"] r s(2) by auto
    then show ?thesis by (intro that) (simp_all add: inb_hw_def split_beta Let_def)
  qed
qed

lemma length_le_words: "length (le_words bs) = length bs div 2"
  by (induction bs rule: le_words.induct) simp_all

lemma bytes_of_words: "even (length bs) \<Longrightarrow> concat (map (split_le 2) (take n (le_words bs))) = take (2 * n) bs"
proof (induction bs arbitrary: n rule: le_words.induct)
  case (1 a b bs)
  have "split_le (length [a, b]) (join_le [a, b] :: u16) = [a, b]" by (rule split_join_le) simp
  moreover have "length [a, b] = 2" by simp
  ultimately have "split_le 2 (join_le [a, b] :: u16) = [a, b]" by (simp only:)
  with 1 show ?case by (cases n) (simp_all only: le_words.simps take_Suc_Cons list.map concat.simps, simp_all)
qed auto

lemma join_lba: "join_le [byte_at x 0, byte_at x 1, byte_at x 2, byte_at x 3, byte_at x 4, byte_at x 5] = x" if "x < 2 ^ 48" for x :: u64
proof (rule bit_word_eqI)
  fix k assume k: "k < LENGTH(64)"
  have l: "[byte_at x 0, byte_at x 1, byte_at x 2, byte_at x 3, byte_at x 4, byte_at x 5] = split_le 6 x"
    by (simp add: split_le_def upt_rec eval_nat_numeral)
  have "\<not> bit x k" if "48 \<le> k"
  proof -
    have "take_bit 48 (uint x) = uint x"
      using \<open>x < 2 ^ 48\<close> by (intro take_bit_int_eq_self) (simp_all add: word_less_def)
    then have "\<not> bit (uint x) k" using that by (metis bit_take_bit_iff not_le)
    then show ?thesis using k by (simp add: bit_uint_iff)
  qed
  moreover have "k div 8 < 6 \<longleftrightarrow> k < 48" by linarith
  ultimately show "bit (join_le [byte_at x 0, byte_at x 1, byte_at x 2, byte_at x 3, byte_at x 4, byte_at x 5] :: u64) k \<longleftrightarrow> bit x k"
    unfolding l using k by (auto simp: bit_join_le bit_byte_at)
qed

lemma one_sector:
  assumes "0 < sz" "sz \<le> (512 :: u64)"
  shows "(let n = (ucast (sz div 512) :: u16) in if sz mod 512 \<noteq> 0 then n + 1 else n) = 1"
proof (cases "sz = 512")
  case False
  with assms have l: "sz < 512" by simp
  then have "sz div 512 = 0" "sz mod 512 = sz" by (auto simp: div_word_less mod_word_less)
  with assms show ?thesis by simp
qed simp

text \<open>The register writes of \<open>read_sector\<close> start the transfer of the sector asked for.\<close>

lemma read_command_serves:
  assumes drv: "pio_drive io dev D delay disk" and i: "idle D (hw w)" and sz: "0 < sz" "sz \<le> 512" and lba: "lba < 2 ^ 48"
  obtains n d' where "outs_hw io (read_command dev lba sz) w = w\<lparr>hw := d'\<rparr>" "n \<le> delay" "serving D n (le_words (disk lba)) d'"
proof -
  note reg = pio_register [OF drv]
  define put where "put = (\<lambda>d r v. io_outb io (abase dev + r) v d)"
  have put: "idle D (put d r v) \<and> dsel D (put d r v) = dsel D d \<and> hob D (put d r v) = (hob D d)(r := (snd (hob D d r), v))"
    if "idle D d" "r \<in> {2, 3, 4, 5}" for d r v
    using reg [OF that] by (simp add: put_def)
  define d0 where "d0 = put (hw w) 6 (0x40 OR (if ams dev = Slave then 0x10 else 0))"
  have d0: "idle D d0" "dsel D d0 = 0x40 OR (if ams dev = Slave then 0x10 else 0)"
    using pio_idle(3,4) [OF drv i] by (simp_all add: d0_def put_def)
  define d1 where "d1 = put (put (put (put d0 2 0) 3 (byte_at lba 3)) 4 (byte_at lba 4)) 5 (byte_at lba 5)"
  have d1: "idle D d1" "dsel D d1 = dsel D d0"
      "snd (hob D d1 2) = 0" "snd (hob D d1 3) = byte_at lba 3" "snd (hob D d1 4) = byte_at lba 4" "snd (hob D d1 5) = byte_at lba 5"
    by (simp_all add: d1_def put d0(1))
  define d2 where "d2 = put (put (put (put d1 2 1) 3 (byte_at lba 0)) 4 (byte_at lba 1)) 5 (byte_at lba 2)"
  have d2: "idle D d2" "dsel D d2 = dsel D d0" "hob D d2 2 = (0, 1)" "hob_lba (hob D d2) = lba"
    using join_lba [OF lba] d1 by (simp_all add: d2_def put hob_lba_def del: join_le.simps)
  obtain n where n: "n \<le> delay" "serving D n (le_words (disk (hob_lba (hob D d2)))) (put d2 7 0x24)"
    using pio_command [OF drv d2(1) _ d2(3)] d2(2) d0(2) unfolding put_def by metis
  have "outs_hw io (read_command dev lba sz) w = w\<lparr>hw := put d2 7 0x24\<rparr>"
    using one_sector [OF sz] by (simp add: outs_hw_eq read_command_def Let_def d2_def d1_def d0_def put_def)
  then show ?thesis using n unfolding d2(4) by (rule that)
qed

lemma read_sector_served:
  assumes drv: "pio_drive io dev D delay disk" and dev: "p \<noteq> 0" "ata_devs w p = Some dev" and i: "idle D (hw w)"
    and sz: "0 < sz" "sz \<le> 512" and lba: "lba < 2 ^ 48" and fuel: "delay + 259 < fuel"
  obtains d' where "read_sector io fuel p lba buf sz w =
      Inr (0, w\<lparr>kmem := write_mem (kmem w) buf (take (2 * (unat sz div 2)) (disk lba)), hw := d'\<rparr>)" "idle D d'"
proof -
  let ?n = "unat (sz div 2)"
  have n: "?n = unat sz div 2" "?n \<le> 256" using sz(2) by (simp_all add: unat_div word_le_nat_alt)
  obtain st d1 where d1: "drive_select io dev w = (st, w\<lparr>hw := d1\<rparr>)" "idle D d1" "st AND 0x89 = 0"
    by (rule select_idle [OF drv i])
  obtain k d2 where d2: "outs_hw io (read_command dev lba sz) (w\<lparr>hw := d1\<rparr>) = w\<lparr>hw := d2\<rparr>" "k \<le> delay"
      "serving D k (le_words (disk lba)) d2"
    by (rule read_command_serves [OF drv, where w = "w\<lparr>hw := d1\<rparr>" and sz = sz and lba = lba]) (use d1(2) sz lba in simp_all)
  have s2: "serving D k (le_words (disk lba)) (hw (w\<lparr>hw := d2\<rparr>))" "k + 1 < fuel" using d2 fuel by simp_all
  obtain st2 d3 where d3: "(case inb_hw io (abase dev + 7) (w\<lparr>hw := d2\<rparr>) of (st, w) \<Rightarrow> wait_not_busy io (abase dev + 7) fuel st w)
      = Inr (st2, w\<lparr>hw := d3\<rparr>)" "serving D 0 (le_words (disk lba)) d3"
    using wait_ready [OF drv s2] by auto
  let ?m = "write_mem (kmem w) buf (take (2 * ?n) (disk lba))" let ?ws = "le_words (disk lba)"
  have l: "length ?ws = 256" "even (length (disk lba))" using pio_done(2) [OF drv] by (simp_all add: length_le_words)
  obtain d4 where d4: "read_words io (abase dev) buf ?n (w\<lparr>hw := d3\<rparr>) = w\<lparr>kmem := ?m, hw := d4\<rparr>" "serving D 0 (drop ?n ?ws) d4"
    using read_words_serving [OF drv, of ?ws "w\<lparr>hw := d3\<rparr>" ?n buf] d3(2) n(2) l bytes_of_words [OF l(2), of ?n] by auto
  obtain d5 where d5: "(case inb_hw io (abase dev + 7) (w\<lparr>kmem := ?m, hw := d4\<rparr>) of (st, w) \<Rightarrow> drain_drq io (abase dev) fuel st w)
      = Inr (w\<lparr>kmem := ?m, hw := d5\<rparr>)" "idle D d5"
    by (rule drain_ready [OF drv, where ws = "drop ?n ?ws" and w = "w\<lparr>kmem := ?m, hw := d4\<rparr>" and fuel = fuel])
      (use d4(2) l(1) fuel in \<open>simp_all\<close>)
  have "read_sector io fuel p lba buf sz w = Inr (0, w\<lparr>kmem := ?m, hw := d5\<rparr>)"
    using dev d1(1) and_mask_zero [OF d1(3)] d2(1) d3(1) d4(1) d5(1)
    by (simp add: read_sector_def deref_def split_beta Let_def)
  then show ?thesis using d5(2) unfolding n(1) by (rule that)
qed


text \<open>The driver is a storage device for the FAT32 reader.\<close>

definition ata_ready ::
  "'d port_io \<Rightarrow> nat \<Rightarrow> 'd drive \<Rightarrow> nat \<Rightarrow> (u64 \<Rightarrow> u8 list) \<Rightarrow> u64 \<Rightarrow> ('d, 'a) hworld_scheme \<Rightarrow> bool" where
  "ata_ready io fuel D delay disk p w \<longleftrightarrow> delay + 259 < fuel \<and> p \<noteq> 0 \<and> idle D (hw w) \<and>
     (case ata_devs w p of None \<Rightarrow> False | Some dev \<Rightarrow> pio_drive io dev D delay disk)"

lemma ata_readyE:
  assumes "ata_ready io fuel D delay disk p w"
  obtains dev where "pio_drive io dev D delay disk" "p \<noteq> 0" "ata_devs w p = Some dev" "idle D (hw w)" "delay + 259 < fuel"
  using assms by (auto simp: ata_ready_def split: option.splits)

interpretation ata_disk: storage "read_sector io fuel"
    "ata_ready io fuel D delay disk :: u64 \<Rightarrow> ('d, 'a) hworld_scheme \<Rightarrow> bool" disk
  for io :: "'d port_io" and fuel D delay disk
proof unfold_locales
  fix p :: u64 and w :: "('d, 'a) hworld_scheme" and sz lba buf :: u64
  assume rdy: "ata_ready io fuel D delay disk p w" and sz: "0 < sz" "sz \<le> 512" and lba: "lba < 2 ^ 48"
  obtain dev where d: "pio_drive io dev D delay disk" "p \<noteq> 0" "ata_devs w p = Some dev" "idle D (hw w)" "delay + 259 < fuel"
    using rdy by (rule ata_readyE)
  let ?m = "write_mem (kmem w) buf (take (2 * (unat sz div 2)) (disk lba))"
  obtain d' where r: "read_sector io fuel p lba buf sz w = Inr (0, w\<lparr>kmem := ?m, hw := d'\<rparr>)" "idle D d'"
    by (rule read_sector_served [OF d(1-4) sz lba d(5)])
  have "ata_ready io fuel D delay disk p (w\<lparr>kmem := ?m, hw := d'\<rparr>)" "same_kernel (w\<lparr>kmem := ?m\<rparr>) (w\<lparr>kmem := ?m, hw := d'\<rparr>)"
    using d r(2) by (simp_all add: ata_ready_def same_kernel_def fworld.defs)
  with r(1) show "\<exists>w'. read_sector io fuel p lba buf sz w = Inr (0, w') \<and> ata_ready io fuel D delay disk p w' \<and>
      same_kernel (w\<lparr>kmem := ?m\<rparr>) w'" by blast
next
  fix p :: u64 and w :: "('d, 'a) hworld_scheme" and m
  show "ata_ready io fuel D delay disk p (w\<lparr>kmem := m\<rparr>) = ata_ready io fuel D delay disk p w" by (simp add: ata_ready_def)
next
  fix p lba :: u64 and w :: "('d, 'a) hworld_scheme"
  assume "ata_ready io fuel D delay disk p w"
  then show "length (disk lba) = 512" by (rule ata_readyE) (rule pio_done(2))
qed

text \<open>
  C12. \<open>read_sector\<close> on an idle drive writes the LBA into the registers in the right order, waits
  for the drive for as long as it is busy, copies the start of that sector to the buffer, changes
  no other memory and leaves the drive idle, for every size up to a sector. Words are
  copied, so the last byte of an odd size is not.
\<close>

theorem ata_read_sector:
  assumes "pio_drive io dev D delay disk" "p \<noteq> 0" "ata_devs w p = Some dev" "idle D (hw w)"
    and "0 < sz" "sz \<le> 512" "lba < 2 ^ 48" "delay + 259 < fuel"
  shows "\<exists>d'. read_sector io fuel p lba buf sz w =
      Inr (0, w\<lparr>kmem := write_mem (kmem w) buf (take (2 * (unat sz div 2)) (disk lba)), hw := d'\<rparr>) \<and> idle D d'"
  by (rule read_sector_served [OF assms]) blast

text \<open>A small simulated drive on the primary bus: it is busy for two looks at its status.\<close>

record sim =
  sim_busy :: nat
  sim_queue :: "u16 list"
  sim_hob :: "u16 \<Rightarrow> u8 \<times> u8"
  sim_sel :: u8

definition sim_io :: "(u64 \<Rightarrow> u8 list) \<Rightarrow> sim port_io" where
  "sim_io disk = \<lparr>
     io_inb = (\<lambda>p d. if p = 0x1f7 then (if 0 < sim_busy d then (0x80, d\<lparr>sim_busy := sim_busy d - 1\<rparr>)
         else (if sim_queue d = [] then 0x50 else 0x58, d)) else (0x50, d)),
     io_inw = (\<lambda>p d. (if sim_queue d = [] then 0 else hd (sim_queue d), d\<lparr>sim_queue := tl (sim_queue d)\<rparr>)),
     io_inl = (\<lambda>p d. (0, d)),
     io_outb = (\<lambda>p v d. if p = 0x1f7 then d\<lparr>sim_busy := 2, sim_queue := le_words (disk (hob_lba (sim_hob d)))\<rparr>
         else if p = 0x1f6 then d\<lparr>sim_sel := v\<rparr>
         else d\<lparr>sim_hob := (sim_hob d)(p - 0x1f0 := (snd (sim_hob d (p - 0x1f0)), v))\<rparr>),
     io_outw = (\<lambda>p v d. d)\<rparr>"

definition sim_drive :: "sim drive" where
  "sim_drive = \<lparr>idle = (\<lambda>d. sim_busy d = 0 \<and> sim_queue d = []), serving = (\<lambda>n ws d. sim_busy d = n \<and> sim_queue d = ws),
     hob = sim_hob, dsel = sim_sel\<rparr>"

definition sim_device :: AtaDevice where
  "sim_device = \<lparr>abus = 0, abase = 0x1f0, actrl = 0x3f6, ams = Master, atype = Some ''ATA'', lba48 = 1, lba28Sectors = 0, lba48Sectors = 9\<rparr>"

lemma sim_pio: "(\<And>l. length (disk l) = 512) \<Longrightarrow> pio_drive (sim_io disk) sim_device sim_drive 2 disk"
  unfolding pio_drive_def by (intro conjI allI impI) (auto simp: sim_io_def sim_drive_def sim_device_def)

definition demo_hw :: "sim hworld" where
  "demo_hw = cworld.extend demo_clock \<lparr>processes = Map.empty,
     hw = \<lparr>sim_busy = 0, sim_queue = [], sim_hob = (\<lambda>_. (0, 0)), sim_sel = 0\<rparr>, ata_devs = [8 \<mapsto> sim_device]\<rparr>"

lemma demo_hw_fields: "hw demo_hw = \<lparr>sim_busy = 0, sim_queue = [], sim_hob = (\<lambda>_. (0, 0)), sim_sel = 0\<rparr>"
  "ata_devs demo_hw = [8 \<mapsto> sim_device]"
  by (simp_all add: demo_hw_def cworld.defs)

theorem ata_read_sector_witness:
  "\<exists>d'. read_sector (sim_io (\<lambda>l. replicate 512 (ucast l))) 262 8 5 4096 7 demo_hw =
     Inr (0, demo_hw\<lparr>kmem := write_mem (kmem demo_hw) 4096 [5, 5, 5, 5, 5, 5], hw := d'\<rparr>)"
proof -
  let ?disk = "\<lambda>l :: u64. replicate 512 (ucast l :: u8)"
  have i: "idle sim_drive (hw demo_hw)" by (simp add: demo_hw_fields sim_drive_def)
  have "take (2 * (unat (7 :: u64) div 2)) (?disk 5) = replicate 6 5"
    by (simp add: take_replicate)
  also have "\<dots> = [5, 5, 5, 5, 5, 5]" by (simp add: numeral_eq_Suc)
  finally have t: "take (2 * (unat (7 :: u64) div 2)) (?disk 5) = [5, 5, 5, 5, 5, 5]" .
  have "\<exists>d'. read_sector (sim_io ?disk) 262 8 5 4096 7 demo_hw =
      Inr (0, demo_hw\<lparr>kmem := write_mem (kmem demo_hw) 4096 (take (2 * (unat (7 :: u64) div 2)) (?disk 5)), hw := d'\<rparr>) \<and> idle sim_drive d'"
    by (rule ata_read_sector [OF sim_pio _ _ i]) (simp_all add: demo_hw_fields)
  then show ?thesis unfolding t by blast
qed

end
