(* ===== verification/Disk.thy ===== *)
theory Disk
  imports Ata
begin

text \<open>
  The disk stack put together: \<open>read\<close> of vfs.c calls the FAT32 file system through the pointers in
  its \<open>file_system\<close>, and that reads sectors with the ATA driver.
\<close>

unbundle bit_operations_syntax

text \<open>Calls through the function pointers of a \<open>file_system\<close>.\<close>

definition kernel_fs :: "'d port_io \<Rightarrow> nat \<Rightarrow> fat_addrs \<Rightarrow> ('d, 'a) hworld_scheme fs_env" where
  "kernel_fs io fuel fa = \<lparr>
     exists_call = (\<lambda>fn fs filename w. if fn = fat_exists_fn fa then fat_exists (read_sector io fuel) (fat_sp fa) fs filename w
       else Inl (Fault (BadPointer fn))),
     slurp_call = (\<lambda>fn fs filename buf sz w. if fn = fat_slurp_fn fa then fat_slurp (read_sector io fuel) (fat_sp fa) fs filename buf sz w
       else Inl (Fault (BadPointer fn)))\<rparr>"

text \<open>A FAT32 volume in memory at \<open>dev\<close>, on a drive, and the file name \<open>f\<close> at \<open>filename\<close>; the stack is elsewhere.\<close>

definition volume ::
  "'d port_io \<Rightarrow> nat \<Rightarrow> 'd drive \<Rightarrow> nat \<Rightarrow> (u64 \<Rightarrow> u8 list) \<Rightarrow> fat_addrs \<Rightarrow> u64 \<Rightarrow> u64 \<Rightarrow> u8 list \<Rightarrow> ('d, 'a) hworld_scheme \<Rightarrow> bool" where
  "volume io fuel D delay disk fa dev filename f w \<longleftrightarrow>
     ata_ready io fuel D delay disk (fat_store (kmem w) dev) w \<and>
     load64 (kmem w) dev = fat_exists_fn fa \<and> load64 (kmem w) (dev + 8) = fat_slurp_fn fa \<and>
     cstr (kmem w) filename 13 = f \<and> fat_sp fa \<noteq> 0 \<and> unat (fat_sp fa) + 557 < 2 ^ 64 \<and>
     separate filename 13 (fat_sp fa) 557 \<and> separate dev 536 (fat_sp fa) 557 \<and>
     dir_ok (sector_entries (disk (root_lba (kmem w) dev)))"

lemma volume_stack:
  assumes v: "volume io fuel D delay disk fa dev filename f w"
    and s: "same_kernel (w\<lparr>kmem := write_mem (kmem w) (fat_sp fa) W\<rparr>) w'" "length W \<le> 557"
    and r: "ata_ready io fuel D delay disk (fat_store (kmem w) dev) w'"
  shows "volume io fuel D delay disk fa dev filename f w'" "fat_store (kmem w') dev = fat_store (kmem w) dev"
    "lbaOfCluster (kmem w') dev = lbaOfCluster (kmem w) dev" "bs_rootCluster (kmem w') dev = bs_rootCluster (kmem w) dev"
proof -
  note v' = v [unfolded volume_def]
  have m: "kmem w' = write_mem (kmem w) (fat_sp fa) W" using same_kernelD(1) [OF s(1)] by simp
  have d: "read_mem (kmem w') dev 536 = read_mem (kmem w) dev 536"
    unfolding m using read_write_inside [of dev 536 "fat_sp fa" 557 0 W] v' s(2) by simp
  have f: "read_mem (kmem w') filename 13 = read_mem (kmem w) filename 13"
    unfolding m using read_write_inside [of filename 13 "fat_sp fa" 557 0 W] v' s(2) by simp
  have l: "load64 (kmem w') (dev + of_nat k) = load64 (kmem w) (dev + of_nat k)" if "k + 8 \<le> 536" for k
    using read_mem_slice [OF that, of "kmem w'" dev] read_mem_slice [OF that, of "kmem w" dev] d unfolding load64_def by simp
  show c: "fat_store (kmem w') dev = fat_store (kmem w) dev" "lbaOfCluster (kmem w') dev = lbaOfCluster (kmem w) dev"
      "bs_rootCluster (kmem w') dev = bs_rootCluster (kmem w) dev"
    using d by (rule fat_device_cong)+
  show "volume io fuel D delay disk fa dev filename f w'"
    using v' r l [of 0] l [of 8] by (simp add: volume_def c f)
qed

lemma fat_exists_volume:
  assumes v: "volume io fuel D delay disk fa dev filename f w"
  obtains w' where "fat_exists (read_sector io fuel) (fat_sp fa) dev filename w =
      Inr (if dir_find f (sector_entries (disk (root_lba (kmem w) dev))) = None then ENOTFOUND else EOK, w')"
    "volume io fuel D delay disk fa dev filename f w'" "nodes w' = nodes w"
    "lbaOfCluster (kmem w') dev = lbaOfCluster (kmem w) dev" "bs_rootCluster (kmem w') dev = bs_rootCluster (kmem w) dev"
proof -
  note v' = v [unfolded volume_def]
  let ?S = "disk (root_lba (kmem w) dev)"
  have rdy: "ata_ready io fuel D delay disk (fat_store (kmem w) dev) w" using v' by simp
  have S: "length ?S = 512" using rdy by (rule ata_disk.sector_length)
  have s: "separate filename 13 (fat_sp fa) 525" using v' by (auto simp: separate_def)
  obtain V w' where V: "length V = 13" and r: "ata_ready io fuel D delay disk (fat_store (kmem w) dev) w'"
      "fat_find (read_sector io fuel) (fat_sp fa) dev filename 0 w = Inr (if dir_find f (sector_entries ?S) = None then ENOTFOUND else EOK, w')"
      "same_kernel (w\<lparr>kmem := write_mem (kmem w) (fat_sp fa) (?S @ V)\<rparr>) w'"
    by (rule ata_disk.find_served [OF rdy _ s, where f = f and buf = 0])
      (use v' in \<open>auto split: option.splits\<close>)
  note vs = volume_stack [OF v r(3) _ r(1)]
  show ?thesis
    by (rule that [OF _ vs(1)]) (use S V r(2) vs(3,4) same_kernelD(2) [OF r(3)] in \<open>auto simp: fat_exists_def\<close>)
qed


lemma fat_slurp_volume:
  assumes v: "volume io fuel D delay disk fa dev filename f w"
    and dir: "dir_find f (sector_entries (disk (root_lba (kmem w) dev))) = Some e"
    and fl: "e ! 11 = 0x20" "0 < file_size e" "0 < sz" "sz \<le> 512"
  obtains w' n where "fat_slurp (read_sector io fuel) (fat_sp fa) dev filename buf sz w = Inr (int n, w')"
    "n = min (unat sz) (unat (file_size e))"
    "read_mem (kmem w') buf (2 * (n div 2)) = take (2 * (n div 2)) (disk (ucast (lbaOfCluster (kmem w) dev (file_cluster e))))"
proof -
  note v' = v [unfolded volume_def]
  show ?thesis
    by (rule ata_disk.slurp_file [where w = w and dev = dev and sp = "fat_sp fa" and f = f and e = e and sz = sz and buf = buf and
          filename = filename and io = io and fuel = fuel and D = D and delay = delay and disk = disk])
      (use v' dir fl in \<open>auto intro: that\<close>)
qed

text \<open>
  C3. Reading a file through the kernel's layers: \<open>read\<close> of a file name, with one FAT32 volume on an
  ATA drive registered (the only file system) and a buffer of at most 512 bytes, looks the name up among the
  first 16 entries of the root directory, its first sector: the code looks no further. A plain file found there
  is read: the result is the smaller of the buffer and file sizes, and the buffer gets that many of the first
  bytes of the file's first sector, less the last byte of an odd count, which the driver does not copy. A name
  that is not among these entries gives \<open>ENOTFOUND\<close>, also when a later sector of the directory has it.
\<close>

theorem vfs_read_file:
  fixes w :: "('d, 'a) hworld_scheme"
  assumes vol: "volume io fuel D delay disk fa dev filename f w"
    and nd: "lhead (file_systems w) = nd" "nd \<noteq> 0" "nodes w nd = Some \<lparr>prev = 0, nxt = 0, payload = dev\<rparr>"
    and sz: "0 < sz" "sz \<le> 512"
  shows "case dir_find f (sector_entries (disk (root_lba (kmem w) dev))) of
      None \<Rightarrow> \<exists>w'. vfs_read (kernel_fs io fuel fa) filename buf sz w = Inr (ENOTFOUND, w')
    | Some e \<Rightarrow> e ! 11 = 0x20 \<and> 0 < file_size e \<longrightarrow>
        (\<exists>w'. let n = min (unat sz) (unat (file_size e))
          in vfs_read (kernel_fs io fuel fa) filename buf sz w = Inr (int n, w') \<and>
             read_mem (kmem w') buf (2 * (n div 2)) =
               take (2 * (n div 2)) (disk (ucast (lbaOfCluster (kmem w) dev (file_cluster e)))))"
proof -
  let ?E = "sector_entries (disk (root_lba (kmem w) dev))" and ?K = "kernel_fs io fuel fa"
  obtain w1 where w1: "fat_exists (read_sector io fuel) (fat_sp fa) dev filename w =
      Inr (if dir_find f ?E = None then ENOTFOUND else EOK, w1)"
    "volume io fuel D delay disk fa dev filename f w1" "nodes w1 = nodes w"
    "lbaOfCluster (kmem w1) dev = lbaOfCluster (kmem w) dev" "bs_rootCluster (kmem w1) dev = bs_rootCluster (kmem w) dev"
    by (rule fat_exists_volume [OF vol])
  have ptr: "load64 (kmem w) dev = fat_exists_fn fa" "load64 (kmem w1) (dev + 8) = fat_slurp_fn fa"
    using vol w1(2) by (simp_all add: volume_def)
  obtain k where k: "walk_fuel = Suc k" using walk_fuel_pos by (cases walk_fuel) auto
  have step: "vfs_read ?K filename buf sz w = (if dir_find f ?E = None then Inr (ENOTFOUND, w1)
      else fat_slurp (read_sector io fuel) (fat_sp fa) dev filename buf sz w1)"
    using nd w1(1,3) ptr by (simp add: vfs_read_def k vfs_walk.simps deref_def kernel_fs_def layout)
  show ?thesis
  proof (cases "dir_find f ?E")
    case None
    then show ?thesis unfolding step by simp
  next
    case (Some e)
    show ?thesis
    proof (cases "e ! 11 = 0x20 \<and> 0 < file_size e")
      case True
      then obtain w' n where "fat_slurp (read_sector io fuel) (fat_sp fa) dev filename buf sz w1 = Inr (int n, w')"
        "n = min (unat sz) (unat (file_size e))"
        "read_mem (kmem w') buf (2 * (n div 2)) = take (2 * (n div 2)) (disk (ucast (lbaOfCluster (kmem w1) dev (file_cluster e))))"
        using fat_slurp_volume [OF w1(2), of e sz buf] Some sz w1(4,5) by (metis)
      then show ?thesis unfolding step using Some w1(4) by (auto simp: Let_def)
    qed (use Some in auto)
  qed
qed


text \<open>
  A volume with one file on the simulated drive: one sector per cluster, the root directory in
  cluster 2 (sector 0) and the file in cluster 3 (sector 1).
\<close>

definition sim_entry :: "u8 list" where
  "sim_entry = str ''MOD     TXT'' @ [0x20] @ replicate 14 0 @ [3, 0, 5, 0, 0, 0]"

definition sim_disk :: "u64 \<Rightarrow> u8 list" where
  "sim_disk l = (if l = 0 then sim_entry @ replicate 480 0 else if l = 1 then str ''Hello'' @ replicate 507 0 else replicate 512 0)"

definition sim_addrs :: fat_addrs where
  "sim_addrs = \<lparr>fat_lit = 0x900, fat_exists_fn = 0x10, fat_slurp_fn = 0x20, fat_sp = 0x4000\<rparr>"

definition sim_mem :: mem where
  "sim_mem = write_mem (\<lambda>a. if a = 0x2000 then 0x10 else if a = 0x2008 then 0x20 else if a = 0x201d then 1 else if a = 0x203c then 2
     else if a = 0x2210 then 8 else 0) 0x1000 (str ''MOD.TXT'')"

definition demo_fs :: "sim hworld" where
  "demo_fs = demo_hw\<lparr>kmem := sim_mem, file_systems := \<lparr>lhead = 0x100, ltail = 0x100\<rparr>,
     nodes := [0x100 \<mapsto> \<lparr>prev = 0, nxt = 0, payload = 0x2000\<rparr>]\<rparr>"

lemma sim_entry_name: "entry_ok sim_entry" "entry_name sim_entry = str ''MOD.TXT''"
proof -
  have b: "entry_base sim_entry = str ''MOD''" "entry_ext sim_entry = str ''TXT''" "take 8 sim_entry = str ''MOD     ''"
    by (simp_all add: entry_base_def entry_ext_def sim_entry_def str_def)
  have r: "replicate 5 x = [x, x, x, x, x]" for x :: u8 by (simp add: numeral_eq_Suc)
  show "entry_ok sim_entry" unfolding entry_ok_def b by (simp add: str_def r)
  have "name_bytes (str ''MOD'') (str ''TXT'') = str ''MOD'' @ [46] @ str ''TXT'' @ replicate (9 - length (str ''MOD'')) 0"
    by (rule name_bytes_full) (simp_all add: str_def)
  then show "entry_name sim_entry = str ''MOD.TXT''" unfolding entry_name_def b by (simp add: str_def takeWhile_append)
qed

lemma sim_dir: "dir_ok (sector_entries (sim_disk 0))" "dir_find (str ''MOD.TXT'') (sector_entries (sim_disk 0)) = Some sim_entry"
proof -
  have l: "length sim_entry = 32" by (simp add: sim_entry_def str_def)
  have "sector_entries (sim_disk 0) = map (\<lambda>i. take 32 (drop (32 * i) (sim_disk 0))) (0 # 1 # [2..<16])"
    by (simp add: sector_entries_def upt_rec)
  also have "\<dots> = sim_entry # replicate 32 0 # map (\<lambda>i. take 32 (drop (32 * i) (sim_disk 0))) [2..<16]"
    using l by (simp add: sim_disk_def)
  finally have e: "sector_entries (sim_disk 0) = \<dots>" .
  have "sim_entry ! 0 \<noteq> 0" "\<not> entry_skipped sim_entry" by (simp_all add: sim_entry_def entry_skipped_def str_def)
  then show "dir_ok (sector_entries (sim_disk 0))" "dir_find (str ''MOD.TXT'') (sector_entries (sim_disk 0)) = Some sim_entry"
    unfolding e using sim_entry_name by simp_all
qed


lemma sim_mem_fields:
  "load64 sim_mem 0x2000 = 0x10" "load64 sim_mem 0x2008 = 0x20" "fat_store sim_mem 0x2000 = 8"
  "bs_rootCluster sim_mem 0x2000 = 2" "lbaOfCluster sim_mem 0x2000 c = c - 2" "cstr sim_mem 0x1000 13 = str ''MOD.TXT''"
proof -
  have n: "\<not> unat (a - 0x1000) < length (str ''MOD.TXT'')" if "0x2000 \<le> a" for a :: u64
  proof -
    have "unat (0x2000 :: u64) \<le> unat a" using that by (simp only: word_le_nat_alt)
    then show ?thesis by (simp add: unat_sub_if' str_def)
  qed
  have m: "sim_mem a = (if a = 0x2000 then 0x10 else if a = 0x2008 then 0x20 else if a = 0x201d then 1 else if a = 0x203c then 2
     else if a = 0x2210 then 8 else 0)" if "0x2000 \<le> a" for a
    using n [OF that] by (simp add: sim_mem_def write_mem_def)
  have r: "read_mem sim_mem a 8 = [sim_mem a, sim_mem (a + 1), sim_mem (a + 2), sim_mem (a + 3), sim_mem (a + 4), sim_mem (a + 5),
      sim_mem (a + 6), sim_mem (a + 7)]"
      "read_mem sim_mem a 4 = [sim_mem a, sim_mem (a + 1), sim_mem (a + 2), sim_mem (a + 3)]"
      "read_mem sim_mem a 2 = [sim_mem a, sim_mem (a + 1)]" for a
    by (simp_all add: read_mem_def upt_rec)
  show "load64 sim_mem 0x2000 = 0x10" "load64 sim_mem 0x2008 = 0x20" "fat_store sim_mem 0x2000 = 8"
    "bs_rootCluster sim_mem 0x2000 = 2"
    by (simp_all add: load64_def fat_store_def bs_rootCluster_def load32_def r m)
  show "lbaOfCluster sim_mem 0x2000 c = c - 2"
    by (simp add: lbaOfCluster_def bs_tableSize_def bpb_noFats_def bpb_reservedSectors_def bpb_sectorsPerCluster_def load32_def load16_def r m)
  have "read_mem sim_mem 0x1000 (7 + 6) = str ''MOD.TXT'' @ read_mem sim_mem (0x1000 + of_nat 7) 6"
    unfolding read_mem_add using read_mem_prefix [of "str ''MOD.TXT''" 7] by (simp add: sim_mem_def str_def)
  moreover have "sim_mem 0x1007 = 0" by (simp add: sim_mem_def write_mem_def str_def)
  ultimately show "cstr sim_mem 0x1000 13 = str ''MOD.TXT''" by (simp add: read_mem_Suc [of _ _ 5, simplified] str_def)
qed


lemma demo_volume: "volume (sim_io sim_disk) 262 sim_drive 2 sim_disk sim_addrs 0x2000 0x1000 (str ''MOD.TXT'') demo_fs"
proof -
  have d: "pio_drive (sim_io sim_disk) sim_device sim_drive 2 sim_disk"
    by (rule sim_pio) (simp add: sim_disk_def sim_entry_def str_def)
  have "ata_ready (sim_io sim_disk) 262 sim_drive 2 sim_disk 8 demo_fs"
    using d by (simp add: ata_ready_def demo_fs_def demo_hw_fields sim_drive_def)
  moreover have "kmem demo_fs = sim_mem" by (simp add: demo_fs_def)
  ultimately show ?thesis
    unfolding volume_def using sim_dir(1) by (simp add: sim_mem_fields sim_addrs_def separate_def)
qed

theorem vfs_read_file_witness:
  "\<exists>w'. vfs_read (kernel_fs (sim_io sim_disk) 262 sim_addrs) 0x1000 0x6000 256 demo_fs = Inr (5, w') \<and>
     read_mem (kmem w') 0x6000 4 = str ''Hell''"
proof -
  have f: "lhead (file_systems demo_fs) = 0x100" "nodes demo_fs 0x100 = Some \<lparr>prev = 0, nxt = 0, payload = 0x2000\<rparr>"
      "kmem demo_fs = sim_mem" by (simp_all add: demo_fs_def)
  have r: "replicate 2 x = [x, x]" for x :: u8 by (simp add: numeral_2_eq_2)
  have c: "file_cluster sim_entry = 3" "file_size sim_entry = 5" "sim_entry ! 11 = 0x20"
    by (simp_all add: file_cluster_def file_size_def sim_entry_def str_def r)
  have dir: "dir_find (str ''MOD.TXT'') (sector_entries (sim_disk (root_lba sim_mem 0x2000))) = Some sim_entry"
    using sim_dir(2) by (simp add: sim_mem_fields)
  have t: "take 4 (sim_disk 1) = str ''Hell''" by (simp add: sim_disk_def str_def)
  show ?thesis
    using vfs_read_file [OF demo_volume f(1) _ f(2), where sz = 256 and buf = "0x6000"] c t
    unfolding f(3) dir by (simp add: Let_def sim_mem_fields)
qed

end
