(* ===== verification/Ne2k.thy ===== *)
theory Ne2k
  imports Disk
begin

text \<open>
  The NE2000 driver of src/src/ne2k.c: received frames are copied from the card by the interrupt
  handler and handed to the network stack by a task; frames to send are copied to the card by a
  task. The card is reached through the port parameter \<open>io\<close> of Ata.
\<close>

unbundle bit_operations_syntax

subsection \<open>State\<close>

record PendingSend =
  ps_task :: u64
  ps_data :: u64
  ps_dev :: u64

text \<open>
  A \<open>recv_data\<close> lies in byte memory: \<open>self\<close> at 0 and the buffer at 8. \<open>recv_size\<close> is the length the buffer
  was allocated with, which the C program does not keep.
\<close>

record 'd eworld = "'d hworld" +
  recv_size :: "u64 \<rightharpoonup> nat"
  pending_sends :: "u64 \<rightharpoonup> PendingSend"

definition tx_start_page :: u8 where [layout]: "tx_start_page = 0x40"
definition rx_start_page :: u8 where [layout]: "rx_start_page = 0x4c"
definition stop_page :: u8 where [layout]: "stop_page = 0x80"

text \<open>Bits of the command register: stop 1, start 2, transmit 4, remote read 8, no DMA 0x20, page 1 0x40.\<close>

definition NoDma :: u8 where [layout]: "NoDma = 0x20"
definition ImrAllIsr :: u8 where [layout]: "ImrAllIsr = 0x3f"

definition sizeof_recv_data :: u64 where [layout]: "sizeof_recv_data = 8"
definition sizeof_PendingSend :: u64 where [layout]: "sizeof_PendingSend = 24"
definition sizeof_netdevice :: u64 where [layout]: "sizeof_netdevice = 24"

subsection \<open>Receiving\<close>

definition dispatch ::
  "('d, 'a) eworld_scheme net_env \<Rightarrow> u64 \<Rightarrow> ('d, 'a) eworld_scheme \<Rightarrow> ('d, 'a) eworld_scheme res" where
  "dispatch env p w =
     bind_res (deref (recv_size w) p) (\<lambda>n.
     bind_res (ethernet_packet env (load64 (kmem w) p) (read_mem (kmem w) (p + sizeof_recv_data) n) w) (\<lambda>w.
     bind_res (kmem_free w p) (\<lambda>w. Inr (w\<lparr>recv_size := (recv_size w)(p := None)\<rparr>))))"

text \<open>The copy loop: \<open>s\<close> is 16 bits wide.\<close>

fun rx_copy :: "'d port_io \<Rightarrow> u16 \<Rightarrow> nat \<Rightarrow> u64 \<Rightarrow> u16 \<Rightarrow> u16 \<Rightarrow> ('d, 'a) eworld_scheme \<Rightarrow> ('d, 'a) eworld_scheme res" where
  "rx_copy io iomem 0 buf sz s w = Inl (Fault Diverges)"
| "rx_copy io iomem (Suc fuel) buf sz s w =
     (if s < sz then
        let (d, w) = inw_hw io (iomem + 0x10) w;
            m = (kmem w)(buf + ucast s + 1 := ucast (drop_bit 8 d));
            m = m(buf + ucast s := ucast (d AND 0xff))
        in rx_copy io iomem fuel buf sz (s + 2) (w\<lparr>kmem := m\<rparr>)
      else Inr w)"

text \<open>One frame of the ring, from page \<open>frame\<close>: the next page is returned.\<close>

definition rx_frame ::
  "'d port_io \<Rightarrow> nat \<Rightarrow> u64 \<Rightarrow> u64 \<Rightarrow> u16 \<Rightarrow> u8 \<Rightarrow> ('d, 'a) eworld_scheme \<Rightarrow> (u8 \<times> ('d, 'a) eworld_scheme) res" where
  "rx_frame io fuel dispatch_fn self iomem frame w =
     (let w = outs_hw io [(iomem, NoDma OR 2), (iomem + 0xa, 4), (iomem + 0xb, 0), (iomem + 8, 0), (iomem + 9, frame),
                (iomem, 8 OR 2)] w;
          (val, w) = inl_hw io (iomem + 0x10) w;
          next = byte_at val 1; count = (ucast (drop_bit 16 val) :: u16); sz = count - 4;
          w = outs_hw io [(iomem, NoDma OR 2), (iomem + 8, 4), (iomem + 0xa, ucast (sz AND 0xff)),
                (iomem + 0xb, ucast (drop_bit 8 count))] w
      in bind_res (kmem_alloc w (ucast sz + sizeof_recv_data)) (\<lambda>(mm, w).
         let w = w\<lparr>kmem := store64 (kmem w) mm self, recv_size := (recv_size w)(mm \<mapsto> unat sz)\<rparr>;
             buf = mm + sizeof_recv_data
         in bind_res (rx_copy io iomem fuel buf sz 0 w) (\<lambda>w.
            let w = (if sz AND 1 \<noteq> 0 then
                       let (d, w) = inb_hw io (iomem + 0x10) w in w\<lparr>kmem := (kmem w)(buf + ucast sz - 1 := d)\<rparr>
                     else w)
            in bind_res (task_enqueue_easy w dispatch_fn mm) (\<lambda>w.
                 Inr (next, outb_hw io (iomem + 3) (next - 1) w)))))"

fun rx_loop ::
  "'d port_io \<Rightarrow> nat \<Rightarrow> nat \<Rightarrow> u64 \<Rightarrow> u64 \<Rightarrow> u16 \<Rightarrow> u8 \<Rightarrow> u8 \<Rightarrow> ('d, 'a) eworld_scheme \<Rightarrow> ('d, 'a) eworld_scheme res" where
  "rx_loop io cfuel 0 dispatch_fn self iomem rxpage frame w = Inl (Fault Diverges)"
| "rx_loop io cfuel (Suc fuel) dispatch_fn self iomem rxpage frame w =
     (if rxpage \<noteq> frame then
        bind_res (rx_frame io cfuel dispatch_fn self iomem frame w) (\<lambda>(frame, w).
          rx_loop io cfuel fuel dispatch_fn self iomem rxpage frame w)
      else Inr w)"

definition ne2k_irq ::
  "'d port_io \<Rightarrow> nat \<Rightarrow> nat \<Rightarrow> u64 \<Rightarrow> u64 \<Rightarrow> ('d, 'a) eworld_scheme \<Rightarrow> ('d, 'a) eworld_scheme res" where
  "ne2k_irq io cfuel fuel dispatch_fn self w =
     bind_res (deref (devices w) self) (\<lambda>d.
       let iomem = dev_iomem d;
           (wtf, w) = inb_hw io (iomem + 7) w;
           w = (if wtf AND 64 \<noteq> 0 then outb_hw io (iomem + 7) 64 w else w)
       in bind_res
            (if wtf AND 1 \<noteq> 0 then
               let w = outb_hw io iomem (NoDma OR 0x40) w;
                   (rxpage, w) = inb_hw io (iomem + 7) w;
                   w = outb_hw io iomem (NoDma OR 2) w;
                   (b, w) = inb_hw io (iomem + 3) w;
                   frame = b + 1;
                   frame = (if frame = stop_page then rx_start_page else frame)
               in bind_res (rx_loop io cfuel fuel dispatch_fn self iomem rxpage frame w) (\<lambda>w. Inr (outb_hw io (iomem + 7) 1 w))
             else Inr w)
            (\<lambda>w. Inr (outs_hw io [(iomem, 2 OR NoDma), (iomem + 7, 0xff)] w)))"

subsection \<open>Sending\<close>

function send_words :: "'d port_io \<Rightarrow> u16 \<Rightarrow> u8 list \<Rightarrow> nat \<Rightarrow> nat \<Rightarrow> ('d, 'a) hworld_scheme \<Rightarrow> ('d, 'a) hworld_scheme res" where
  "send_words io iomem bs n i w =
     (if i < n then
        if i + 1 < length bs
        then send_words io iomem bs n (i + 2) (outw_hw io (iomem + 0x10) (ucast (bs ! i) OR push_bit 8 (ucast (bs ! (i + 1)))) w)
        else Inl (Fault OutOfBounds)
      else Inr w)"
  by pat_completeness auto
termination
  by (relation "measure (\<lambda>(io, iomem, bs, n, i, w). n - i)") auto

declare send_words.simps [simp del]

definition stage_send :: "u16 \<Rightarrow> u16 \<Rightarrow> (u16 \<times> u8) list" where
  "stage_send iomem nextSize =
     [(iomem, NoDma), (iomem + 0xf, 0), (iomem + 0xa, ucast (nextSize AND 0xff)), (iomem + 0xb, ucast (drop_bit 8 nextSize)),
      (iomem + 8, 0), (iomem + 9, tx_start_page)]"

definition trigger_send :: "u16 \<Rightarrow> u16 \<Rightarrow> (u16 \<times> u8) list" where
  "trigger_send iomem nextSize =
     [(iomem + 7, 0x40), (iomem, NoDma), (iomem + 5, ucast (nextSize AND 0xff)), (iomem + 6, ucast (drop_bit 8 nextSize)),
      (iomem + 4, tx_start_page), (iomem + 0xf, ImrAllIsr), (iomem, NoDma OR 4 OR 2)]"

definition send_sync :: "'d port_io \<Rightarrow> u64 \<Rightarrow> ('d, 'a) eworld_scheme \<Rightarrow> ('d, 'a) eworld_scheme res" where
  "send_sync io p w =
     bind_res (deref (pending_sends w) p) (\<lambda>ps.
     bind_res (deref (devices w) (ps_dev ps)) (\<lambda>d.
     bind_res (deref (sbuffs w) (ps_data ps)) (\<lambda>s.
       let iomem = dev_iomem d; nextSize = currSize s;
           w = outs_hw io (stage_send iomem nextSize) w
       in bind_res (send_words io iomem (sdata s) (unat nextSize) 0 w) (\<lambda>w.
          let w = (if unat nextSize mod 2 \<noteq> 0 then outb_hw io (iomem + 0x10) (sdata s ! (unat nextSize - 1)) w else w);
              w = outs_hw io (trigger_send iomem nextSize) w
          in sbuff_release_ref (ps_data ps) w))))"

definition ne2k_send :: "u64 \<Rightarrow> u64 \<Rightarrow> u64 \<Rightarrow> ('d, 'a) eworld_scheme \<Rightarrow> ('d, 'a) eworld_scheme res" where
  "ne2k_send send_sync_fn dev sb w =
     bind_res (kmem_alloc w sizeof_PendingSend) (\<lambda>(p, w).
     bind_res (task_alloc w send_sync_fn p) (\<lambda>(t, w).
     bind_res (sbuff_add_ref sb (w\<lparr>pending_sends := (pending_sends w)(p \<mapsto> \<lparr>ps_task = t, ps_data = sb, ps_dev = dev\<rparr>)\<rparr>)) (\<lambda>w.
       task_enqueue w t)))"

subsection \<open>Initialisation\<close>

definition myIp :: u32 where [layout]: "myIp = 0xC0A80302"
definition gateway :: u32 where [layout]: "gateway = 0xC0A80301"

fun read_mac :: "'d port_io \<Rightarrow> u16 \<Rightarrow> nat \<Rightarrow> nat \<Rightarrow> ('d, 'a) hworld_scheme \<Rightarrow> (u8 list \<times> ('d, 'a) hworld_scheme) res" where
  "read_mac io iomem i 0 w = Inr ([], w)"
| "read_mac io iomem i (Suc n) w =
     (let (b, w) = inb_hw io (iomem + 0x10) w
      in bind_res (if 0 < i then on_con (console_print_string (str '':'') []) w else Inr w) (\<lambda>w.
         bind_res (on_con (console_put_hex8 b) w) (\<lambda>w.
         bind_res (read_mac io iomem (Suc i) n w) (\<lambda>(bs, w). Inr (b # bs, w)))))"

definition ne2k_reset :: "u16 \<Rightarrow> (u16 \<times> u8) list" where
  "ne2k_reset iomem =
     [(iomem, NoDma OR 1), (iomem + 0xe, 0x49), (iomem + 0xa, 0), (iomem + 0xb, 0), (iomem + 0xc, 0x20), (iomem + 0xd, 2),
      (iomem + 1, rx_start_page), (iomem + 2, stop_page), (iomem + 3, stop_page - 1), (iomem + 4, tx_start_page),
      (iomem + 7, 0xff), (iomem + 0xf, 0), (iomem + 0xa, 6), (iomem + 0xb, 0), (iomem + 8, 0), (iomem + 9, 0), (iomem, 2 OR 8)]"

definition ne2k_accept :: "u16 \<Rightarrow> u8 list \<Rightarrow> (u16 \<times> u8) list" where
  "ne2k_accept iomem m =
     [(iomem, NoDma OR 0x40 OR 1)] @ map (\<lambda>i. (iomem + of_nat i + 1, m ! i)) [0..<6] @ [(iomem + 7, rx_start_page)] @
     map (\<lambda>i. (iomem + 8 + of_nat i, 0xff)) [0..<8]"

definition ne2k_start :: "u16 \<Rightarrow> (u16 \<times> u8) list" where
  "ne2k_start iomem =
     [(iomem, NoDma OR 2), (iomem + 0xa, 0), (iomem + 7, 0xff), (iomem + 0xf, ImrAllIsr), (iomem + 0xc, 0x1c), (iomem + 0xd, 0)]"

definition ne2k_initialize ::
  "'d port_io \<Rightarrow> ('d, 'a) eworld_scheme net_env \<Rightarrow> u64 \<Rightarrow> u64 \<Rightarrow> u8 \<Rightarrow> u32 \<Rightarrow> ('d, 'a) eworld_scheme \<Rightarrow> ('d, 'a) eworld_scheme res" where
  "ne2k_initialize io env send_fn irq_fn intr bar0 w =
     bind_res (kmem_alloc w sizeof_netdevice) (\<lambda>(_, w).
     bind_res (kmem_alloc w sizeof_netdevice) (\<lambda>(self, w).
       let iomem = ucast (bar0 AND NOT 3);
           w = w\<lparr>devices := (devices w)(self \<mapsto> \<lparr>dev_send = send_fn, dev_ip = myIp,
                 dev_mac = read_mem (kmem w) (self + 12) 6, dev_iomem = iomem\<rparr>)\<rparr>
       in bind_res (on_con (console_print_string (str ''Found ne2k on IRQ %d with MAC '') [AInt (ucast intr)]) w) (\<lambda>w.
          bind_res (read_mac io iomem 0 6 (outs_hw io (ne2k_reset iomem) w)) (\<lambda>(m, w).
          bind_res (deref (devices w) self) (\<lambda>d.
          bind_res (on_con (console_print_string [10] []) (w\<lparr>devices := (devices w)(self \<mapsto> d\<lparr>dev_mac := m\<rparr>)\<rparr>)) (\<lambda>w.
            let w = outs_hw io (ne2k_accept iomem m) w;
                w = register_interrupt_handler (intr + 32) irq_fn self w;
                w = outs_hw io (ne2k_start iomem) w
            in bind_res (gratuitous_arp env self w) (\<lambda>w.
               bind_res (arp_lookup env self gateway w) (\<lambda>(r, w). case r of
                 None \<Rightarrow> Inr w
               | Some _ \<Rightarrow> Inl (Fault NullDeref)))))))))"

definition init_ne2k ::
  "(u32 \<Rightarrow> u32) \<Rightarrow> 'd port_io \<Rightarrow> ('d, 'a) eworld_scheme net_env \<Rightarrow> u64 \<Rightarrow> u64 \<Rightarrow> ('d, 'a) eworld_scheme \<Rightarrow> ('d, 'a) eworld_scheme res" where
  "init_ne2k cfg io env send_fn irq_fn = register_pci_device cfg 0x10ec 0x8029 (ne2k_initialize io env send_fn irq_fn)"

end
