(* ===== verification/Ne2kProps.thy ===== *)
theory Ne2kProps
  imports Ne2k
begin

text \<open>What the NE2000 driver does: the bytes it sends to the card and those it takes from it.\<close>

unbundle bit_operations_syntax

subsection \<open>Sending\<close>

text \<open>An odd frame is padded with the byte behind it to whole words.\<close>

abbreviation even_up :: "nat \<Rightarrow> nat" where
  "even_up n \<equiv> 2 * ((n + 1) div 2)"

lemma join_le_pair: "join_le [a, b] = (ucast a OR push_bit 8 (ucast b) :: u16)"
  by simp

lemma send_words_eq:
  "i + 2 * m = even_up n \<Longrightarrow> even i \<Longrightarrow> even_up n \<le> length bs \<Longrightarrow>
    send_words io iomem bs n i w =
      Inr (w\<lparr>hw := fold (io_outw io (iomem + 0x10)) (le_words (take (2 * m) (drop i bs))) (hw w)\<rparr>)"
proof (induction m arbitrary: i w)
  case 0
  then have "\<not> i < n" by auto
  then show ?case by (simp add: send_words.simps)
next
  case (Suc m)
  then have i: "i < n" "i + 1 < length bs" by auto
  have "drop i bs = bs ! i # bs ! (i + 1) # drop (i + 2) bs"
    using i(2) by (metis Cons_nth_drop_Suc Suc_eq_plus1 Suc_lessD add_2_eq_Suc')
  then have t: "le_words (take (2 * Suc m) (drop i bs)) = join_le [bs ! i, bs ! (i + 1)] # le_words (take (2 * m) (drop (i + 2) bs))"
    by simp
  have "send_words io iomem bs n i w =
      send_words io iomem bs n (i + 2) (outw_hw io (iomem + 0x10) (join_le [bs ! i, bs ! (i + 1)]) w)"
    using i by (subst send_words.simps) simp
  also have "\<dots> = Inr (w\<lparr>hw := fold (io_outw io (iomem + 0x10)) (le_words (take (2 * m) (drop (i + 2) bs)))
      (io_outw io (iomem + 0x10) (join_le [bs ! i, bs ! (i + 1)]) (hw w))\<rparr>)"
    using Suc.IH [of "i + 2" "outw_hw io (iomem + 0x10) (join_le [bs ! i, bs ! (i + 1)]) w"] Suc.prems
    by (simp add: outw_hw_def)
  finally show ?case unfolding t by simp
qed

text \<open>What the card sees of a frame: the bytes of the words and, for an odd size, the last byte once more.\<close>

definition card_transmit :: "'d port_io \<Rightarrow> u16 \<Rightarrow> u8 list \<Rightarrow> u16 \<Rightarrow> 'd \<Rightarrow> 'd" where
  "card_transmit io iomem bs n d =
     (let d = fold (\<lambda>(p, v). io_outb io p v) (stage_send iomem n) d;
          d = fold (io_outw io (iomem + 0x10)) (le_words (take (even_up (unat n)) bs)) d;
          d = (if odd (unat n) then io_outb io (iomem + 0x10) (bs ! (unat n - 1)) d else d)
      in fold (\<lambda>(p, v). io_outb io p v) (trigger_send iomem n) d)"

lemma send_sync_transmits:
  assumes "p \<noteq> 0" "pending_sends w p = Some ps" "ps_dev ps \<noteq> 0" "devices w (ps_dev ps) = Some d"
    and "ps_data ps \<noteq> 0" "sbuffs w (ps_data ps) = Some s" "even_up (unat (currSize s)) \<le> length (sdata s)"
  shows "send_sync io p w =
    sbuff_release_ref (ps_data ps) (w\<lparr>hw := card_transmit io (dev_iomem d) (sdata s) (currSize s) (hw w)\<rparr>)"
proof -
  let ?w = "outs_hw io (stage_send (dev_iomem d) (currSize s)) w"
  have "send_words io (dev_iomem d) (sdata s) (unat (currSize s)) 0 ?w =
      Inr (?w\<lparr>hw := fold (io_outw io (dev_iomem d + 0x10)) (le_words (take (even_up (unat (currSize s))) (sdata s))) (hw ?w)\<rparr>)"
    using send_words_eq [of 0 "(unat (currSize s) + 1) div 2" "unat (currSize s)" "sdata s"] assms(7) by simp
  then show ?thesis
    using assms(1-6) by (simp add: send_sync_def deref_def outs_hw_eq outb_hw_def card_transmit_def Let_def odd_iff_mod_2_eq_one)
qed

subsection \<open>Receiving\<close>

lemma hw_first: "(w :: ('d, 'a) hworld_scheme)\<lparr>hw := d, kmem := m\<rparr> = w\<lparr>kmem := m, hw := d\<rparr>"
  by (rule hworld.equality) simp_all

lemma recv_size_first:
  "(w :: ('d, 'a) eworld_scheme)\<lparr>recv_size := r, kmem := m\<rparr> = w\<lparr>kmem := m, recv_size := r\<rparr>"
  "w\<lparr>recv_size := r, hw := d\<rparr> = w\<lparr>hw := d, recv_size := r\<rparr>"
  by (rule eworld.equality, simp_all)+

text \<open>The next \<open>n\<close> words the card hands out, and the card behind them.\<close>

fun card_words :: "'d port_io \<Rightarrow> u16 \<Rightarrow> nat \<Rightarrow> 'd \<Rightarrow> u16 list \<times> 'd" where
  "card_words io p 0 d = ([], d)"
| "card_words io p (Suc n) d = (let (v, d) = io_inw io p d; (vs, d) = card_words io p n d in (v # vs, d))"

lemma length_card_words: "length (fst (card_words io p n d)) = n"
  by (induction n arbitrary: d) (simp_all add: split_beta Let_def)

lemma store_word: "(m(a + 1 := ucast (drop_bit 8 d)))(a := ucast (d AND 0xff)) = write_mem m a (split_le 2 (d :: u16))"
proof -
  have m: "(0xff :: u16) = mask 8" by (simp add: mask_eq_exp_minus_1)
  have "ucast (d AND 0xff) = byte_at d 0"
    unfolding m by (rule bit_word_eqI) (simp add: bit_simps bit_byte_at)
  moreover have "split_le 2 d = [byte_at d 0, ucast (drop_bit 8 d)]" by (simp add: split_le_def upt_rec byte_at_def)
  moreover have "a + 1 \<noteq> a" by simp
  ultimately show ?thesis by (simp add: write_mem_Cons fun_upd_twist)
qed

lemma odd_unat: "odd (unat x) \<longleftrightarrow> odd (x :: u16)"
  by transfer (simp add: even_nat_iff even_take_bit_eq)

lemma unat_ucast_16: "unat (ucast (x :: u16) :: u64) = unat x"
  using unat_less_2p [of x] by (simp add: unsigned_ucast_eq take_bit_nat_eq_self)

lemma rx_copy_eq:
  "unat s + 2 * n = even_up (unat sz) \<Longrightarrow> even (unat s) \<Longrightarrow> sz \<noteq> 0xffff \<Longrightarrow> n < fuel \<Longrightarrow>
    rx_copy io iomem fuel buf sz s w =
      (let (ws, d) = card_words io (iomem + 0x10) n (hw w)
       in Inr (w\<lparr>kmem := write_mem (kmem w) (buf + ucast s) (concat (map (split_le 2) ws)), hw := d\<rparr>))"
proof (induction n arbitrary: s fuel w)
  case 0
  then obtain f where "fuel = Suc f" by (cases fuel) auto
  moreover have "\<not> s < sz" using 0(1) by (simp add: word_less_nat_alt)
  ultimately show ?case by simp
next
  case (Suc n)
  then obtain f where f: "fuel = Suc f" "n < f" by (cases fuel) auto
  have "unat sz \<noteq> 65535" using Suc.prems(3) by (simp add: word_unat_eq_iff)
  then have top: "unat sz < 65535" using unat_less_2p [of sz] by simp
  have le: "unat s + 2 \<le> unat sz + 1" using Suc.prems(1) by auto
  then have less: "s < sz" and s2: "unat (s + 2) = unat s + 2" using top by (simp_all add: word_less_nat_alt unat_plus_if')
  have u2: "ucast (s + 2) = (ucast s + 2 :: u64)" using le top unfolding word_unat_eq_iff by (simp add: s2 unat_plus_if' unat_ucast_16)
  let ?r = "io_inw io (iomem + 0x10) (hw w)"
  let ?c = "card_words io (iomem + 0x10) n (snd ?r)"
  let ?w = "w\<lparr>kmem := write_mem (kmem w) (buf + ucast s) (split_le 2 (fst ?r)), hw := snd ?r\<rparr>"
  have "rx_copy io iomem (Suc f) buf sz s w = rx_copy io iomem f buf sz (s + 2) ?w"
    using less store_word [of "kmem w" "buf + ucast s" "fst ?r"] by (simp add: inw_hw_def split_beta Let_def hw_first)
  also have "\<dots> = Inr (?w\<lparr>kmem := write_mem (kmem ?w) (buf + ucast (s + 2)) (concat (map (split_le 2) (fst ?c))), hw := snd ?c\<rparr>)"
    using Suc.IH [of "s + 2" f ?w] Suc.prems(1,2,3) f(2) s2 by (simp add: split_beta Let_def)
  also have "write_mem (kmem ?w) (buf + ucast (s + 2)) (concat (map (split_le 2) (fst ?c))) =
      write_mem (kmem w) (buf + ucast s) (split_le 2 (fst ?r) @ concat (map (split_le 2) (fst ?c)))"
  proof -
    have "length (concat (map (split_le 2) (fst ?c))) = 2 * n"
      by (simp add: length_concat comp_def sum_list_triv length_card_words)
    moreover have "2 * n < 65536" using Suc.prems(1) top by auto
    ultimately show ?thesis
      using write_mem_append [of "split_le 2 (fst ?r)" "concat (map (split_le 2) (fst ?c))" "kmem w" "buf + ucast s"]
      by (simp add: u2 add.assoc)
  qed
  finally show ?case using f(1) by (simp add: split_beta Let_def)
qed


text \<open>
  The state after the copy of a frame of \<open>sz\<close> bytes into the allocated block at \<open>mm\<close>: the
  handle, then the bytes; the last byte of an odd frame is what the card offers after the words.
\<close>

definition frame_bytes :: "'d port_io \<Rightarrow> u16 \<Rightarrow> nat \<Rightarrow> 'd \<Rightarrow> u8 list \<times> 'd" where
  "frame_bytes io p n d =
     (let (ws, d) = card_words io p ((n + 1) div 2) d; bs = concat (map (split_le 2) ws)
      in if odd n then let (b, d) = io_inb io p d in (bs[n - 1 := b], d) else (bs, d))"

definition frame_header :: "u16 \<Rightarrow> u8 \<Rightarrow> (u16 \<times> u8) list" where
  "frame_header iomem frame =
     [(iomem, NoDma OR 2), (iomem + 0xa, 4), (iomem + 0xb, 0), (iomem + 8, 0), (iomem + 9, frame), (iomem, 8 OR 2)]"

definition frame_setup :: "u16 \<Rightarrow> u16 \<Rightarrow> (u16 \<times> u8) list" where
  "frame_setup iomem count =
     [(iomem, NoDma OR 2), (iomem + 8, 4), (iomem + 0xa, ucast ((count - 4) AND 0xff)), (iomem + 0xb, ucast (drop_bit 8 count))]"

lemma length_words: "length (concat (map (split_le 2) ws)) = 2 * length ws"
  by (simp add: length_concat comp_def sum_list_triv)

lemma rx_frame_eq:
  fixes w :: "('d, 'a) eworld_scheme"
  assumes hdr: "io_inl io (iomem + 0x10) (fold (\<lambda>(p, v). io_outb io p v) (frame_header iomem frame) (hw w)) = (val, d1)"
    and sz: "count = ucast (drop_bit 16 val)" "sz = count - 4" "sz \<noteq> 0xffff" "(unat sz + 1) div 2 < fuel"
    and d2: "d2 = fold (\<lambda>(p, v). io_outb io p v) (frame_setup iomem count) d1"
    and alloc: "kmem_alloc (w\<lparr>hw := d2\<rparr>) (ucast sz + 8) = Inr (mm, w1)"
    and bytes: "frame_bytes io (iomem + 0x10) (unat sz) d2 = (bs, d3)"
  shows "rx_frame io fuel fn self iomem frame w =
    bind_res (task_enqueue_easy (w1\<lparr>kmem := write_mem (store64 (kmem w1) mm self) (mm + 8) bs, hw := d3,
        recv_size := (recv_size w1)(mm \<mapsto> unat sz)\<rparr>) fn mm)
      (\<lambda>w. Inr (byte_at val 1, outb_hw io (iomem + 3) (byte_at val 1 - 1) w))"
proof -
  have h1: "hw w1 = d2" using kmem_alloc_frame [OF alloc] by auto
  let ?n = "(unat sz + 1) div 2" and ?w = "w1\<lparr>kmem := store64 (kmem w1) mm self, recv_size := (recv_size w1)(mm \<mapsto> unat sz)\<rparr>"
  let ?c = "card_words io (iomem + 0x10) ?n d2" let ?bs = "concat (map (split_le 2) (fst ?c))"
  have copy: "rx_copy io iomem fuel (mm + 8) sz 0 ?w =
      Inr (w1\<lparr>kmem := write_mem (store64 (kmem w1) mm self) (mm + 8) ?bs, hw := snd ?c, recv_size := (recv_size w1)(mm \<mapsto> unat sz)\<rparr>)"
    using rx_copy_eq [of 0 ?n sz fuel io iomem "mm + 8" ?w] sz(3,4) h1 by (simp add: split_beta Let_def recv_size_first)
  have odd: "sz AND 1 \<noteq> 0 \<longleftrightarrow> odd (unat sz)" by (simp add: odd_unat and_one_eq mod2_eq_if)
  have len: "length ?bs = even_up (unat sz)" by (simp add: length_words length_card_words)
  have last: "(write_mem m (mm + 8) ?bs)(mm + 8 + ucast sz - 1 := b) = write_mem m (mm + 8) (?bs[unat sz - 1 := b])"
    if "odd (unat sz)" for m b
  proof -
    have "0 < unat sz" using that by (rule odd_pos)
    then have "of_nat (unat sz - 1) = (ucast sz - 1 :: u64)" by (simp add: of_nat_diff)
    moreover have "unat sz - 1 < length ?bs" "length ?bs < 2 ^ 64" using len unat_less_2p [of sz] that by auto
    ultimately show ?thesis using write_mem_upd [of "unat sz - 1" ?bs m "mm + 8" b] by (simp add: add_diff_eq)
  qed
  have hdr': "outs_hw io [(iomem, NoDma OR 2), (iomem + 0xa, 4), (iomem + 0xb, 0), (iomem + 8, 0), (iomem + 9, frame), (iomem, 8 OR 2)] w =
      w\<lparr>hw := fold (\<lambda>(p, v). io_outb io p v) (frame_header iomem frame) (hw w)\<rparr>"
    unfolding outs_hw_eq frame_header_def ..
  have prep: "outs_hw io [(iomem, NoDma OR 2), (iomem + 8, 4), (iomem + 0xa, ucast (sz AND 0xff)),
      (iomem + 0xb, ucast (drop_bit 8 count))] (w\<lparr>hw := d1\<rparr>) = w\<lparr>hw := d2\<rparr>"
    unfolding outs_hw_eq d2 frame_setup_def sz(2) by simp
  have inl: "inl_hw io (iomem + 0x10) (w\<lparr>hw := fold (\<lambda>(p, v). io_outb io p v) (frame_header iomem frame) (hw w)\<rparr>) = (val, w\<lparr>hw := d1\<rparr>)"
    using hdr by (simp add: inl_hw_def)
  have bs: "frame_bytes io (iomem + 0x10) (unat sz) d2 =
      (if odd (unat sz) then (?bs[unat sz - 1 := fst (io_inb io (iomem + 0x10) (snd ?c))], snd (io_inb io (iomem + 0x10) (snd ?c))) else (?bs, snd ?c))"
    by (simp add: frame_bytes_def split_beta Let_def)
  show ?thesis
    unfolding rx_frame_def Let_def hdr' inl prod.case sz(1) [symmetric] prep sz(2) [symmetric] alloc bind_res.simps
      sizeof_recv_data_def copy odd
    using bytes bs last by (cases "odd (unat sz)") (simp_all add: inb_hw_def split_beta recv_size_first hw_first)
qed


subsection \<open>Properties\<close>

text \<open>
  C11. Sending a queued frame: after the registers are set up the words written to the data port spell
  the bytes of the buffer in order, then the transmission is started and the reference to the buffer is
  given up. For a frame of even size these are exactly its bytes. For an odd size the words end with the byte
  behind the frame, and the last byte of the frame is written once more after them.
\<close>

theorem ne2k_transmits:
  assumes "p \<noteq> 0" "pending_sends w p = Some ps" "ps_dev ps \<noteq> 0" "devices w (ps_dev ps) = Some d"
    and "ps_data ps \<noteq> 0" "sbuffs w (ps_data ps) = Some s" "2 * ((unat (currSize s) + 1) div 2) \<le> length (sdata s)"
  shows "\<exists>ws. let iomem = dev_iomem d; n = unat (currSize s); put = fold (\<lambda>(p, v). io_outb io p v);
      h = fold (io_outw io (iomem + 0x10)) ws (put (stage_send iomem (currSize s)) (hw w));
      h = (if odd n then io_outb io (iomem + 0x10) (sdata s ! (n - 1)) h else h)
    in concat (map (split_le 2) ws) = take (2 * ((n + 1) div 2)) (sdata s) \<and>
       send_sync io p w = sbuff_release_ref (ps_data ps) (w\<lparr>hw := put (trigger_send iomem (currSize s)) h\<rparr>)"
proof -
  let ?n = "even_up (unat (currSize s))"
  have "concat (map (split_le 2) (le_words (take ?n (sdata s)))) = take ?n (sdata s)"
    using bytes_of_words [of "take ?n (sdata s)" "length (le_words (take ?n (sdata s)))"] assms(7) by (simp add: length_le_words)
  then show ?thesis
    using send_sync_transmits [OF assms, of io] by (intro exI [of _ "le_words (take ?n (sdata s))"]) (simp add: card_transmit_def Let_def)
qed

lemma words_of_bytes: "le_words (concat (map (split_le 2) ws)) = ws"
proof (induction ws)
  case (Cons v ws)
  have "split_le 2 v = [byte_at v 0, byte_at v 1]" by (simp add: split_le_def upt_rec)
  moreover from this have "join_le [byte_at v 0, byte_at v 1] = v" using join_split_le [of 2 v] by simp
  ultimately show ?case using Cons by (simp del: join_le.simps)
qed simp

text \<open>A card that is a queue of words: reading takes the first, writing appends.\<close>

definition queue_io :: "u32 \<Rightarrow> u16 list port_io" where
  "queue_io val = \<lparr>io_inb = (\<lambda>p d. (0, d)), io_inw = (\<lambda>p d. (hd d, tl d)), io_inl = (\<lambda>p d. (val, d)),
     io_outb = (\<lambda>p v d. d), io_outw = (\<lambda>p v d. d @ [v])\<rparr>"

definition demo_card :: "u16 list \<Rightarrow> u16 list eworld" where
  "demo_card q = cworld.extend demo_clock \<lparr>processes = Map.empty, hw = q, ata_devs = Map.empty, recv_size = Map.empty,
     pending_sends = Map.empty\<rparr>"

theorem ne2k_transmits_witness:
  "\<exists>w :: u16 list eworld. hw w = [] \<and> send_sync (queue_io 0) 8 w = sbuff_release_ref 16 (w\<lparr>hw := [0x0201, 0x0403]\<rparr>)"
proof -
  let ?w = "demo_card []\<lparr>pending_sends := [8 \<mapsto> \<lparr>ps_task = 0, ps_data = 16, ps_dev = 24\<rparr>], devices := [24 \<mapsto> demo_device],
    sbuffs := [16 \<mapsto> \<lparr>totalSize = 4, currSize = 4, shead = 0, srefs = 2, sdata = [1, 2, 3, 4, 0, 0, 0, 0, 0, 0, 0]\<rparr>]\<rparr>"
  let ?s = "\<lparr>totalSize = 4, currSize = 4, shead = 0, srefs = 2, sdata = [1, 2, 3, 4, 0, 0, 0, 0, 0, 0, 0]\<rparr>"
  have q: "fold (io_outw (queue_io 0) p) ws d = d @ ws" for p ws d
    by (induction ws arbitrary: d) (simp_all add: queue_io_def)
  have b: "fold (\<lambda>(p, v). io_outb (queue_io 0) p v) xs d = d" for xs d by (induction xs) (auto simp: queue_io_def)
  have h: "hw ?w = []" by (simp add: demo_card_def cworld.defs)
  obtain ws where ws: "concat (map (split_le 2) ws) = [1, 2, 3, 4]" "send_sync (queue_io 0) 8 ?w = sbuff_release_ref 16 (?w\<lparr>hw := ws\<rparr>)"
    using ne2k_transmits [of 8 ?w "\<lparr>ps_task = 0, ps_data = 16, ps_dev = 24\<rparr>" demo_device ?s "queue_io 0"] h
    by (auto simp: Let_def q b)
  have "ws = [0x0201, 0x0403]" 
    using words_of_bytes [of ws] unfolding ws(1) by simp
  show ?thesis by (rule exI [of _ ?w]) (use h ws(2) \<open>ws = [0x0201, 0x0403]\<close> in \<open>simp only: simp_thms\<close>)
qed


text \<open>
  C10. Taking a frame from the ring: with \<open>n\<close> the count in the frame's header less the header, the
  handler allocates a block, records the device and \<open>n\<close> bytes there - the bytes of the words the card
  hands out; for odd \<open>n\<close> the last is one byte read behind them - and queues a task for the block,
  from which the stack is given the device and these bytes; then the ring moves on to the next page.
\<close>

theorem ne2k_receives_frame:
  fixes w :: "('d, 'a) eworld_scheme"
  assumes hdr: "io_inl io (iomem + 0x10) (fold (\<lambda>(p, v). io_outb io p v) (frame_header iomem frame) (hw w)) = (val, d1)"
    and sz: "count = ucast (drop_bit 16 val)" "sz = count - 4" "sz \<noteq> 0xffff" "(unat sz + 1) div 2 < fuel"
    and d2: "d2 = fold (\<lambda>(p, v). io_outb io p v) (frame_setup iomem count) d1"
    and alloc: "kmem_alloc (w\<lparr>hw := d2\<rparr>) (ucast sz + 8) = Inr (mm, w1)" "mm \<noteq> 0" "unat mm + 8 + 2 ^ 16 < 2 ^ 64"
    and bytes: "frame_bytes io (iomem + 0x10) (unat sz) d2 = (bs, d3)"
  shows "\<exists>w2. rx_frame io fuel fn self iomem frame w =
      bind_res (task_enqueue_easy w2 fn mm) (\<lambda>w. Inr (byte_at val 1, outb_hw io (iomem + 3) (byte_at val 1 - 1) w)) \<and>
    load64 (kmem w2) mm = self \<and> read_mem (kmem w2) (mm + 8) (unat sz) = take (unat sz) bs \<and>
    dispatch env mm w2 = bind_res (ethernet_packet env self (take (unat sz) bs) w2)
      (\<lambda>w. bind_res (kmem_free w mm) (\<lambda>w. Inr (w\<lparr>recv_size := (recv_size w)(mm := None)\<rparr>)))"
proof -
  let ?w = "w1\<lparr>kmem := write_mem (store64 (kmem w1) mm self) (mm + 8) bs, hw := d3, recv_size := (recv_size w1)(mm \<mapsto> unat sz)\<rparr>"
  note eq = rx_frame_eq [OF hdr sz d2 alloc(1) bytes, of fn self]
  have len: "length bs = even_up (unat sz)"
    using bytes by (auto simp: frame_bytes_def split_beta Let_def length_words length_card_words split: if_splits)
  then have top: "length bs \<le> 2 ^ 16" using unat_less_2p [of sz] by auto
  have u: "unat (mm + 8) = unat mm + 8" using alloc(3) by (simp add: unat_plus_if')
  have "separate mm 8 (mm + 8) (length bs)" using separateI_less [of mm 8 "mm + 8" "length bs"] u top alloc(3) by simp
  then have ld: "load64 (kmem ?w) mm = self" by (simp add: load64_write_separate load64_store64)
  have rd: "read_mem (kmem ?w) (mm + 8) (unat sz) = take (unat sz) bs"
    using read_write_slice [of 0 "unat sz" bs _ "mm + 8"] len top by simp
  have "dispatch env mm ?w = bind_res (ethernet_packet env self (take (unat sz) bs) ?w)
      (\<lambda>w. bind_res (kmem_free w mm) (\<lambda>w. Inr (w\<lparr>recv_size := (recv_size w)(mm := None)\<rparr>)))"
    using alloc(2) ld rd by (simp add: dispatch_def deref_def layout)
  with eq ld rd show ?thesis by blast
qed

lemma kheap_more_hw: "kheap.more (w :: 'd eworld) = kheap.more v \<Longrightarrow> hw w = hw v"
  by (cases w; cases v) simp

theorem ne2k_receives_frame_witness:
  "\<exists>(w :: u16 list eworld) w2. rx_frame (queue_io 0x000a4d01) 4 7 8 0xc000 0x4c w =
      bind_res (task_enqueue_easy w2 7 32816) (\<lambda>w. Inr (0x4d, outb_hw (queue_io 0x000a4d01) 0xc003 0x4c w)) \<and>
     load64 (kmem w2) 32816 = 8 \<and> read_mem (kmem w2) 32824 6 = [1, 2, 3, 4, 5, 6]"
proof -
  let ?io = "queue_io 0x000a4d01" and ?q = "[0x0201, 0x0403, 0x0605] :: u16 list"
  obtain v w1 :: "u16 list eworld" where v: "kmem_alloc v 14 = Inr (32816, w1)" "kheap.more v = kheap.more (demo_card ?q)"
    using boot_alloc [of 14 "kheap.more (demo_card ?q)"] by auto
  have h: "hw v = ?q" using kheap_more_hw [OF v(2)] by (simp add: demo_card_def cworld.defs)
  then have v': "v\<lparr>hw := ?q\<rparr> = v" by (cases v) simp
  have b: "fold (\<lambda>(p, v). io_outb ?io p v) xs d = d" for xs d by (induction xs) (auto simp: queue_io_def)
  have f: "frame_bytes ?io (0xc000 + 0x10) (unat (6 :: u16)) ?q = ([1, 2, 3, 4, 5, 6], [])"
  proof -
    have "card_words ?io (0xc000 + 0x10) 3 ?q = (?q, [])" by (simp add: numeral_3_eq_3 queue_io_def)
    then show ?thesis by (simp add: frame_bytes_def split_le_def byte_at_def upt_rec)
  qed
  have "\<exists>w2. rx_frame ?io 4 7 8 0xc000 0x4c v =
      bind_res (task_enqueue_easy w2 7 32816) (\<lambda>w. Inr (byte_at (0x000a4d01 :: u32) 1, outb_hw ?io (0xc000 + 3) (byte_at (0x000a4d01 :: u32) 1 - 1) w)) \<and>
    load64 (kmem w2) 32816 = 8 \<and> read_mem (kmem w2) (32816 + 8) (unat (6 :: u16)) = take (unat (6 :: u16)) [1, 2, 3, 4, 5, 6] \<and>
    dispatch undefined 32816 w2 = bind_res (ethernet_packet undefined 8 (take (unat (6 :: u16)) [1, 2, 3, 4, 5, 6]) w2)
      (\<lambda>w. bind_res (kmem_free w 32816) (\<lambda>w. Inr (w\<lparr>recv_size := (recv_size w)(32816 := None)\<rparr>)))"
    by (rule ne2k_receives_frame [where count = 10 and ?d1.0 = ?q and ?d2.0 = ?q and ?w1.0 = w1 and ?d3.0 = "[]"])
      (use v h f in \<open>simp_all add: b v', simp_all add: queue_io_def\<close>)
  moreover have "byte_at (0x000a4d01 :: u32) 1 = 0x4d" by (simp add: byte_at_def)
  ultimately have "\<exists>w2. rx_frame ?io 4 7 8 0xc000 0x4c v =
      bind_res (task_enqueue_easy w2 7 32816) (\<lambda>w. Inr (0x4d, outb_hw ?io 0xc003 0x4c w)) \<and>
    load64 (kmem w2) 32816 = 8 \<and> read_mem (kmem w2) 32824 6 = [1, 2, 3, 4, 5, 6]"
    by (simp del: One_nat_def) blast
  then show ?thesis by blast
qed

end
