(* ===== verification/HashTable.thy ===== *)
theory HashTable
  imports KList
begin

text \<open>
  The hash table of src/src/hashtable.h, which no other file includes. Buckets are records in a
  store addressed by what \<open>kmem_alloc\<close> returns.
\<close>

record hash_bucket =
  hnext :: u64
  hkey :: u32
  hpayload :: u32

record hash_table =
  hbuckets :: u64
  hsize :: u32
  hfn :: "u32 \<Rightarrow> u32"

record hheap = kheap +
  hb_arrays :: "u64 \<rightharpoonup> u64 list"
  hb_store :: "u64 \<rightharpoonup> hash_bucket"

definition hash_int :: "u32 \<Rightarrow> u32" where
  "hash_int p = p"

definition hash_init :: "u32 \<Rightarrow> 'a hheap_scheme \<Rightarrow> (hash_table \<times> 'a hheap_scheme) res" where
  "hash_init count h =
     (let sz = count * 8
      in bind_res (kmem_alloc h (ucast sz)) (\<lambda>(p, h).
           Inr (\<lparr>hbuckets = p, hsize = count, hfn = hash_int\<rparr>,
                h\<lparr>kmem := bzero (kmem h) p (ucast sz), hb_arrays := (hb_arrays h)(p \<mapsto> replicate (unat sz div 8) 0)\<rparr>)))"

text \<open>
  The loop over the bucket never advances: it ends at once, at the key or at the null pointer, or
  never. A missing bucket is linked through the null pointer.
\<close>

definition hash_insert :: "hash_table \<Rightarrow> u32 \<Rightarrow> u32 \<Rightarrow> 'a hheap_scheme \<Rightarrow> 'a hheap_scheme res" where
  "hash_insert t key v h =
     (if hsize t = 0 then Inl (Fault DivByZero)
      else bind_res (deref (hb_arrays h) (hbuckets t)) (\<lambda>arr.
        let i = unat (hfn t v mod hsize t)
        in if length arr \<le> i then Inl (Fault OutOfBounds)
           else
             let bucket = arr ! i
             in if bucket \<noteq> 0 then
                  bind_res (deref (hb_store h) bucket) (\<lambda>b.
                    if hkey b = key then Inr h else Inl (Fault Diverges))
                else bind_res (kmem_alloc h 16) (\<lambda>_. Inl (Fault NullDeref))))"

text \<open>
  \<open>hash_insert\<close> never inserts: when it returns, the key was in the table already and nothing changed;
  into the table \<open>hash_init\<close> makes, every insertion faults.
\<close>

lemma hash_insert_inert:
  "hash_insert t key v h = Inr h' \<Longrightarrow> h' = h"
  by (auto simp: hash_insert_def Let_def res_simps split: if_splits)

lemma hash_insert_fresh:
  assumes "hash_init count h = Inr (t, h1)" "0 < count" "unat count < 2 ^ 29" "hbuckets t \<noteq> 0"
    and "kmem_alloc h1 16 = Inr (p, h2)"
  shows "hash_insert t key v h1 = Inl (Fault NullDeref)"
proof -
  have u: "unat (count * 8) = unat count * 8" using assms(3) by (simp add: unat_word_ariths)
  have t: "hsize t = count" "hb_arrays h1 (hbuckets t) = Some (replicate (unat count) 0)"
    using assms(1) by (auto simp: hash_init_def Let_def res_simps u)
  have "unat (hfn t v mod count) < unat count"
    using assms(2) by (simp add: unat_mod word_less_nat_alt)
  then show ?thesis using assms(2,4,5) t by (auto simp: hash_insert_def Let_def deref_def)
qed

end
