(* ===== verification/Kernel.thy ===== *)
theory Kernel
  imports Ne2kProps HashTable
begin

text \<open>
  The kernel put together: \<open>main\<close> of src/src/main.c, and the calls through function pointers that
  connect the components - interrupt handlers, tasks, the device's send and the services'
  callbacks. A function pointer is the address of the function; the record \<open>kaddrs\<close> names them.
\<close>

unbundle bit_operations_syntax

subsection \<open>Addresses and state\<close>

record kaddrs =
  fn_read_keys :: u64
  fn_keyboard_irq :: u64
  fn_user_task :: u64
  fn_update_clock :: u64
  fn_timer_irq :: u64
  fn_ata_irq :: u64
  fn_ne2k_send :: u64
  fn_send_sync :: u64
  fn_dispatch :: u64
  fn_ne2k_irq :: u64
  fn_http_accept :: u64
  fn_http_read :: u64
  fn_echo_accept :: u64
  fn_echo_read :: u64
  fn_udp_echo :: u64
  fn_breakpoint :: u64
  fn_page_fault :: u64
  fn_protection :: u64
  fn_double_fault :: u64
  fn_call_user :: u64
  fn_reap :: u64
  fn_user_mode :: u64
  lit_h1 :: u64
  lit_separator :: u64
  lit_html :: u64
  lit_mod :: u64
  http_sp :: u64
  main_sp :: u64
  ata_array :: u64
  tss_addr :: u64
  kernel_stack_addr :: u64
  safe_stack_addr :: u64
  fats :: fat_addrs

text \<open>What the machine provides: ports, PCI configuration space, the clock chip and \<open>cpuid\<close>.\<close>

record 'd machine =
  mports :: "'d port_io"
  mpci :: "u32 \<Rightarrow> u32"
  mcmos :: cmos
  mcpuid :: "u32 \<Rightarrow> u32 \<times> u32 \<times> u32 \<times> u32"

record 'd sysworld = "'d eworld" +
  gdt_tss :: "tss \<times> gdt_entry list"
  rtc_reads :: nat

subsection \<open>Calls through function pointers\<close>

text \<open>\<open>kfuel\<close> bounds the loops that wait for hardware.\<close>

definition send_env :: "kaddrs \<Rightarrow> ('d, 'a) sysworld_scheme net_env" where
  "send_env ka = \<lparr>
     send_call = (\<lambda>fn dev sb w. if fn = fn_ne2k_send ka then ne2k_send (fn_send_sync ka) dev sb w else Inl (Fault (BadPointer fn))),
     read_call = (\<lambda>fn s bs n w. Inl (Fault (BadPointer fn))),
     accept_call = (\<lambda>fn w. Inl (Fault (BadPointer fn))),
     notify_call = (\<lambda>fn q bs n w. Inl (Fault (BadPointer fn)))\<rparr>"

definition kernel_env :: "'d machine \<Rightarrow> nat \<Rightarrow> kaddrs \<Rightarrow> ('d, 'a) sysworld_scheme net_env" where
  "kernel_env mc kfuel ka = (send_env ka)\<lparr>
     read_call := (\<lambda>fn s bs n w.
       if fn = fn_http_read ka
       then http_read (send_env ka) (kernel_fs (mports mc) kfuel (fats ka)) (lit_h1 ka) (lit_separator ka) (lit_html ka) (http_sp ka) s w
       else if fn = fn_echo_read ka then tcp_echo_read (send_env ka) s bs n w
       else Inl (Fault (BadPointer fn))),
     accept_call := (\<lambda>fn w.
       if fn = fn_http_accept ka then Inr (http_accept (fn_http_read ka), w)
       else if fn = fn_echo_accept ka then Inr (tcp_echo_accept (fn_echo_read ka), w)
       else Inl (Fault (BadPointer fn))),
     notify_call := (\<lambda>fn q bs n w.
       if fn = fn_udp_echo ka then udp_echo_notify (send_env ka) q bs n w else Inl (Fault (BadPointer fn)))\<rparr>"

text \<open>The tasks of the queue; \<open>call_user_function\<close> of entry.asm and the breakpoint of a function key are parameters.\<close>

definition kernel_task ::
  "'d machine \<Rightarrow> nat \<Rightarrow> kaddrs \<Rightarrow> (u64 \<Rightarrow> ('d, 'a) sysworld_scheme \<Rightarrow> ('d, 'a) sysworld_scheme res) \<Rightarrow> (console \<Rightarrow> console res) \<Rightarrow>
    u64 \<Rightarrow> u64 \<Rightarrow> ('d, 'a) sysworld_scheme \<Rightarrow> ('d, 'a) sysworld_scheme res" where
  "kernel_task mc kfuel ka call_user int3 fn u w =
     (if fn = fn_read_keys ka then
        bind_res (read_keys int3 32 (buffer w, kb w, con w)) (\<lambda>(b, k, c). Inr (w\<lparr>buffer := b, kb := k, con := c\<rparr>))
      else if fn = fn_user_task ka then Inr (user_task w)
      else if fn = fn_send_sync ka then send_sync (mports mc) u w
      else if fn = fn_dispatch ka then dispatch (kernel_env mc kfuel ka) u w
      else if fn = fn_call_user ka then call_user u w
      else Inl (Fault (BadPointer fn)))"

definition kernel_irq ::
  "'d machine \<Rightarrow> nat \<Rightarrow> kaddrs \<Rightarrow> u64 \<Rightarrow> u64 \<Rightarrow> ('d, 'a) sysworld_scheme \<Rightarrow> ('d, 'a) sysworld_scheme res" where
  "kernel_irq mc kfuel ka fn u w =
     (if fn = fn_keyboard_irq ka then let (b, w) = inb_hw (mports mc) 0x60 w in keyboard_irq b w
      else if fn = fn_timer_irq ka then
        bind_res (timer_irq (mcmos mc) kfuel kfuel (rtc_reads w) u w) (\<lambda>(n, w). Inr (w\<lparr>rtc_reads := n\<rparr>))
      else if fn = fn_ne2k_irq ka then ne2k_irq (mports mc) kfuel kfuel (fn_dispatch ka) u w
      else if fn = fn_ata_irq ka then ata_irq_handler w
      else Inl (Fault (BadPointer fn)))"

subsection \<open>Start-up (main.c)\<close>

definition kernel_main :: "'d machine \<Rightarrow> nat \<Rightarrow> kaddrs \<Rightarrow> ('d, 'a) sysworld_scheme \<Rightarrow> ('d, 'a) sysworld_scheme res" where
  "kernel_main mc kfuel ka w =
     (let io = mports mc; w = w\<lparr>con := console_set_color 2 0 (con w)\<rparr>
      in bind_res (on_con (console_print_string (str ''BadOS-64'' @ [10]) []) w) (\<lambda>w.
         bind_res (on_con (cpu_details (mcpuid mc)) (w\<lparr>con := console_set_color 7 0 (con w)\<rparr>)) (\<lambda>w.
         let w = register_interrupt_handler 3 (fn_breakpoint ka) 0 w;
             w = register_interrupt_handler 0xe (fn_page_fault ka) 0 w;
             w = register_interrupt_handler 0xd (fn_protection ka) 0 w;
             w = register_interrupt_handler 8 (fn_double_fault ka) 0 w;
             w = w\<lparr>gdt_tss := init_gdt (tss_addr ka) (kernel_stack_addr ka) (safe_stack_addr ka)\<rparr>;
             w = init_interrupts w;
             ram = load32 (kmem w) 0x5020; cpuSpeed = load16 (kmem w) 0x5010
         in bind_res (on_con (console_print_string ([10] @ str ''System RAM: %d MB. CPU Speed: %d MHz'' @ [10, 10])
                [AInt ram, AInt (ucast cpuSpeed)]) w) (\<lambda>w.
            bind_res (parse_memory_map kfuel (kmem_init w)) (\<lambda>w.
            bind_res (on_con (init_pci (mpci mc)) w) (\<lambda>w.
            bind_res (init_ne2k (mpci mc) io (kernel_env mc kfuel ka) (fn_ne2k_send ka) (fn_ne2k_irq ka) w) (\<lambda>w.
            bind_res (init_keyboard (fn_read_keys ka) (fn_keyboard_irq ka) w) (\<lambda>w.
            bind_res (init_ata io kfuel (fats ka) (fn_ata_irq ka) (ata_array ka) w) (\<lambda>w.
            bind_res (init_http (fn_http_accept ka) w) (\<lambda>w.
            bind_res (init_echo (fn_echo_accept ka) (fn_udp_echo ka) w) (\<lambda>w.
            bind_res (init_clock (fn_user_task ka) (fn_update_clock ka) (fn_timer_irq ka) w) (\<lambda>w.
            bind_res (vfs_read (kernel_fs io kfuel (fats ka)) (lit_mod ka) (main_sp ka) 256
                (w\<lparr>kmem := bzero (kmem w) (main_sp ka) 256\<rparr>)) (\<lambda>(r, w).
            bind_res
              (if r < 0 then
                 on_con (console_print_string (str ''Cannot read mod.txt: %d'' @ [10]) [AInt (word_of_int r)])
                   (w\<lparr>con := console_set_color 0 4 (con w)\<rparr>)
               else if 0 \<notin> set (read_mem (kmem w) (main_sp ka) 256) then Inl (Fault OutOfBounds)
               else
                 bind_res (on_con (console_print_string (str ''MOTD: %s'') [AStr (cstr (kmem w) (main_sp ka) 256)])
                   (w\<lparr>con := console_set_color 9 0 (con w)\<rparr>)) (\<lambda>w. Inr (w\<lparr>con := console_set_color 7 0 (con w)\<rparr>))) (\<lambda>w.
            bind_res (create_process (fn_reap ka) (fn_call_user ka) (fn_user_mode ka)
                (w\<lparr>con := console_set_color 7 0 (con w)\<rparr>)) (\<lambda>(p, w).
              on_con (console_print_string (str ''Starting up main loop'' @ [10]) []) w)))))))))))))))"


subsection \<open>From key presses to the screen\<close>

lemma read_keys_all:
  "ring_rep b us \<Longrightarrow> length us \<le> fuel \<Longrightarrow>
    \<exists>b'. ring_rep b' [] \<and> read_keys int3 fuel (b, s) = bind_res (each (read_key int3) us s) (\<lambda>s. Inr (b', s))"
proof (induction us arbitrary: b s fuel)
  case Nil
  then show ?case using ring_empty [OF Nil(1)] by (cases fuel) auto
next
  case (Cons u us)
  obtain f where f: "fuel = Suc f" "length us \<le> f" using Cons.prems(2) by (cases fuel) auto
  obtain b1 where b1: "buffer_pop b = Inr (u, b1)" "ring_rep b1 us" "buffer_has_data b"
    using ring_pop [OF Cons.prems(1)] by blast
  show ?case
  proof (cases "read_key int3 u s")
    case (Inl e)
    then show ?thesis using b1 f Cons.IH [OF b1(2) f(2)] by auto
  next
    case (Inr s1)
    obtain b' where "ring_rep b' []" "read_keys int3 f (b1, s1) = bind_res (each (read_key int3) us s1) (\<lambda>s. Inr (b', s))"
      using Cons.IH [OF b1(2) f(2)] by blast
    then show ?thesis using b1 f Inr by auto
  qed
qed

text \<open>Key interrupts while the task that reads keys waits at the head of the queue: nothing else changes.\<close>

lemma keyboard_irqs_queued:
  fixes w :: "'a kworld_scheme"
  assumes "thead w = t" "readKeybd w = t" "t \<noteq> 0" "tasks w t \<noteq> None"
  shows "ring_rep (buffer w) xs \<Longrightarrow> length xs + length us \<le> 31 \<Longrightarrow>
    \<exists>b. each keyboard_irq us w = Inr (w\<lparr>buffer := b\<rparr>) \<and> ring_rep b (xs @ us)"
  using assms
proof (induction us arbitrary: w xs)
  case Nil
  then show ?case by (intro exI [of _ "buffer w"]) simp
next
  case (Cons u us)
  obtain b1 where b1: "buffer_push (buffer w) u = Inr b1" "ring_rep b1 (xs @ [u])"
    using ring_push [of "buffer w" xs u] Cons.prems(1,2) by auto
  have irq: "keyboard_irq u w = Inr (w\<lparr>buffer := b1\<rparr>)"
    using b1(1) Cons.prems(3-6) by (auto simp: keyboard_irq_def task_enqueue_def deref_def)
  obtain b where "each keyboard_irq us (w\<lparr>buffer := b1\<rparr>) = Inr (w\<lparr>buffer := b1\<rparr>\<lparr>buffer := b\<rparr>)" "ring_rep b ((xs @ [u]) @ us)"
    using Cons.IH [of "w\<lparr>buffer := b1\<rparr>" "xs @ [u]"] b1(2) Cons.prems(2-6) by auto
  then show ?case using irq by auto
qed

lemma keyboard_irqs_first:
  fixes w :: "'a kworld_scheme"
  assumes w: "thead w = 0" "readKeybd w = t" "t \<noteq> 0" "tasks w t = Some k" "tnext k = 0"
    and us: "ring_rep (buffer w) []" "us \<noteq> []" "length us \<le> 31"
  shows "\<exists>b. each keyboard_irq us w =
      Inr (w\<lparr>tasks := (tasks w)(t \<mapsto> k\<lparr>refs := refs k + 1\<rparr>), thead := t, ttail := t, buffer := b\<rparr>) \<and> ring_rep b us"
proof -
  obtain v vs where v: "us = v # vs" using us(2) by (cases us) auto
  obtain b1 where b1: "buffer_push (buffer w) v = Inr b1" "ring_rep b1 [v]" using ring_push [OF us(1)] by auto
  let ?w = "w\<lparr>tasks := (tasks w)(t \<mapsto> k\<lparr>refs := refs k + 1\<rparr>), thead := t, ttail := t, buffer := b1\<rparr>"
  have "keyboard_irq v w = Inr ?w"
    using b1(1) w by (simp add: keyboard_irq_def task_enqueue_def deref_def add_ref_def task_update_def)
  moreover obtain b where "each keyboard_irq vs ?w = Inr (?w\<lparr>buffer := b\<rparr>)" "ring_rep b ([v] @ vs)"
    using keyboard_irqs_queued [of ?w t "[v]" vs] w(2,3) b1(2) us(3) v by auto
  ultimately show ?thesis by (auto simp: v)
qed


text \<open>
  C13. No key is lost or reordered on its way from the interrupt to the screen: after up to 31 key
  interrupts, polling for work runs the key task once, which handles the codes in the order of the
  interrupts, and leaves the task queue and the key buffer empty.
\<close>

theorem keys_handled_in_order:
  fixes w :: "('d, 'a) sysworld_scheme"
  assumes q: "tqueue w []" and t: "readKeybd w = t" "t \<noteq> 0" "tasks w t = Some k"
    and k: "tnext k = 0" "task_fn k = fn_read_keys ka" "refs k = 1"
    and us: "ring_rep (buffer w) []" "us \<noteq> []" "length us \<le> 31"
    and handled: "each (read_key int3) us (kb w, con w) = Inr (k', c')"
  shows "\<exists>w1 w2. each keyboard_irq us w = Inr w1 \<and>
    task_poll_for_work (kernel_task mc kfuel ka call_user int3) 2 w1 = Inr w2 \<and>
    kb w2 = k' \<and> con w2 = c' \<and> tqueue w2 [] \<and> ring_rep (buffer w2) [] \<and> tasks w2 = tasks w"
proof -
  have h0: "thead w = 0" using q by (simp add: tqueue_def)
  obtain b where b: "each keyboard_irq us w =
      Inr (w\<lparr>tasks := (tasks w)(t \<mapsto> k\<lparr>refs := refs k + 1\<rparr>), thead := t, ttail := t, buffer := b\<rparr>)" "ring_rep b us"
    using keyboard_irqs_first [OF h0 t k(1) us] by blast
  let ?w1 = "w\<lparr>tasks := (tasks w)(t \<mapsto> k\<lparr>refs := refs k + 1\<rparr>), thead := t, ttail := t, buffer := b\<rparr>"
  obtain b' where b': "ring_rep b' []" "read_keys int3 32 (b, kb w, con w) = Inr (b', k', c')"
    using read_keys_all [OF b(2), of 32 int3 "(kb w, con w)"] us(3) handled by auto
  let ?w2 = "?w1\<lparr>thead := 0, irq_on := True, tasks := tasks w, buffer := b', kb := k', con := c'\<rparr>"
  have "k\<lparr>tnext := 0, refs := 1\<rparr> = k" using k by (cases k) simp
  then have same: "(tasks w)(t \<mapsto> k\<lparr>tnext := 0, refs := 1\<rparr>) = tasks w" using t(3) by auto
  have "task_poll_for_work (kernel_task mc kfuel ka call_user int3) (Suc (Suc 0)) ?w1 = Inr ?w2"
    using t k b'(2)
    by (simp add: same task_get_def deref_def task_update_def disable_interrupts_def enable_interrupts_def Let_def kernel_task_def release_ref_def)
  then show ?thesis using b b'(1) by (auto simp: tqueue_def numeral_2_eq_2)
qed


definition demo_sys :: "u64 \<Rightarrow> u16 list sysworld" where
  "demo_sys fn = (cworld.extend demo_clock \<lparr>processes = Map.empty, hw = [], ata_devs = Map.empty, recv_size = Map.empty,
     pending_sends = Map.empty, gdt_tss = ([], []), rtc_reads = 0\<rparr>)
     \<lparr>readKeybd := 8, tasks := [8 \<mapsto> \<lparr>task_fn = fn, user = 0, refs = 1, tnext = 0\<rparr>]\<rparr>"

lemma demo_sys_fields:
  "thead (demo_sys fn) = 0" "readKeybd (demo_sys fn) = 8"
  "tasks (demo_sys fn) = [8 \<mapsto> \<lparr>task_fn = fn, user = 0, refs = 1, tnext = 0\<rparr>]"
  "con (demo_sys fn) = console_boot (replicate 4000 0)" "buffer (demo_sys fn) = \<lparr>bdata = replicate 32 0, br = 0, bw = 0\<rparr>"
  "kb (demo_sys fn) = \<lparr>shift = UP, control = UP, alt = UP, capsEnabled = False, numEnabled = False, scrollEnabled = False\<rparr>"
  by (simp_all add: demo_sys_def cworld.defs demo_clock_def nworld.defs demo_net_def demo_more_def kheap.defs)

theorem keys_handled_in_order_witness:
  "\<forall>(ka :: kaddrs) (mc :: u16 list machine). \<exists>w1 w2. each keyboard_irq [30, 48] (demo_sys (fn_read_keys ka)) = Inr w1 \<and>
     task_poll_for_work (kernel_task mc 0 ka (\<lambda>u. Inr) Inr) 2 w1 = Inr w2 \<and> serial (con w2) = str ''ab''"
proof (intro allI)
  fix ka :: kaddrs and mc :: "u16 list machine"
  let ?k = "\<lparr>shift = UP, control = UP, alt = UP, capsEnabled = False, numEnabled = False, scrollEnabled = False\<rparr>"
  let ?c = "console_boot (replicate 4000 0)" and ?w = "demo_sys (fn_read_keys ka)"
  have l: "letter_key (unat (30 :: u8))" "letter_key (unat (48 :: u8))" by (simp_all add: letter_key_def scancode_def)
  have ok: "console_ok ?c" by (simp add: console_ok_def console_boot_def cursor_def)
  obtain c1 where c1: "read_key Inr 30 (?k, ?c) = Inr (?k, c1)" "console_ok c1" "serial c1 = [97]"
    using read_key_letter_eq [OF l(1) ok, of Inr ?k] by (auto simp: scancode_def console_boot_def)
  obtain c2 where c2: "read_key Inr 48 (?k, c1) = Inr (?k, c2)" "serial c2 = [97, 98]"
    using read_key_letter_eq [OF l(2) c1(2), of Inr ?k] c1(3) by (auto simp: scancode_def)
  have r: "each (read_key Inr) [30, 48] (kb ?w, con ?w) = Inr (?k, c2)" using c1(1) c2(1) by (simp add: demo_sys_fields)
  have q: "tqueue ?w []" by (simp add: tqueue_def demo_sys_fields)
  have b: "ring_rep (buffer ?w) []" by (simp add: demo_sys_fields ring_rep_def ring_ok_def ring_count_def)
  obtain w1 w2 where w: "each keyboard_irq [30, 48] ?w = Inr w1"
    "task_poll_for_work (kernel_task mc 0 ka (\<lambda>u. Inr) Inr) 2 w1 = Inr w2" "con w2 = c2"
    using keys_handled_in_order [OF q demo_sys_fields(2) _ _ _ _ _ b _ _ r, where mc = mc and kfuel = 0 and ka = ka and call_user = "\<lambda>u. Inr"]
    by (auto simp: demo_sys_fields simp del: each.simps)
  have "serial (con w2) = str ''ab''" by (simp add: w(3) c2(2) str_def)
  with w(1,2) show "\<exists>w1 w2. each keyboard_irq [30, 48] ?w = Inr w1 \<and>
     task_poll_for_work (kernel_task mc 0 ka (\<lambda>u. Inr) Inr) 2 w1 = Inr w2 \<and> serial (con w2) = str ''ab''" by blast
qed

end
