(* ===== verification/MemMap.thy ===== *)
theory MemMap
  imports Boot
begin

text \<open>
  Start-up of the heap: \<open>parse_memory_map\<close> of src/src/main.c against the table the boot loader leaves.
\<close>

unbundle bit_operations_syntax

subsection \<open>What adding a block leaves alone\<close>

lemma write_mem_out: "length xs \<le> unat (x - a) \<Longrightarrow> write_mem m a xs x = m x"
  by (simp add: write_mem_def)

lemma unat_diff_offset: "k \<le> unat (x - a) \<Longrightarrow> unat (x - (a + of_nat k)) = unat (x - a) - k" for x :: u64
proof -
  assume k: "k \<le> unat (x - a)"
  have u: "unat (of_nat k :: u64) = k" using k unat_less_2p [of "x - a"] by (intro unat_of_nat_small) simp
  have "unat ((x - a) - of_nat k) = unat (x - a) - k" using k u by (subst unat_sub) (simp_all only: word_le_nat_alt)
  then show ?thesis by (simp only: diff_diff_eq)
qed

lemma kmem_add_block_local:
  assumes add: "kmem_add_block h s sz cs = Inr h'" and x: "24 + unat (blk_nChunks (kmem h') s) \<le> unat (x - s)"
  shows "kmem h' x = kmem h x"
proof -
  define m3 where "m3 = store32 (store64 (store64 (kmem h) s (heap_block h)) (s + 8) (sz - sizeof_Block)) (s + 20) (ucast cs)"
  obtain v v' where v: "kmem h' = bzero (store32 (store32 m3 (s + 16) v) (s + 16) v') (s + sizeof_Block) (ucast (blk_nChunks (store32 (store32 m3 (s + 16) v) (s + 16) v') s))"
    using add unfolding kmem_add_block_def Let_def m3_def [symmetric] by (auto split: if_splits)
  define m5 where "m5 = store32 (store32 m3 (s + 16) v) (s + 16) v'"
  define n where "n = unat (blk_nChunks m5 s)"
  have k: "kmem h' = write_mem m5 (s + 24) (replicate n 0)" using v by (simp add: m5_def [symmetric] bzero_eq n_def sizeof_Block_def)
  have "n < 2 ^ 32" using unat_less_2p [of "blk_nChunks m5 s"] by (simp add: n_def)
  then have "separate (s + 16) 4 (s + 24) n" by (simp add: separate_def)
  then have "unat (blk_nChunks (kmem h') s) = n" by (simp add: k blk_nChunks_def load32_write_separate n_def)
  with x have d: "24 + n \<le> unat (x - s)" by simp
  have off: "unat (x - (s + 8)) = unat (x - s) - 8" "unat (x - (s + 16)) = unat (x - s) - 16"
      "unat (x - (s + 20)) = unat (x - s) - 20" "unat (x - (s + 24)) = unat (x - s) - 24"
    using unat_diff_offset [of 8 x s] unat_diff_offset [of 16 x s] unat_diff_offset [of 20 x s] unat_diff_offset [of 24 x s] d by simp_all
  show ?thesis using d off
    by (simp add: k m5_def m3_def store32_def store64_def write_mem_out)
qed

subsection \<open>Blocks with every chunk free\<close>

text \<open>
  \<open>fresh_block m s k cs\<close>: at \<open>s\<close> is a block of chunks of \<open>cs\<close> bytes made of a region of \<open>k\<close> bytes; its
  chunk count is what fits behind the 24 bytes of the struct, rounded down to a multiple of four.
\<close>

definition fresh_block :: "mem \<Rightarrow> u64 \<Rightarrow> nat \<Rightarrow> nat \<Rightarrow> bool" where
  "fresh_block m s k cs \<longleftrightarrow> block_ok m s \<and> 24 \<le> k \<and> unat (blk_chunkSize m s) = cs \<and>
     unat (blk_nChunks m s) = (k - 24) div cs div 4 * 4 \<and>
     (\<forall>i < unat (blk_nChunks m s). \<not> used m s i)"

lemma fresh_blockD:
  assumes "fresh_block m s k cs"
  shows "24 + unat (blk_nChunks m s) \<le> k" "unat (blk_nChunks m s) mod 4 = 0"
proof -
  have "(k - 24) div cs \<le> k - 24" by (rule div_le_dividend)
  with assms show "24 + unat (blk_nChunks m s) \<le> k" unfolding fresh_block_def by linarith
  show "unat (blk_nChunks m s) mod 4 = 0" using assms by (simp add: fresh_block_def)
qed

lemma same_region:
  assumes same: "\<And>x. unat (x - s) < k \<Longrightarrow> m' x = m x" and off: "off + n \<le> k" "k \<le> 2 ^ 64"
  shows "read_mem m' (s + of_nat off) n = read_mem m (s + of_nat off) n"
proof (rule read_mem_cong)
  fix i assume i: "i < n"
  have "s + of_nat off + of_nat i - s = of_nat (off + i)" by simp
  moreover have "unat (of_nat (off + i) :: u64) = off + i" using i off by (intro unat_of_nat_small) simp
  ultimately show "m' (s + of_nat off + of_nat i) = m (s + of_nat off + of_nat i)" using i off by (intro same) simp
qed

lemma fresh_block_frame:
  assumes b: "fresh_block m s k cs" and same: "\<And>x. unat (x - s) < k \<Longrightarrow> m' x = m x" and k: "k \<le> 2 ^ 64"
  shows "fresh_block m' s k cs" "blk_next m' s = blk_next m s"
proof -
  let ?n = "unat (blk_nChunks m s)"
  have k24: "24 + ?n \<le> k" using b by (rule fresh_blockD)
  have r: "read_mem m' (s + of_nat off) n = read_mem m (s + of_nat off) n" if "off + n \<le> 24 + ?n" for off n
    using that k24 k by (intro same_region [of s k]) (auto simp: same)
  have f: "blk_next m' s = blk_next m s" "blk_nChunks m' s = blk_nChunks m s" "blk_chunkSize m' s = blk_chunkSize m s"
    using r [of 0 8] r [of 16 4] r [of 20 4] by (simp_all add: blk_next_def blk_nChunks_def blk_chunkSize_def load32_def load64_def)
  have "used m' s i = used m s i" if i: "i < ?n" for i
  proof -
    have "?n mod 4 = 0" using b by (rule fresh_blockD)
    then obtain q where q: "?n = 4 * q" by auto
    have "32 * (i div 32) \<le> i" by simp
    with i q have "8 * (i div 32) < q" by linarith
    with q have "24 + 4 * (i div 32) + 4 \<le> 24 + ?n" by linarith
    from r [OF this] have "read_mem m' (s + of_nat (24 + 4 * (i div 32))) 4 = read_mem m (s + of_nat (24 + 4 * (i div 32))) 4" .
    moreover have "mask_addr s (of_nat (i div 32)) = s + of_nat (24 + 4 * (i div 32))"
    proof -
      have "i < 2 ^ 32" using i unat_less_2p [of "blk_nChunks m s"] by simp
      then have "unat (of_nat (i div 32) :: u32) = i div 32" by (rule unat_mask_index)
      then have "(ucast (of_nat (i div 32) :: u32) :: u64) = of_nat (i div 32)" by (metis of_nat_unat)
      then show ?thesis by (simp add: mask_addr_def layout)
    qed
    ultimately show ?thesis by (simp add: used_def chunkMask_def load32_def)
  qed
  moreover have "block_ok m' s = block_ok m s" unfolding block_ok_def f ..
  ultimately show "fresh_block m' s k cs" using b f by (simp add: fresh_block_def [of m'] fresh_block_def [of m])
  show "blk_next m' s = blk_next m s" by (rule f(1))
qed

text \<open>Regions \<open>(start, length)\<close> that can become a block.\<close>

definition region_ok :: "u64 \<Rightarrow> u64 \<times> u64 \<Rightarrow> bool" where
  "region_ok cs r \<longleftrightarrow> (case r of (s, sz) \<Rightarrow> s \<noteq> 0 \<and> unat s mod 8 = 0 \<and> unat s + 2 * unat sz + 40 < 2 ^ 63 \<and>
     24 \<le> unat sz \<and> (unat sz - 24) div unat cs < 2 ^ 32)"

lemma add_region:
  fixes h :: "'a kheap_scheme"
  assumes "region_ok cs (s, sz)" "8 < unat cs" "unat cs < 2 ^ 32"
  obtains h' where "kmem_add_block h s sz cs = Inr h'" "heap_block h' = s" "blk_next (kmem h') s = heap_block h"
    "fresh_block (kmem h') s (unat sz) (unat cs)" "\<And>x. unat sz \<le> unat (x - s) \<Longrightarrow> kmem h' x = kmem h x"
    "kheap.more h' = kheap.more h"
proof -
  have a: "s \<noteq> 0" "unat s mod 8 = 0" "unat s + 2 * unat sz + 40 < 2 ^ 63" "(unat sz - 24) div unat cs < 2 ^ 32" "24 \<le> unat sz"
    using assms(1) by (auto simp: region_ok_def)
  obtain h' where h': "kmem_add_block h s sz cs = Inr h'" "heap_block h' = s" "blk_next (kmem h') s = heap_block h"
    "block_ok (kmem h') s" "unat (blk_chunkSize (kmem h') s) = unat cs"
    "unat (blk_nChunks (kmem h') s) = (unat sz - 24) div unat cs div 4 * 4"
    "\<forall>i < unat (blk_nChunks (kmem h') s). \<not> used (kmem h') s i"
    using kmem_add_block_ok [OF a(1-3) assms(2,3) a(4,5), of h] by blast
  have f: "fresh_block (kmem h') s (unat sz) (unat cs)" using h'(4-7) a(5) by (simp add: fresh_block_def)
  note n = fresh_blockD(1) [OF f]
  note f
  moreover have "kmem h' x = kmem h x" if "unat sz \<le> unat (x - s)" for x
    using n that by (intro kmem_add_block_local [OF h'(1)]) simp
  ultimately show ?thesis using that h'(1-3) kmem_add_block_more [OF h'(1)] by blast
qed

text \<open>
  The masks are not taken off the size before the chunks are counted: a region that is filled exactly
  has its last chunk reach past its end.
\<close>

lemma block_past_region:
  fixes h :: "'a kheap_scheme"
  assumes r: "region_ok cs (s, sz)" "8 < unat cs" "unat cs < 2 ^ 32" and q: "unat sz = 24 + 4 * q * unat cs" "0 < q"
    and add: "kmem_add_block h s sz cs = Inr h'"
  shows "unat s + unat sz < unat (chunk_addr (kmem h') s (4 * q - 1)) + unat cs"
proof -
  have a: "s \<noteq> 0" "unat s mod 8 = 0" "unat s + 2 * unat sz + 40 < 2 ^ 63" "(unat sz - 24) div unat cs < 2 ^ 32" "24 \<le> unat sz"
    using r(1) by (auto simp: region_ok_def)
  have b: "block_ok (kmem h') s" "unat (blk_chunkSize (kmem h') s) = unat cs"
    "unat (blk_nChunks (kmem h') s) = (unat sz - 24) div unat cs div 4 * 4"
    using kmem_add_block_ok [OF a(1-3) r(2,3) a(4,5), of h] add by auto
  then have n: "unat (blk_nChunks (kmem h') s) = 4 * q" using q r(2) by simp
  have "unat (chunk_addr (kmem h') s (4 * q - 1)) = unat s + 32 + 8 * (4 * q div 32) + (4 * q - 1) * unat cs"
    using unat_chunk_addr [OF b(1), of "4 * q - 1"] n b(2) q(2) by simp
  moreover have "(4 * q - 1) * unat cs + unat cs = 4 * q * unat cs" using q(2) by (cases q) (simp_all add: algebra_simps)
  ultimately show ?thesis using q(1) by linarith
qed

text \<open>
  A heap made of a list of regions, each with its chunk size: the block list in this order,
  every chunk free.
\<close>

definition heap_of :: "'a kheap_scheme \<Rightarrow> ((u64 \<times> u64) \<times> nat) list \<Rightarrow> bool" where
  "heap_of h rs \<longleftrightarrow> block_chain (kmem h) (heap_block h) (map (fst \<circ> fst) rs) \<and>
     (\<forall>((s, sz), cs) \<in> set rs. fresh_block (kmem h) s (unat sz) cs)"

definition apart :: "u64 \<times> u64 \<Rightarrow> u64 \<times> u64 \<Rightarrow> bool" where
  "apart r r' \<longleftrightarrow> separate (fst r) (unat (snd r)) (fst r') (unat (snd r'))"

lemma apart_out: "apart (s, sz) (s', sz') \<Longrightarrow> unat (x - s) < unat sz \<Longrightarrow> unat sz' \<le> unat (x - s')"
  using separate_less [of s "unat sz" s' "unat sz'" "unat (x - s)"] by (simp add: apart_def not_less)

lemma block_chain_frame:
  "(\<And>b. b \<in> set bs \<Longrightarrow> blk_next m' b = blk_next m b) \<Longrightarrow> block_chain m' b bs = block_chain m b bs"
  by (induction bs arbitrary: b) auto

lemma heap_of_add:
  fixes h :: "'a kheap_scheme"
  assumes rs: "heap_of h rs" and r: "region_ok cs (s, sz)" "8 < unat cs" "unat cs < 2 ^ 32"
    and apart: "\<And>r. r \<in> set rs \<Longrightarrow> apart (fst r) (s, sz)"
  obtains h' where "kmem_add_block h s sz cs = Inr h'" "heap_of h' (((s, sz), unat cs) # rs)"
    "\<And>x. unat sz \<le> unat (x - s) \<Longrightarrow> kmem h' x = kmem h x" "kheap.more h' = kheap.more h"
proof -
  obtain h' where h': "kmem_add_block h s sz cs = Inr h'" "heap_block h' = s" "blk_next (kmem h') s = heap_block h"
    "fresh_block (kmem h') s (unat sz) (unat cs)" "\<And>x. unat sz \<le> unat (x - s) \<Longrightarrow> kmem h' x = kmem h x" "kheap.more h' = kheap.more h"
    by (rule add_region [OF r, of h]) blast
  have keep: "fresh_block (kmem h') t (unat tz) cz" "blk_next (kmem h') t = blk_next (kmem h) t" if t: "((t, tz), cz) \<in> set rs" for t tz cz
  proof -
    have "fresh_block (kmem h) t (unat tz) cz" using rs t by (auto simp: heap_of_def)
    moreover have "kmem h' x = kmem h x" if "unat (x - t) < unat tz" for x
      using apart_out [OF apart [OF t, simplified] that] by (rule h'(5))
    ultimately show "fresh_block (kmem h') t (unat tz) cz" "blk_next (kmem h') t = blk_next (kmem h) t"
      using fresh_block_frame [of "kmem h" t "unat tz" cz "kmem h'"] unat_less_2p [of tz] by simp_all
  qed
  then have "block_chain (kmem h') (heap_block h) (map (fst \<circ> fst) rs)"
    using rs by (subst block_chain_frame [of _ "kmem h'" "kmem h"]) (auto simp: heap_of_def)
  moreover have "s \<noteq> 0" using r(1) by (simp add: region_ok_def)
  ultimately have "heap_of h' (((s, sz), unat cs) # rs)" using h'(2-4) keep(1) by (auto simp: heap_of_def)
  with h'(1,5,6) that show ?thesis by blast
qed

subsection \<open>The table of the boot loader\<close>

text \<open>The entries from number \<open>j\<close> on, up to the terminating entry of zeroes.\<close>

abbreviation entry_addr :: "nat \<Rightarrow> u64" where
  "entry_addr j \<equiv> 0x4000 + of_nat (32 * j)"

fun map_entries :: "mem \<Rightarrow> nat \<Rightarrow> (u64 \<times> u64 \<times> u32) list \<Rightarrow> bool" where
  "map_entries m j [] \<longleftrightarrow> load64 m (entry_addr j) = 0 \<and> load64 m (entry_addr j + 8) = 0"
| "map_entries m j ((p, l, ty) # es) \<longleftrightarrow> (p \<noteq> 0 \<or> l \<noteq> 0) \<and> load64 m (entry_addr j) = p \<and> load64 m (entry_addr j + 8) = l \<and>
     load32 m (entry_addr j + 16) = ty \<and> map_entries m (Suc j) es"

text \<open>The usable regions above the kernel, as \<open>main.c\<close> clips them.\<close>

definition usable :: "u64 \<times> u64 \<times> u32 \<Rightarrow> bool" where
  "usable e \<longleftrightarrow> (case e of (p, l, ty) \<Rightarrow> l \<noteq> 0 \<and> ty = 1 \<and> HeapStart \<le> p + l)"

definition clip :: "u64 \<times> u64 \<times> u32 \<Rightarrow> u64 \<times> u64" where
  "clip e = (case e of (p, l, ty) \<Rightarrow> if p < HeapStart then (HeapStart, l - (HeapStart - p)) else (p, l))"

text \<open>The blocks of a list of regions: the latest region first, chunks of one kilobyte.\<close>

abbreviation region_blocks :: "(u64 \<times> u64) list \<Rightarrow> ((u64 \<times> u64) \<times> nat) list" where
  "region_blocks rs \<equiv> map (\<lambda>r. (r, 0x400)) (rev rs)"

definition heap_regions :: "(u64 \<times> u64 \<times> u32) list \<Rightarrow> (u64 \<times> u64) list" where
  "heap_regions es = map clip (filter usable es)"

lemma map_entries_frame:
  assumes same: "\<And>x. unat (x - 0x4000) < 0x4000 \<Longrightarrow> m' x = m x"
  shows "map_entries m j es \<Longrightarrow> j + length es < 512 \<Longrightarrow> map_entries m' j es"
proof -
  have r: "read_mem m' (0x4000 + of_nat off) n = read_mem m (0x4000 + of_nat off) n" if "off + n \<le> 0x4000" for off n
    using that by (intro same_region [of "0x4000" "0x4000"]) (simp_all add: same)
  have f: "load64 m' (entry_addr j) = load64 m (entry_addr j)" "load64 m' (entry_addr j + 8) = load64 m (entry_addr j + 8)"
    "load32 m' (entry_addr j + 16) = load32 m (entry_addr j + 16)" if "j < 512" for j
    using r [of "32 * j" 8] r [of "32 * j + 8" 8] r [of "32 * j + 16" 4] that
    by (simp_all add: load64_def load32_def algebra_simps)
  show "map_entries m j es \<Longrightarrow> j + length es < 512 \<Longrightarrow> map_entries m' j es"
    by (induction es arbitrary: j) (auto simp: f [simplified])
qed

lemma adding_message:
  assumes "console_ok c"
  obtains c' where "console_print_string (str ''Adding %p %x to available heap'' @ [10]) [APtr b, AInt l] c = Inr c'" "console_ok c'"
proof -
  have "\<exists>out. render (str ''Adding %p %x to available heap'' @ [10]) [APtr b, AInt l] = Some out" by (simp add: str_def)
  then show ?thesis
    using print_fmt_renders [OF assms, of "str ''Adding %p %x to available heap'' @ [10]" "[APtr b, AInt l]"] that
    by (auto simp: prints_def emits_def console_print_string_def)
qed

lemma more_con: "kheap.more (w :: 'a iworld_scheme) = kheap.more v \<Longrightarrow> con w = con v"
  by (cases w; cases v) simp

lemma memory_map_loop_heap:
  fixes w :: "'a iworld_scheme"
  shows "map_entries (kmem w) j es \<Longrightarrow> j + length es < 512 \<Longrightarrow> length es < fuel \<Longrightarrow> heap_of w rs \<Longrightarrow> console_ok (con w) \<Longrightarrow>
    (\<forall>r \<in> set (heap_regions es). region_ok 0x400 r \<and> apart (0x4000, 0x4000) r \<and> (\<forall>r' \<in> set rs. apart (fst r') r)) \<Longrightarrow>
    sorted_wrt apart (heap_regions es) \<Longrightarrow>
    \<exists>w'. memory_map_loop fuel (entry_addr j) w = Inr w' \<and> heap_of w' (region_blocks (heap_regions es) @ rs)"
proof (induction es arbitrary: j fuel w rs)
  case Nil
  then obtain f where "fuel = Suc f" by (cases fuel) auto
  then show ?case using Nil by (auto simp: heap_regions_def)
next
  case (Cons e es)
  obtain p l ty where e: "e = (p, l, ty)" by (cases e)
  obtain f where f: "fuel = Suc f" "length es < f" using Cons.prems(3) by (cases fuel) auto
  have ld: "load64 (kmem w) (entry_addr j) = p" "load64 (kmem w) (entry_addr j + 8) = l" "load32 (kmem w) (entry_addr j + 16) = ty"
    "p \<noteq> 0 \<or> l \<noteq> 0" "map_entries (kmem w) (Suc j) es" using Cons.prems(1) by (auto simp: e)
  have nx: "entry_addr j + 32 = entry_addr (Suc j)" by simp
  show ?case
  proof (cases "usable e")
    case False
    then have "\<not> (l \<noteq> 0 \<and> ty = 1 \<and> HeapStart \<le> p + l)" by (simp add: usable_def e)
    then have "memory_map_loop fuel (entry_addr j) w = memory_map_loop f (entry_addr (Suc j)) w"
      using ld f(1) nx by (auto simp: Let_def)
    moreover have "heap_regions (e # es) = heap_regions es" using False by (simp add: heap_regions_def)
    ultimately show ?thesis using Cons.IH [OF ld(5) _ f(2) Cons.prems(4,5)] Cons.prems(2,6,7) by simp
  next
    case True
    then have u: "l \<noteq> 0 \<and> ty = 1 \<and> HeapStart \<le> p + l" by (simp add: usable_def e)
    obtain s sz where c: "clip e = (s, sz)" by (cases "clip e")
    have rgs: "heap_regions (e # es) = (s, sz) # heap_regions es" using True c by (simp add: heap_regions_def)
    obtain c1 where c1: "console_print_string (str ''Adding %p %x to available heap'' @ [10]) [APtr s, AInt (ucast sz)] (con w) = Inr c1"
      "console_ok c1" by (rule adding_message [OF Cons.prems(5)])
    have ho: "heap_of (w\<lparr>con := c1\<rparr>) rs" using Cons.prems(4) by (simp add: heap_of_def)
    have r: "region_ok 0x400 (s, sz)" "apart (0x4000, 0x4000) (s, sz)" "\<And>r. r \<in> set rs \<Longrightarrow> apart (fst r) (s, sz)"
      using Cons.prems(6) by (auto simp: rgs)
    obtain w1 where w1: "kmem_add_block (w\<lparr>con := c1\<rparr>) s sz 0x400 = Inr w1" "heap_of w1 (((s, sz), 0x400) # rs)"
      "\<And>x. unat sz \<le> unat (x - s) \<Longrightarrow> kmem w1 x = kmem w x" "kheap.more w1 = kheap.more (w\<lparr>con := c1\<rparr>)"
      by (rule heap_of_add [OF ho r(1) _ _ r(3)]) simp_all
    have "map_entries (kmem w1) (Suc j) es"
      by (rule map_entries_frame [OF _ ld(5)]) (use w1(3) apart_out [OF r(2)] Cons.prems(2) in simp_all)
    moreover have "console_ok (con w1)" using more_con [OF w1(4)] c1(2) by simp
    moreover have "\<forall>r \<in> set (heap_regions es). region_ok 0x400 r \<and> apart (0x4000, 0x4000) r \<and> (\<forall>r' \<in> set (((s, sz), 0x400) # rs). apart (fst r') r)"
      using Cons.prems(6,7) by (auto simp: rgs)
    moreover have "sorted_wrt apart (heap_regions es)" using Cons.prems(7) by (simp add: rgs)
    ultimately obtain w' where "memory_map_loop f (entry_addr (Suc j)) w1 = Inr w'" "heap_of w' (region_blocks (heap_regions es) @ ((s, sz), 0x400) # rs)"
      using Cons.IH [of w1 "Suc j" f "((s, sz), 0x400) # rs"] w1(2) f(2) Cons.prems(2) by auto
    moreover have "memory_map_loop fuel (entry_addr j) w = memory_map_loop f (entry_addr (Suc j)) w1"
      using ld u c c1(1) w1(1) f(1) nx by (auto simp: Let_def clip_def e split: if_splits)
    ultimately show ?thesis by (auto simp: rgs)
  qed
qed

lemma heap_region_above: "(s, sz) \<in> set (heap_regions es) \<Longrightarrow> HeapStart \<le> s"
  by (auto simp: heap_regions_def clip_def split: if_splits)

lemma apart_low:
  assumes "region_ok cs (s, sz)" "HeapStart \<le> s" "unat b + unat n \<le> 0x200000" "0 < unat n"
  shows "apart (b, n) (s, sz)"
proof -
  have "0x200000 \<le> unat s" using assms(2) by (simp add: HeapStart_def word_le_nat_alt)
  then show ?thesis using assms by (auto simp: apart_def region_ok_def intro!: separateI_less)
qed

text \<open>
  C9. Start-up gives the heap all usable memory: for a table of up to 511 entries the block list ends up
  with exactly one block for each usable region above the kernel, the latest first and clipped to start at two
  megabytes, with chunks of one kilobyte, and the low block last, with chunks of 128 bytes. Each block has the chunks
  that fit its region behind the struct, rounded down to a multiple of four, and every chunk is free. The regions
  are aligned to eight bytes, at least 24 bytes long and do not overlap.
\<close>

theorem parse_memory_map_heap:
  fixes w :: "'a iworld_scheme"
  assumes "map_entries (kmem w) 0 es" "length es < 512" "length es < fuel" "console_ok (con w)" "heap_block w = 0"
    and "\<forall>r \<in> set (heap_regions es). region_ok 0x400 r" "sorted_wrt apart (heap_regions es)"
  shows "\<exists>w'. parse_memory_map fuel w = Inr w' \<and> heap_of w' (region_blocks (heap_regions es) @ [((0x8000, 0x2000), 0x80)])"
proof -
  have low: "region_ok 0x80 (0x8000, 0x2000)" by (simp add: region_ok_def)
  have "heap_of w []" using assms(5) by (simp add: heap_of_def)
  then obtain w1 where w1: "kmem_add_block w 0x8000 0x2000 0x80 = Inr w1" "heap_of w1 [((0x8000, 0x2000), 0x80)]"
    "\<And>x. unat (0x2000 :: u64) \<le> unat (x - 0x8000) \<Longrightarrow> kmem w1 x = kmem w x" "kheap.more w1 = kheap.more w"
    using heap_of_add [of w "[]" "0x80" "0x8000" "0x2000"] low by auto
  have "apart (0x4000, 0x4000) (0x8000, 0x2000)" by (simp add: apart_def separate_def)
  then have m: "map_entries (kmem w1) 0 es"
    using apart_out [of "0x4000" "0x4000" "0x8000" "0x2000"] assms(2)
    by (intro map_entries_frame [OF w1(3) assms(1)]) simp_all
  have c: "console_ok (con w1)" using more_con [OF w1(4)] assms(4) by simp
  have r: "\<forall>r \<in> set (heap_regions es). region_ok 0x400 r \<and> apart (0x4000, 0x4000) r \<and> (\<forall>r' \<in> set [((0x8000, 0x2000), 0x80 :: nat)]. apart (fst r') r)"
    using assms(6) heap_region_above apart_low by fastforce
  obtain w' where "memory_map_loop fuel (entry_addr 0) w1 = Inr w'" "heap_of w' (region_blocks (heap_regions es) @ [((0x8000, 0x2000), 0x80)])"
    using memory_map_loop_heap [OF m _ assms(3) w1(2) c r assms(7)] assms(2) by auto
  with w1(1) show ?thesis by (auto simp: parse_memory_map_def)
qed

text \<open>A machine with memory from one to four megabytes, and a reserved region.\<close>

definition demo_table :: mem where
  "demo_table = store32 (store64 (store64 (store32 (store64 (store64 (\<lambda>_. 0) 0x4000 0x100000) 0x4008 0x300000) 0x4010 1)
     0x4020 0x80000000) 0x4028 0x1000) 0x4030 2"

lemma load_zero: "load64 (\<lambda>_. 0) a = 0" "load32 (\<lambda>_. 0) a = 0"
proof -
  have "read_mem (\<lambda>_. 0) a n = replicate n 0" for n by (rule nth_equalityI) simp_all
  then show "load64 (\<lambda>_. 0) a = 0" "load32 (\<lambda>_. 0) a = 0" by (simp_all add: load64_def load32_def join_le_zeroes)
qed

theorem parse_memory_map_heap_witness:
  "\<exists>w'. parse_memory_map 3 (demo_clock\<lparr>kmem := demo_table\<rparr>) = Inr w' \<and>
    heap_of w' [((0x200000, 0x200000), 0x400), ((0x8000, 0x2000), 0x80)]"
proof -
  let ?es = "[(0x100000, 0x300000, 1), (0x80000000, 0x1000, 2)]"
  have "map_entries demo_table 0 ?es"
    by (simp add: demo_table_def mem_simps separate_def load_zero)
  moreover have "heap_regions ?es = [(0x200000, 0x200000)]"
    by (simp add: heap_regions_def usable_def clip_def HeapStart_def)
  moreover have "region_ok 0x400 (0x200000, 0x200000)" by (simp add: region_ok_def)
  moreover have "console_ok (con demo_clock)" "heap_block demo_clock = 0"
    by (simp_all add: demo_clock_def nworld.defs demo_net_def demo_more_def kheap.defs console_ok_def console_boot_def cursor_def)
  ultimately show ?thesis
    using parse_memory_map_heap [of "demo_clock\<lparr>kmem := demo_table\<rparr>" ?es 3] by simp
qed

end
