(* ===== verification/Serial.thy ===== *)
theory Serial
  imports Ata
begin

text \<open>
  The serial line of src/src/serial.c at the level of its ports, and why the console may log what it
  sends: \<open>serial_put\<close> of the console's model is what the driver does on a working transmitter.
\<close>

unbundle bit_operations_syntax

definition is_transmit_empty :: "'d port_io \<Rightarrow> u16 \<Rightarrow> ('d, 'a) hworld_scheme \<Rightarrow> bool \<times> ('d, 'a) hworld_scheme" where
  "is_transmit_empty io port w = (let (v, w) = inb_hw io (port + 5) w in (v AND 0x20 \<noteq> 0, w))"

fun serial_put_port :: "'d port_io \<Rightarrow> nat \<Rightarrow> u16 \<Rightarrow> u8 \<Rightarrow> ('d, 'a) hworld_scheme \<Rightarrow> ('d, 'a) hworld_scheme res" where
  "serial_put_port io 0 port c w = Inl (Fault Diverges)"
| "serial_put_port io (Suc fuel) port c w =
     (let (empty, w) = is_transmit_empty io port w
      in if empty then Inr (outb_hw io port c w) else serial_put_port io fuel port c w)"

text \<open>
  A transmitter (16550 UART, line status bit 5): \<open>busy\<close> bounds the looks at the status until it is empty,
  looking loses nothing, and a byte written when it is empty is the next one sent.
\<close>

definition uart :: "'d port_io \<Rightarrow> u16 \<Rightarrow> ('d \<Rightarrow> nat) \<Rightarrow> ('d \<Rightarrow> u8 list) \<Rightarrow> bool" where
  "uart io port busy sent \<longleftrightarrow>
     (\<forall>d v d'. io_inb io (port + 5) d = (v, d') \<longrightarrow>
        sent d' = sent d \<and> (v AND 0x20 = 0 \<longrightarrow> busy d' < busy d)) \<and>
     (\<forall>d c. sent (io_outb io port c d) = sent d @ [c])"

lemma serial_put_sends:
  assumes u: "uart io port busy sent"
  shows "busy (hw w) < fuel \<Longrightarrow>
    \<exists>d. serial_put_port io fuel port c w = Inr (w\<lparr>hw := d\<rparr>) \<and> sent d = sent (hw w) @ [c]"
proof (induction fuel arbitrary: w)
  case (Suc fuel)
  obtain v d where d: "io_inb io (port + 5) (hw w) = (v, d)" by (cases "io_inb io (port + 5) (hw w)")
  then have s: "sent d = sent (hw w)" "v AND 0x20 = 0 \<Longrightarrow> busy d < busy (hw w)"
    using u by (auto simp: uart_def)
  show ?case
  proof (cases "v AND 0x20 = 0")
    case True
    then have "serial_put_port io (Suc fuel) port c w = serial_put_port io fuel port c (w\<lparr>hw := d\<rparr>)"
      by (simp add: is_transmit_empty_def inb_hw_def d)
    then show ?thesis using Suc.IH [of "w\<lparr>hw := d\<rparr>"] Suc.prems s True by auto
  next
    case False
    then have "serial_put_port io (Suc fuel) port c w = Inr (w\<lparr>hw := io_outb io port c d\<rparr>)"
      by (simp add: is_transmit_empty_def inb_hw_def outb_hw_def d)
    then show ?thesis using u s(1) by (auto simp: uart_def)
  qed
qed simp

text \<open>Sent bytes and the console's log stay the same sequence.\<close>

lemma serial_put_refines:
  assumes "uart io port busy sent" "busy (hw w) < fuel" "sent (hw w) = serial (con w)"
  shows "\<exists>d. serial_put_port io fuel port c w = Inr (w\<lparr>hw := d\<rparr>) \<and> sent d = serial (serial_put c (con w))"
  using serial_put_sends [OF assms(1,2), of c] assms(3) by simp

end
