(* ===== verification/NetTypes.thy ===== *)
theory NetTypes
  imports NetIn
begin

text \<open>
  The types of the network stack's objects as an invariant, and its preservation: whatever frame
  arrives, every operation that returns leaves all socket buffers, streams, devices and the ARP table
  well formed. One preservation lemma per operation, in the order the layers are built.
\<close>

unbundle bit_operations_syntax

subsection \<open>The invariant\<close>

definition arp_ok :: "arp_table \<Rightarrow> bool" where
  "arp_ok t \<longleftrightarrow> length (arp_ips t) = 128 \<and> length (arp_macs t) = 128 \<and> unat (arp_count t) \<le> 128 \<and>
     (\<forall>m \<in> set (take (unat (arp_count t)) (arp_macs t)). length m = 6)"

definition net_ok :: "'a nworld_scheme \<Rightarrow> bool" where
  "net_ok w \<longleftrightarrow> (\<forall>s \<in> ran (sbuffs w). sbuff_ok s) \<and> (\<forall>st \<in> ran (streams w). stream_ok st) \<and>
     (\<forall>d \<in> ran (devices w). length (dev_mac d) = 6) \<and> arp_ok (arp_tab w)"

text \<open>A result that is an error or a well-formed world, alone or beside a value, and how binding checks it.\<close>

definition okr :: "'a nworld_scheme res \<Rightarrow> bool" where
  "okr r \<longleftrightarrow> (\<forall>w. r = Inr w \<longrightarrow> net_ok w)"

definition okp :: "('x \<times> 'a nworld_scheme) res \<Rightarrow> bool" where
  "okp r \<longleftrightarrow> (\<forall>x w. r = Inr (x, w) \<longrightarrow> net_ok w)"

text \<open>What the functions behind pointers have to keep.\<close>

definition env_ok :: "'a nworld_scheme net_env \<Rightarrow> bool" where
  "env_ok env \<longleftrightarrow>
     (\<forall>w. net_ok w \<longrightarrow> (\<forall>fn dv sb. okr (send_call env fn dv sb w)) \<and> (\<forall>fn s bs n. okr (read_call env fn s bs n w)) \<and>
       (\<forall>fn. okp (accept_call env fn w)) \<and> (\<forall>fn q bs n. okr (notify_call env fn q bs n w)))"

named_theorems net_type \<open>preservation of the types of the network's objects\<close>

lemma ok_Inr [simp]:
  "okr (Inr w) \<longleftrightarrow> net_ok w" "okp (Inr (x, w)) \<longleftrightarrow> net_ok w" "okr (Inl e)" "okp (Inl e)"
  by (auto simp: okr_def okp_def)

lemma bind_net [net_type]:
  "okr r \<Longrightarrow> (\<And>w. net_ok w \<Longrightarrow> okr (f w)) \<Longrightarrow> okr (bind_res r f)"
  "okr r \<Longrightarrow> (\<And>w. net_ok w \<Longrightarrow> okp (f' w)) \<Longrightarrow> okp (bind_res r f')"
  "okp q \<Longrightarrow> (\<And>x w. net_ok w \<Longrightarrow> okr (g (x, w))) \<Longrightarrow> okr (bind_res q g)"
  "okp q \<Longrightarrow> (\<And>x w. net_ok w \<Longrightarrow> okp (g' (x, w))) \<Longrightarrow> okp (bind_res q g')"
  by (cases r; auto simp: okr_def okp_def; fail | cases q; auto simp: okr_def okp_def)+

lemma bind_value:
  "(\<And>x. r = Inr x \<Longrightarrow> okr (f x)) \<Longrightarrow> okr (bind_res r f)" "(\<And>x. r = Inr x \<Longrightarrow> okp (g x)) \<Longrightarrow> okp (bind_res r g)"
  by (cases r; simp)+

lemmas bind_values [net_type] =
  bind_value [where r = "deref m p" for m p] bind_value [where r = "get8 bs i" for bs i]
  bind_value [where r = "get16 bs i" for bs i] bind_value [where r = "get32 bs i" for bs i]
  bind_value [where r = "get_bytes bs i n" for bs i n] bind_value [where r = "arp_scan t a e n" for t a e n]
  bind_value [where r = "put_bytes i bs d" for i bs d] bind_value [where r = "tcp_offset hdr" for hdr]
  bind_value [where r = "tcp_find dev src hdr w" for dev src hdr w]
  bind_value [where r = "find_listener n ls port l" for n ls port l]
  bind_value [where r = "stream_before n ss s l" for n ss s l] bind_value [where r = "map_lookup w m k" for w m k]

lemma net_ok_other [simp]:
  "net_ok (w\<lparr>kmem := m\<rparr>) = net_ok w" "net_ok (w\<lparr>con := c\<rparr>) = net_ok w" "net_ok (w\<lparr>tasks := t\<rparr>) = net_ok w"
  "net_ok (w\<lparr>all_streams := s\<rparr>) = net_ok w" "net_ok (w\<lparr>listeners := l\<rparr>) = net_ok w" "net_ok (w\<lparr>all_listeners := s\<rparr>) = net_ok w"
  "net_ok (w\<lparr>thead := s\<rparr>) = net_ok w" "net_ok (w\<lparr>ttail := s\<rparr>) = net_ok w" "net_ok (w\<lparr>ip_devices := mp\<rparr>) = net_ok w"
  "net_ok (w\<lparr>nodes := ns\<rparr>) = net_ok w" "net_ok (w\<lparr>entries := es\<rparr>) = net_ok w"
  by (simp_all add: net_ok_def)

lemma ran_upd: "x \<in> ran (m(k \<mapsto> v)) \<Longrightarrow> x = v \<or> x \<in> ran m"
  by (auto simp: ran_def split: if_splits)

lemma ran_del: "x \<in> ran (m(k := None)) \<Longrightarrow> x \<in> ran m"
  by (auto simp: ran_def split: if_splits)

lemma deref_ran: "deref m p = Inr x \<Longrightarrow> x \<in> ran m"
  by (auto simp: deref_def ran_def split: if_splits option.splits)

lemma net_ok_put: "net_ok w \<Longrightarrow> sbuff_ok s \<Longrightarrow> net_ok (w\<lparr>sbuffs := (sbuffs w)(p \<mapsto> s)\<rparr>)"
  by (auto simp: net_ok_def dest!: ran_upd)

lemma net_ok_put_stream: "net_ok w \<Longrightarrow> stream_ok s \<Longrightarrow> net_ok (w\<lparr>streams := (streams w)(p \<mapsto> s)\<rparr>)"
  by (auto simp: net_ok_def dest!: ran_upd)

lemma net_ok_del:
  "net_ok w \<Longrightarrow> net_ok (w\<lparr>sbuffs := (sbuffs w)(p := None)\<rparr>)" "net_ok w \<Longrightarrow> net_ok (w\<lparr>streams := (streams w)(p := None)\<rparr>)"
  by (auto simp: net_ok_def dest!: ran_del)

subsection \<open>Heap and buffers\<close>

lemma kmem_alloc_net [net_type]: "net_ok w \<Longrightarrow> okp (kmem_alloc w n)"
  using kmem_alloc_frame [of w n] by (fastforce simp: net_ok_def okp_def)

lemma kmem_free_net [net_type]: "net_ok w \<Longrightarrow> okr (kmem_free w p)"
  using kmem_free_frame [of w p] by (fastforce simp: net_ok_def okr_def)

lemma update_net:
  assumes "net_ok w" "\<And>s s'. sbuff_ok s \<Longrightarrow> f s = Inr s' \<Longrightarrow> sbuff_ok s'"
  shows "okr (sbuff_update p f w)"
proof -
  have "sbuff_ok s'" if "deref (sbuffs w) p = Inr s" "f s = Inr s'" for s s'
    using assms that deref_ran [OF that(1)] by (auto simp: net_ok_def)
  with assms(1) show ?thesis by (auto simp: okr_def sbuff_update_def res_simps intro!: net_ok_put)
qed

lemma push_head_type: "sbuff_ok s \<Longrightarrow> push_head n s = Inr s' \<Longrightarrow> sbuff_ok s'"
  using push_head_ok [of s n] by (auto simp: push_head_def not_less split: if_splits)

lemma pop_head_type: "sbuff_ok s \<Longrightarrow> pop_head n s = Inr s' \<Longrightarrow> sbuff_ok s'"
  using pop_head_ok [of s n] by (auto simp: pop_head_def not_less split: if_splits)

lemma edit_head_type:
  "sbuff_ok s \<Longrightarrow> edit_head f s = Inr s' \<Longrightarrow> (\<And>h d d'. f h d = Inr d' \<Longrightarrow> length d' = length d) \<Longrightarrow> sbuff_ok s'"
  by (auto simp: edit_head_def res_simps sbuff_ok_def)

lemma length_put_fields: "put_fields h fs d = Inr d' \<Longrightarrow> length d' = length d"
  by (induction h fs d rule: put_fields.induct) (auto simp: res_simps dest: length_put_bytes)

lemma length_checksum: "checksum d len k = Inr d' \<Longrightarrow> length d' = length d"
  by (auto simp: checksum_def put16_def res_simps dest!: length_put_bytes)

lemma length_checksum_at: "checksum_at h len k d = Inr d' \<Longrightarrow> length d' = length d"
  by (auto simp: checksum_at_def res_simps dest!: length_checksum)

lemma length_pseudo_checksum: "pseudo_checksum len src dest h d = Inr d' \<Longrightarrow> length d' = length d"
  by (auto simp: pseudo_checksum_def res_simps split: if_splits simp del: put_fields.simps dest!: length_checksum_at length_put_fields)

lemma sbuff_net [net_type]:
  assumes "net_ok w"
  shows "okr (sbuff_push p n w)" "okr (sbuff_pop p n w)" "okr (sbuff_fields p fs w)"
    "okr (sbuff_update p (edit_head (\<lambda>h. checksum_at h len k)) w)" "okr (tcp_checksum p l src dest w)"
    "okr (sbuff_update p (\<lambda>s. Inr (s\<lparr>srefs := c s\<rparr>)) w)"
proof -
  have edit: "okr (sbuff_update p (edit_head f) w)" if "\<And>h d d'. f h d = Inr d' \<Longrightarrow> length d' = length d" for f
  proof (rule update_net [OF assms])
    show "sbuff_ok s'" if "sbuff_ok s" "edit_head f s = Inr s'" for s s'
      using that by (rule edit_head_type) (rule \<open>\<And>h d d'. f h d = Inr d' \<Longrightarrow> length d' = length d\<close>)
  qed
  show "okr (sbuff_push p n w)" "okr (sbuff_pop p n w)"
    unfolding sbuff_push_def sbuff_pop_def by (rule update_net [OF assms], erule (1) push_head_type pop_head_type)+
  show "okr (sbuff_update p (\<lambda>s. Inr (s\<lparr>srefs := c s\<rparr>)) w)"
    by (rule update_net [OF assms]) (auto simp: sbuff_ok_def)
  show "okr (sbuff_fields p fs w)" "okr (sbuff_update p (edit_head (\<lambda>h. checksum_at h len k)) w)" "okr (tcp_checksum p l src dest w)"
    unfolding sbuff_fields_def tcp_checksum_def
    by (rule edit, erule length_put_fields length_checksum_at length_pseudo_checksum)+
qed

lemma refs_net [net_type]: "net_ok w \<Longrightarrow> okr (sbuff_add_ref p w)" "net_ok w \<Longrightarrow> okr (sbuff_release_ref p w)"
  by (auto simp: sbuff_add_ref_def sbuff_release_ref_def sbuff_free_def intro!: net_type net_ok_del)

lemma sbuff_alloc_net [net_type]:
  "net_ok w \<Longrightarrow> okp (raw_sbuff_alloc n w)"
  by (auto simp: raw_sbuff_alloc_def sbuff_ok_def intro!: net_type net_ok_put)

lemma eth_alloc_net [net_type]: "net_ok w \<Longrightarrow> okp (ethernet_sbuff_alloc n w)"
  by (auto simp: ethernet_sbuff_alloc_def intro!: net_type)

lemma ip_alloc_net [net_type]: "net_ok w \<Longrightarrow> okp (ip_sbuff_alloc n w)"
  by (auto simp: ip_sbuff_alloc_def intro!: net_type)

lemma on_con_net [net_type]: "net_ok w \<Longrightarrow> okr (on_con f w)"
  by (auto simp: on_con_def okr_def res_simps)

subsection \<open>Ethernet, ARP and IP\<close>

lemma env_net [net_type]:
  assumes "env_ok env" "net_ok w"
  shows "okr (send_call env fn dv sb w)" "okr (read_call env fn s bs n w)" "okp (accept_call env fn w)"
    "okr (notify_call env fn q bs n w)"
  using assms by (simp_all add: env_ok_def)

lemma eth_send_net [net_type]: "env_ok env \<Longrightarrow> net_ok w \<Longrightarrow> okr (ethernet_send env sb proto dest dev w)"
  by (auto simp: ethernet_send_def intro!: net_type)

lemma arp_out_net [net_type]:
  assumes "env_ok env" "net_ok w"
  shows "okr (arp_reply env dev m a b w)" "okr (arp_request env dev a w)"
  using assms by (auto simp: arp_reply_def arp_request_def intro!: net_type)

lemma arp_lookup_net [net_type]: "env_ok env \<Longrightarrow> net_ok w \<Longrightarrow> okp (arp_lookup env dev a w)"
  by (auto simp: arp_lookup_def intro!: net_type split: option.split)

lemma ip_send_net [net_type]: "env_ok env \<Longrightarrow> net_ok w \<Longrightarrow> okp (ip_send env sb proto dest dev w)"
  by (auto simp: ip_send_def intro!: net_type split: option.split)

lemma arp_add_type: "arp_ok t \<Longrightarrow> length m = 6 \<Longrightarrow> arp_table_add m a t = Inr t' \<Longrightarrow> arp_ok t'"
proof -
  assume t: "arp_ok t" and m: "length m = 6" and r: "arp_table_add m a t = Inr t'"
  let ?n = "unat (arp_count t)"
  have n: "?n < 128" and t': "t' = t\<lparr>arp_ips := (arp_ips t)[?n := a], arp_macs := (arp_macs t)[?n := m], arp_count := arp_count t + 1\<rparr>"
    using r t by (auto simp: arp_table_add_def Let_def arp_ok_def split: if_splits)
  have "unat (arp_count t + 1) = Suc ?n" using n by (simp add: unat_plus_if')
  moreover have "take (Suc ?n) ((arp_macs t)[?n := m]) = take ?n (arp_macs t) @ [m]"
    using t n by (intro take_Suc_update) (simp add: arp_ok_def)
  ultimately show ?thesis using t m n by (auto simp: t' arp_ok_def)
qed

lemma arp_store_net [net_type]: "net_ok w \<Longrightarrow> length m = 6 \<Longrightarrow> okr (arp_store m a w)"
  using arp_add_type by (auto simp: arp_store_def okr_def res_simps net_ok_def)

lemma get_bytes_length: "get_bytes bs i n = Inr xs \<Longrightarrow> length xs = n"
  by (auto simp: get_bytes_def split: if_splits)

lemma arp_packet_net [net_type]: "env_ok env \<Longrightarrow> net_ok w \<Longrightarrow> okr (arp_packet env dev bs w)"
  by (auto simp: arp_packet_def intro!: net_type dest!: get_bytes_length)

lemma icmp_net [net_type]: "env_ok env \<Longrightarrow> net_ok w \<Longrightarrow> okr (icmp_segment env sender dev bs len w)"
  by (auto simp: icmp_segment_def intro!: net_type)

subsection \<open>TCP\<close>

lemma stream_update_net [net_type]:
  assumes "net_ok w" "\<And>st. deref (streams w) s = Inr st \<Longrightarrow> stream_ok st \<Longrightarrow> stream_ok (f st)"
  shows "okr (stream_update s f w)"
proof -
  have "stream_ok (f st)" if "deref (streams w) s = Inr st" for st
    using assms(1) deref_ran [OF that] by (intro assms(2) [OF that]) (simp add: net_ok_def)
  with assms(1) show ?thesis by (auto simp: okr_def stream_update_def res_simps intro!: net_ok_put_stream)
qed

lemma stream_ok_other [simp]:
  "stream_ok (st\<lparr>snext := a\<rparr>) = stream_ok st" "stream_ok (st\<lparr>needsAck := n\<rparr>) = stream_ok st"
  "stream_ok (st\<lparr>localSeq := q\<rparr>) = stream_ok st" "stream_ok (st\<lparr>ackSeq := q\<rparr>) = stream_ok st"
  "stream_ok (st\<lparr>pendingAck := q\<rparr>) = stream_ok st" "stream_ok (st\<lparr>tstate := t\<rparr>) = stream_ok st"
  by (simp_all add: stream_ok_def)

lemma remove_stream_net [net_type]: "net_ok w \<Longrightarrow> okr (remove_stream s w)"
  by (auto simp: remove_stream_def intro!: net_type net_ok_del)

lemma header_net [net_type]: "net_ok w \<Longrightarrow> okr (header_from_stream s sb fl w)"
  by (auto simp: header_from_stream_def intro!: net_type)

lemma segment_net [net_type]:
  "env_ok env \<Longrightarrow> net_ok w \<Longrightarrow> (\<And>st. stream_ok st \<Longrightarrow> stream_ok (upd st)) \<Longrightarrow> okr (send_segment env s fl pl upd dev w)"
  by (auto simp: send_segment_def intro!: net_type)

lemma tcp_out_net [net_type]:
  assumes "env_ok env" "net_ok w"
  shows "okr (tcp_close env s w)" "okr (tcp_send env s bs n w)" "okr (reset_stream env dev hdr src w)"
  using assms by (auto simp: tcp_close_def tcp_send_def reset_stream_def intro!: net_type)

lemma connected_net [net_type]: "env_ok env \<Longrightarrow> net_ok w \<Longrightarrow> okr (connected env dev lp rp ra seq fn w)"
  by (auto simp: connected_def Let_def new_stream_def stream_ok_def MaxReadBuffer_def intro!: net_type net_ok_put_stream)

lemma syn_net [net_type]: "env_ok env \<Longrightarrow> net_ok w \<Longrightarrow> okr (syn env dev hdr src w)"
  by (auto simp: syn_def intro!: net_type)

lemma acked_net [net_type]: "net_ok w \<Longrightarrow> okr (acked s hdr w)"
  by (auto simp: acked_def intro!: net_type)

lemma buffer_data_net [net_type]:
  assumes w: "net_ok w"
  shows "okr (buffer_data hdr s len w)"
proof -
  have fits: "stream_ok (st\<lparr>ackSeq := q, readBuf := buf, readOffset := readOffset st + len, needsAck := n\<rparr>)"
    if st: "stream_ok st" and bs: "get_bytes hdr i (unat len) = Inr bs" "put_bytes (unat (readOffset st)) bs (readBuf st) = Inr buf"
    for st q buf i bs n
  proof -
    have "unat (readOffset st) + unat len \<le> 2048" "length buf = 2048"
      using st bs get_bytes_length [OF bs(1)] by (auto simp: put_bytes_def stream_ok_def split: if_splits)
    moreover from this have "unat (readOffset st + len) = unat (readOffset st) + unat len" by (simp add: unat_plus_if')
    ultimately show ?thesis using st by (simp add: stream_ok_def word_le_nat_alt)
  qed
  show ?thesis using w by (auto simp: buffer_data_def simp del: stream_ok_other intro!: net_type) (rule fits, assumption+)
qed

lemma pushit_net [net_type]: "env_ok env \<Longrightarrow> net_ok w \<Longrightarrow> okr (pushit env s w)"
  by (auto simp: pushit_def stream_ok_def intro!: net_type)

lemma fin_net [net_type]: "env_ok env \<Longrightarrow> net_ok w \<Longrightarrow> okr (fin env dev s w)"
  by (auto simp: fin_def time_wait_def intro!: net_type)

lemma tcp_segment_net [net_type]: "env_ok env \<Longrightarrow> net_ok w \<Longrightarrow> okr (tcp_segment env dev hdr sz src w)"
  by (auto simp: tcp_segment_def intro!: net_type)

subsection \<open>UDP and frames\<close>

lemma udp_walk_net [net_type]:
  "(\<And>p w. net_ok w \<Longrightarrow> okr (body p w)) \<Longrightarrow> net_ok w \<Longrightarrow> okr (udp_walk n body node w)"
proof (induction n arbitrary: node w)
  case 0
  then show ?case by (subst udp_walk.simps) auto
next
  case (Suc n)
  show ?case using Suc.prems by (subst udp_walk.simps) (auto intro!: net_type Suc.IH)
qed

lemma udp_net [net_type]: "env_ok env \<Longrightarrow> net_ok w \<Longrightarrow> okr (udp_datagram env dev bs src w)"
  by (auto simp: udp_datagram_def udp_deliver_def intro!: net_type)

lemma udp_header_net [net_type]: "net_ok w \<Longrightarrow> okr (udp_header sb sp dp len n w)"
  by (auto simp: udp_header_def intro!: net_type)

lemma udp_send_net [net_type]: "env_ok env \<Longrightarrow> net_ok w \<Longrightarrow> okp (udp_send env q bs n w)"
  by (auto simp: udp_send_def udp_sbuff_alloc_def ip_resolve_local_def intro!: net_type)

subsection \<open>Incoming frames\<close>

lemma list_append_net [net_type]:
  assumes "net_ok w"
  shows "(\<And>a l' w. net_ok w \<Longrightarrow> okp (f (a, l', w))) \<Longrightarrow> okp (bind_res (list_append w l v) f)"
    "(\<And>a l' w. net_ok w \<Longrightarrow> okr (g (a, l', w))) \<Longrightarrow> okr (bind_res (list_append w l v) g)"
proof -
  have "net_ok w'" if "list_append w l v = Inr (a, l', w')" for a l' w'
    using list_append_frame [OF that] assms by (auto simp: net_ok_def)
  then show "(\<And>a l' w. net_ok w \<Longrightarrow> okp (f (a, l', w))) \<Longrightarrow> okp (bind_res (list_append w l v) f)"
    "(\<And>a l' w. net_ok w \<Longrightarrow> okr (g (a, l', w))) \<Longrightarrow> okr (bind_res (list_append w l v) g)"
    by (cases "list_append w l v"; simp; metis prod_cases3)+
qed

lemma map_net [net_type]:
  assumes "net_ok w"
  shows "okp (map_init w m h)" "okr (map_add_kv w m k v)"
proof -
  have "okp (bucket_add w l k v)" for l
    using assms unfolding bucket_add_def
    by (intro bind_value) (auto split: option.split intro!: net_type)
  moreover have "net_ok (w'\<lparr>bucket_arrays := bs\<rparr>) = net_ok w'" for w' :: "'a nworld_scheme" and bs by (simp add: net_ok_def)
  ultimately show "okp (map_init w m h)" "okr (map_add_kv w m k v)"
    using assms by (auto simp: map_init_def map_add_kv_def set_bucket_def Let_def intro!: net_type bind_value [where r = "map_bucket w m k"])
qed

lemma ip_packet_net [net_type]: "env_ok env \<Longrightarrow> net_ok w \<Longrightarrow> okr (ip_packet env dev bs w)"
  by (auto simp: ip_packet_def ip_register_def Let_def intro!: net_type)

lemma frame_net [net_type]: "env_ok env \<Longrightarrow> net_ok w \<Longrightarrow> okr (ethernet_packet env dev bs w)"
  by (auto simp: ethernet_packet_def Let_def intro!: net_type)

end
