(* ===== verification/TcpSafe.thy ===== *)
theory TcpSafe
  imports NetTypes
begin

text \<open>
  Memory safety of TCP input as progress and preservation: a segment whose header and data lie inside
  the packet never makes the stack access memory outside a packet, a socket buffer, a read buffer or the
  ARP table, and leaves these well formed. One lemma per operation, with the room a socket buffer has
  at its head and behind it carried along.
\<close>

unbundle bit_operations_syntax

subsection \<open>Results without an access out of bounds\<close>

definition in_bounds :: "('x \<Rightarrow> bool) \<Rightarrow> 'x res \<Rightarrow> bool" where
  "in_bounds P r \<longleftrightarrow> (case r of Inl e \<Rightarrow> e \<noteq> Fault OutOfBounds | Inr x \<Rightarrow> P x)"

lemma in_bounds_simps [simp]:
  "in_bounds P (Inr x) \<longleftrightarrow> P x" "in_bounds P (Inl e) \<longleftrightarrow> e \<noteq> Fault OutOfBounds"
  by (simp_all add: in_bounds_def)

lemma in_bounds_bind:
  "in_bounds P r \<Longrightarrow> (\<And>x. P x \<Longrightarrow> in_bounds Q (f x)) \<Longrightarrow> in_bounds Q (bind_res r f)"
  by (cases r) auto

lemma in_bounds_pair:
  "in_bounds (\<lambda>(x, y). P x y) r \<Longrightarrow> (\<And>x y. P x y \<Longrightarrow> in_bounds Q (f x y)) \<Longrightarrow>
     in_bounds Q (bind_res r (\<lambda>(x, y). f x y))"
  by (cases r) auto

lemma in_bounds_weaken: "in_bounds P r \<Longrightarrow> (\<And>x. P x \<Longrightarrow> Q x) \<Longrightarrow> in_bounds Q r"
  by (cases r) auto

lemma in_bounds_if: "in_bounds P a \<Longrightarrow> in_bounds P b \<Longrightarrow> in_bounds P (if c then a else b)"
  by simp

lemma bind_deref:
  "(\<And>x. p \<noteq> 0 \<Longrightarrow> m p = Some x \<Longrightarrow> in_bounds Q (f x)) \<Longrightarrow> in_bounds Q (bind_res (deref m p) f)"
  by (auto simp: deref_def split: option.split)

subsection \<open>Heap, packets and byte ranges\<close>

lemma alloc_blocks_in_bounds: "in_bounds (\<lambda>_. True) (kmem_alloc_blocks fuel h sz b)"
proof (induction fuel h sz b rule: kmem_alloc_blocks.induct)
  case (1 fuel h sz b)
  then show ?case by (subst kmem_alloc_blocks.simps) (auto simp: Let_def split: option.split)
qed

lemma free_blocks_in_bounds: "in_bounds (\<lambda>_. True) (kmem_free_blocks fuel h p b)"
proof (induction fuel h p b rule: kmem_free_blocks.induct)
  case (1 fuel h p b)
  then show ?case by (subst kmem_free_blocks.simps) (auto simp: Let_def kmem_free_from_block_def)
qed

lemma get_in_bounds:
  "i + n \<le> length d \<Longrightarrow> in_bounds (\<lambda>bs. length bs = n) (get_bytes d i n)"
  "i < length d \<Longrightarrow> in_bounds (\<lambda>_. True) (get8 d i)" "i + 2 \<le> length d \<Longrightarrow> in_bounds (\<lambda>_. True) (get16 d i)"
  "i + 4 \<le> length d \<Longrightarrow> in_bounds (\<lambda>_. True) (get32 d i)"
  by (simp_all add: get_bytes_def get8_def get16_def get32_def)

lemma put_fields_in_bounds:
  "\<forall>(o', bs) \<in> set fs. h + o' + length bs \<le> length d \<Longrightarrow> in_bounds (\<lambda>d'. length d' = length d) (put_fields h fs d)"
proof (induction h fs d rule: put_fields.induct)
  case (2 h off bs fs d)
  then have "put_bytes (h + off) bs d = Inr (take (h + off) d @ bs @ drop (h + off + length bs) d)"
    by (simp add: put_bytes_def)
  with 2 show ?case by simp
qed simp

lemma csum_loop_in_bounds: "even i \<Longrightarrow> len < length d \<Longrightarrow> in_bounds (\<lambda>_. True) (csum_loop d len i acc)"
proof (induction d len i acc rule: csum_loop.induct)
  case (1 d len i acc)
  then show ?case by (subst csum_loop.simps) (auto simp: get8_def)
qed

lemma checksum_in_bounds:
  assumes "k + 2 \<le> length d" "len < length d"
  shows "in_bounds (\<lambda>d'. length d' = length d) (checksum d len k)"
  unfolding checksum_def put16_def
  using assms by (intro in_bounds_bind [where P = "\<lambda>d'. length d' = length d"] in_bounds_bind [where P = "\<lambda>_ :: u32. True"] csum_loop_in_bounds)
    (auto simp: put_bytes_def)

lemma checksum_at_in_bounds:
  assumes "h + k + 2 \<le> length d" "h + len < length d"
  shows "in_bounds (\<lambda>d'. length d' = length d) (checksum_at h len k d)"
  unfolding checksum_at_def
  by (rule in_bounds_bind [OF checksum_in_bounds]) (use assms in auto)

lemma pseudo_in_bounds:
  assumes "12 \<le> h" "h + unat len < length d" "h + 18 \<le> length d"
  shows "in_bounds (\<lambda>d'. length d' = length d) (pseudo_checksum len src dest h d)"
proof -
  let ?fs = "[(0 :: nat, b32 (ntol src)), (4, b32 (ntol dest)), (8, [0]), (9, [IPPROTO_TCP]), (10, b16 (ntos len))]"
  have "in_bounds (\<lambda>d'. length d' = length d) (put_fields (h - 12) ?fs d)"
    using assms by (intro put_fields_in_bounds) (auto simp del: put_fields.simps)
  then have "in_bounds (\<lambda>d'. length d' = length d)
      (bind_res (put_fields (h - 12) ?fs d) (checksum_at (h - 12) (12 + unat len) 28))"
  proof (rule in_bounds_bind)
    fix d' :: "u8 list" assume "length d' = length d"
    then show "in_bounds (\<lambda>d'. length d' = length d) (checksum_at (h - 12) (12 + unat len) 28 d')"
      using checksum_at_in_bounds [of "h - 12" 28 d' "12 + unat len"] assms by simp
  qed
  then show ?thesis using assms(1) by (simp add: pseudo_checksum_def layout del: put_fields.simps)
qed

subsection \<open>The invariant, and a buffer with room\<close>

definition net_inv :: "'a nworld_scheme \<Rightarrow> bool" where
  "net_inv w \<longleftrightarrow> net_ok w \<and> console_ok (con w)"

text \<open>\<open>room p h n w\<close>: the buffer at \<open>p\<close> has \<open>h\<close> bytes below its head and \<open>n\<close> bytes of contents.\<close>

definition room :: "u64 \<Rightarrow> nat \<Rightarrow> nat \<Rightarrow> 'a nworld_scheme \<Rightarrow> bool" where
  "room p h n w \<longleftrightarrow> net_inv w \<and> p \<noteq> 0 \<and> (\<exists>s. sbuffs w p = Some s \<and> shead s = h \<and> unat (currSize s) = n)"

text \<open>
  What the functions behind pointers promise: the driver's send routine, an application's accept routine,
  and its read routine when it is given a read buffer of 2048 bytes and the number of bytes in it.
\<close>

definition env_safe :: "'a nworld_scheme net_env \<Rightarrow> bool" where
  "env_safe env \<longleftrightarrow> (\<forall>w. net_inv w \<longrightarrow>
     (\<forall>fn dv sb. in_bounds net_inv (send_call env fn dv sb w)) \<and>
     (\<forall>fn s bs n. length bs = 2048 \<and> n \<le> 2048 \<longrightarrow> in_bounds net_inv (read_call env fn s bs n w)) \<and>
     (\<forall>fn. in_bounds (\<lambda>(x, w). net_inv w) (accept_call env fn w)))"

lemma env_safeD:
  assumes "env_safe env" "net_inv w"
  shows "in_bounds net_inv (send_call env fn dv sb w)"
    "length bs = 2048 \<Longrightarrow> n \<le> 2048 \<Longrightarrow> in_bounds net_inv (read_call env fn s bs n w)"
    "in_bounds (\<lambda>(x, w). net_inv w) (accept_call env fn w)"
  using assms by (simp_all add: env_safe_def)

lemma room_inv: "room p h n w \<Longrightarrow> net_inv w"
  by (simp add: room_def)

lemma net_inv_heap:
  "net_inv (w\<lparr>kmem := m, heap_sequence := q, heap_currentObjects := c\<rparr>) = net_inv w"
  "net_inv (w\<lparr>kmem := m, heap_currentObjects := c\<rparr>) = net_inv w"
  by (simp_all add: net_inv_def net_ok_def)

lemma room_heap:
  "room p h n (w\<lparr>kmem := m, heap_sequence := q, heap_currentObjects := c\<rparr>) = room p h n w"
  by (simp add: room_def net_inv_heap)

lemma kmem_alloc_in_bounds:
  assumes "net_inv w"
  shows "in_bounds (\<lambda>(p, w'). net_inv w' \<and> sbuffs w' = sbuffs w \<and> (\<forall>a h n. room a h n w' = room a h n w)) (kmem_alloc w n)"
proof (cases "kmem_alloc w n")
  case (Inl e)
  then show ?thesis using alloc_blocks_in_bounds [of "2 ^ 64" w "n + sizeof_AllocationHeader" "heap_block w"]
    by (simp add: kmem_alloc_def)
next
  case (Inr r)
  obtain p w' where r: "r = (p, w')" by (cases r)
  then obtain m q c where "w' = w\<lparr>kmem := m, heap_sequence := q, heap_currentObjects := c\<rparr>"
    using kmem_alloc_frame [of w n p w'] Inr by blast
  then show ?thesis using Inr r assms by (simp add: net_inv_heap room_heap)
qed

lemma kmem_free_in_bounds:
  assumes "net_inv w"
  shows "in_bounds net_inv (kmem_free w p)"
proof (cases "kmem_free w p")
  case (Inl e)
  then show ?thesis using free_blocks_in_bounds [of "2 ^ 64" w p "heap_block w"] by (simp add: kmem_free_def)
next
  case (Inr w')
  then obtain m c where "w' = w\<lparr>kmem := m, heap_currentObjects := c\<rparr>" using kmem_free_frame [of w p w'] by blast
  then show ?thesis using Inr assms by (simp add: net_inv_heap)
qed

text \<open>An edit of a buffer that keeps its type; \<open>h'\<close> and \<open>n'\<close> are the room afterwards.\<close>

lemma room_update:
  assumes r: "room p h n w"
    and f: "\<And>s. sbuff_ok s \<Longrightarrow> shead s = h \<Longrightarrow> unat (currSize s) = n \<Longrightarrow>
      in_bounds (\<lambda>s'. sbuff_ok s' \<and> shead s' = h' \<and> unat (currSize s') = n') (f s)"
  shows "in_bounds (room p h' n') (sbuff_update p f w)"
proof -
  obtain s where s: "net_inv w" "p \<noteq> 0" "sbuffs w p = Some s" "shead s = h" "unat (currSize s) = n"
    using r by (auto simp: room_def)
  have "sbuff_ok s" using s(1,3) by (auto simp: net_inv_def net_ok_def ran_def)
  from f [OF this s(4,5)] show ?thesis
  proof (cases "f s")
    case (Inr s')
    then have "net_inv (w\<lparr>sbuffs := (sbuffs w)(p \<mapsto> s')\<rparr>)"
      using f [OF \<open>sbuff_ok s\<close> s(4,5)] s(1) net_ok_put [of w s' p] by (simp add: net_inv_def)
    then show ?thesis using Inr f [OF \<open>sbuff_ok s\<close> s(4,5)] s(2,3) by (simp add: sbuff_update_eq room_def)
  qed (use s in \<open>simp add: sbuff_update_eq\<close>)
qed

lemma room_edit:
  assumes r: "room p h n w"
    and f: "\<And>d. h + n + 7 = length d \<Longrightarrow> in_bounds (\<lambda>d'. length d' = length d) (f h d)"
  shows "in_bounds (room p h n) (sbuff_update p (edit_head f) w)"
proof (rule room_update [OF r])
  fix s assume s: "sbuff_ok s" "shead s = h" "unat (currSize s) = n"
  then have "in_bounds (\<lambda>d'. length d' = length (sdata s)) (f h (sdata s))" by (intro f) (simp add: sbuff_ok_def)
  then show "in_bounds (\<lambda>s'. sbuff_ok s' \<and> shead s' = h \<and> unat (currSize s') = n) (edit_head f s)"
    using s by (cases "f h (sdata s)") (simp_all add: edit_head_def sbuff_ok_def)
qed

lemma fields_in_bounds:
  assumes "room p h n w" "\<forall>(o', bs) \<in> set fs. o' + length bs \<le> n + 7"
  shows "in_bounds (room p h n) (sbuff_fields p fs w)"
  unfolding sbuff_fields_def
  using assms(2) by (intro room_edit [OF assms(1)] put_fields_in_bounds) force

lemma push_in_bounds:
  assumes "room p h n w" "unat m \<le> n"
  shows "in_bounds (room p (h + unat m) (n - unat m)) (sbuff_push p m w)"
  unfolding sbuff_push_def
proof (rule room_update [OF assms(1)])
  fix s assume s: "sbuff_ok s" "shead s = h" "unat (currSize s) = n"
  then have "m \<le> currSize s" using assms(2) by (simp add: word_le_nat_alt)
  from push_head_ok [OF s(1) this] this s
  show "in_bounds (\<lambda>s'. sbuff_ok s' \<and> shead s' = h + unat m \<and> unat (currSize s') = n - unat m) (push_head m s)"
    by (simp add: unat_sub)
qed

lemma pop_in_bounds:
  assumes "room p h n w" "unat m \<le> h"
  shows "in_bounds (room p (h - unat m) (n + unat m)) (sbuff_pop p m w)"
  unfolding sbuff_pop_def
proof (rule room_update [OF assms(1)])
  fix s assume s: "sbuff_ok s" "shead s = h" "unat (currSize s) = n"
  then have "unat m \<le> shead s" using assms(2) by simp
  from pop_head_ok [OF s(1) this] s
  show "in_bounds (\<lambda>s'. sbuff_ok s' \<and> shead s' = h - unat m \<and> unat (currSize s') = n + unat m) (pop_head m s)"
    by simp
qed

lemma refs_in_bounds:
  fixes w :: "'a nworld_scheme"
  assumes "room p h n w"
  shows "in_bounds (room p h n) (sbuff_add_ref p w)" "in_bounds net_inv (sbuff_release_ref p w)"
proof -
  have upd: "in_bounds (room p h n) (sbuff_update p (\<lambda>s. Inr (s\<lparr>srefs := c s\<rparr>)) w)" for c
    by (rule room_update [OF assms]) (simp add: sbuff_ok_def)
  show "in_bounds (room p h n) (sbuff_add_ref p w)" unfolding sbuff_add_ref_def by (rule upd)
  have del: "net_inv w \<Longrightarrow> net_inv (w\<lparr>sbuffs := (sbuffs w)(p := None)\<rparr>)" for w :: "'a nworld_scheme"
    using net_ok_del(1) [of w p] by (simp add: net_inv_def)
  have free: "in_bounds net_inv (sbuff_free p w)" if "net_inv w" for w :: "'a nworld_scheme"
    unfolding sbuff_free_def using del by (intro in_bounds_bind [OF kmem_free_in_bounds [OF that]]) simp
  show "in_bounds net_inv (sbuff_release_ref p w)"
    unfolding sbuff_release_ref_def
    by (rule in_bounds_bind [OF upd], rule bind_deref) (auto simp: free room_inv)
qed

subsection \<open>Sending\<close>

lemma raw_alloc_in_bounds:
  fixes w :: "'a nworld_scheme"
  assumes "net_inv w"
  shows "in_bounds (\<lambda>(p, w'). p \<noteq> 0 \<longrightarrow> room p 0 (unat sz) w') (raw_sbuff_alloc sz w)"
  unfolding raw_sbuff_alloc_def
proof (rule in_bounds_pair [OF kmem_alloc_in_bounds [OF assms]])
  fix p and w' :: "'a nworld_scheme"
  assume "net_inv w' \<and> sbuffs w' = sbuffs w \<and> (\<forall>a h n. room a h n w' = room a h n w)"
  then have "net_inv w'" by blast
  let ?s = "\<lparr>totalSize = sz, currSize = sz, shead = 0, srefs = 0, sdata = read_mem (kmem w') (p + 17) (unat sz + 7)\<rparr>"
  have "sbuff_ok ?s" by (simp add: sbuff_ok_def)
  then have "net_inv (w'\<lparr>sbuffs := (sbuffs w')(p \<mapsto> ?s)\<rparr>)"
    using net_ok_put [of w' ?s p] \<open>net_inv w'\<close> by (simp add: net_inv_def)
  then show "in_bounds (\<lambda>(p, w'). p \<noteq> 0 \<longrightarrow> room p 0 (unat sz) w') (Inr (p, w'\<lparr>sbuffs := (sbuffs w')(p \<mapsto> ?s)\<rparr>))"
    by (simp add: room_def)
qed

lemma null_push: "in_bounds Q (bind_res (sbuff_push 0 m w) f)" "in_bounds Q (bind_res (sbuff_add_ref 0 w) f)"
  by (simp_all add: sbuff_push_def sbuff_add_ref_def sbuff_update_def deref_def)

lemma eth_alloc_in_bounds:
  fixes w :: "'a nworld_scheme"
  assumes "net_inv w" "unat sz + 14 < 65536"
  shows "in_bounds (\<lambda>(p, w'). room p 14 (unat sz) w') (ethernet_sbuff_alloc sz w)"
  unfolding ethernet_sbuff_alloc_def
proof (rule in_bounds_pair [OF raw_alloc_in_bounds [OF assms(1)]])
  fix p and w' :: "'a nworld_scheme"
  assume r: "p \<noteq> 0 \<longrightarrow> room p 0 (unat (sz + sizeof_ethernet)) w'"
  have u: "unat (sz + sizeof_ethernet) = unat sz + 14" using assms(2) by (simp add: unat_plus_if' layout)
  show "in_bounds (\<lambda>(p, w'). room p 14 (unat sz) w') (bind_res (sbuff_push p sizeof_ethernet w') (\<lambda>w. Inr (p, w)))"
  proof (cases "p = 0")
    case False
    then have "in_bounds (room p (0 + unat sizeof_ethernet) (unat sz + 14 - unat sizeof_ethernet)) (sbuff_push p sizeof_ethernet w')"
      using r u by (intro push_in_bounds) (simp_all add: layout)
    then show ?thesis by (rule in_bounds_bind) (simp add: layout)
  qed (simp add: null_push)
qed

lemma ip_alloc_in_bounds:
  fixes w :: "'a nworld_scheme"
  assumes "net_inv w" "unat sz + 34 < 65536"
  shows "in_bounds (\<lambda>(p, w'). room p 34 (unat sz) w') (ip_sbuff_alloc sz w)"
proof -
  have u: "unat (sz + sizeof_ipv4) = unat sz + 20" using assms(2) by (simp add: unat_plus_if' layout)
  show ?thesis unfolding ip_sbuff_alloc_def
  proof (rule in_bounds_pair [OF eth_alloc_in_bounds [OF assms(1)]])
    show "unat (sz + sizeof_ipv4) + 14 < 65536" using assms(2) u by simp
    fix p and w' :: "'a nworld_scheme" assume "room p 14 (unat (sz + sizeof_ipv4)) w'"
    then have "in_bounds (room p (14 + unat sizeof_ipv4) (unat sz + 20 - unat sizeof_ipv4)) (sbuff_push p sizeof_ipv4 w')"
      unfolding u by (intro push_in_bounds) (simp_all add: layout)
    then show "in_bounds (\<lambda>(p, w'). room p 34 (unat sz) w') (bind_res (sbuff_push p sizeof_ipv4 w') (\<lambda>w. Inr (p, w)))"
      by (rule in_bounds_bind) (simp add: layout)
  qed
qed

lemma device_mac: "net_inv w \<Longrightarrow> devices w dv = Some d \<Longrightarrow> length (dev_mac d) = 6"
  by (auto simp: net_inv_def net_ok_def ran_def)

lemma eth_send_in_bounds:
  fixes w :: "'a nworld_scheme"
  assumes env: "env_safe env" and r: "room sb h n w" "14 \<le> h" "length dest = 6"
  shows "in_bounds net_inv (ethernet_send env sb proto dest dev w)"
  unfolding ethernet_send_def
proof (rule in_bounds_bind [OF pop_in_bounds [OF r(1)]], simp add: r(2) layout, rule bind_deref)
  fix w' :: "'a nworld_scheme" and d assume w': "room sb (h - unat sizeof_ethernet) (n + unat sizeof_ethernet) w'" "devices w' dev = Some d"
  have "length (dev_mac d) = 6" using device_mac room_inv [OF w'(1)] w'(2) by blast
  then have f: "in_bounds (room sb (h - unat sizeof_ethernet) (n + unat sizeof_ethernet))
      (sbuff_fields sb [(0, dest), (6, dev_mac d), (12, b16 (ntos proto))] w')"
    using r(3) by (intro fields_in_bounds [OF w'(1)]) (simp add: layout)
  show "in_bounds net_inv (bind_res (sbuff_fields sb [(0, dest), (6, dev_mac d), (12, b16 (ntos proto))] w') (send_call env (dev_send d) dev sb))"
    by (rule in_bounds_bind [OF f], drule room_inv, rule env_safeD(1) [OF env])
qed

lemma arp_fields_small: "length a = 6 \<Longrightarrow> length b = 6 \<Longrightarrow> \<forall>(o', bs) \<in> set (arp_fields op a x b y). o' + length bs \<le> 28 + 7"
  by (simp add: arp_fields_def)

lemma eth_send_release_in_bounds:
  fixes w :: "'a nworld_scheme"
  assumes env: "env_safe env" and r: "room sb h n w" "14 \<le> h" "length dest = 6"
  shows "in_bounds net_inv (bind_res (ethernet_send env sb proto dest dev w) (sbuff_release_ref sb))"
proof (rule in_bounds_bind [OF eth_send_in_bounds [OF assms]])
  fix w' :: "'a nworld_scheme" assume w': "net_inv w'"
  show "in_bounds net_inv (sbuff_release_ref sb w')"
  proof (cases "sb = 0 \<or> sbuffs w' sb = None")
    case True
    then show ?thesis by (auto simp: sbuff_release_ref_def sbuff_update_def deref_def)
  next
    case False
    then obtain s where "sbuffs w' sb = Some s" "sb \<noteq> 0" by blast
    then have "room sb (shead s) (unat (currSize s)) w'" using w' by (simp add: room_def)
    then show ?thesis by (rule refs_in_bounds)
  qed
qed

lemma arp_request_in_bounds:
  fixes w :: "'a nworld_scheme"
  assumes env: "env_safe env" and w: "net_inv w"
  shows "in_bounds net_inv (arp_request env dev a w)"
  unfolding arp_request_def
proof (rule in_bounds_pair [OF eth_alloc_in_bounds [OF w]], simp add: layout, rule in_bounds_bind [OF refs_in_bounds(1)], assumption, rule bind_deref)
  fix p d and w' :: "'a nworld_scheme" assume w': "room p 14 (unat sizeof_arp_packet) w'" "devices w' dev = Some d"
  have "length (dev_mac d) = 6" using device_mac room_inv [OF w'(1)] w'(2) by blast
  then have f: "in_bounds (room p 14 (unat sizeof_arp_packet)) (sbuff_fields p (arp_fields 1 (dev_mac d) (dev_ip d) (replicate 6 0) a) w')"
    using arp_fields_small [of "dev_mac d" "replicate 6 0" 1 "dev_ip d" a] by (intro fields_in_bounds [OF w'(1)]) (simp add: layout)
  show "in_bounds net_inv (bind_res (sbuff_fields p (arp_fields 1 (dev_mac d) (dev_ip d) (replicate 6 0) a) w') (\<lambda>w.
      bind_res (ethernet_send env p 0x0806 BROADCAST_MAC dev w) (sbuff_release_ref p)))"
    by (rule in_bounds_bind [OF f], rule eth_send_release_in_bounds [OF env], assumption) (simp_all add: BROADCAST_MAC_def)
qed

lemma arp_scan_in_bounds:
  "e + n \<le> length (arp_ips t) \<Longrightarrow> in_bounds (\<lambda>r. \<forall>m. r = Some m \<longrightarrow> (\<exists>i < e + n. e \<le> i \<and> m = arp_macs t ! i)) (arp_scan t ip e n)"
proof (induction n arbitrary: e)
  case (Suc n)
  have "in_bounds (\<lambda>r. \<forall>m. r = Some m \<longrightarrow> (\<exists>i < Suc e + n. Suc e \<le> i \<and> m = arp_macs t ! i)) (arp_scan t ip (Suc e) n)"
    using Suc.prems by (intro Suc.IH) simp
  then have "in_bounds (\<lambda>r. \<forall>m. r = Some m \<longrightarrow> (\<exists>i < e + Suc n. e \<le> i \<and> m = arp_macs t ! i)) (arp_scan t ip (Suc e) n)"
    by (rule in_bounds_weaken) (fastforce dest: Suc_leD)
  then show ?case using Suc.prems by (auto intro: exI [of _ e])
qed simp

lemma arp_lookup_in_bounds:
  fixes w :: "'a nworld_scheme"
  assumes env: "env_safe env" and w: "net_inv w"
  shows "in_bounds (\<lambda>(r, w'). net_inv w' \<and> (\<forall>m. r = Some m \<longrightarrow> length m = 6 \<and> w' = w)) (arp_lookup env dev a w)"
proof -
  let ?t = "arp_tab w"
  have t: "arp_ok ?t" using w by (simp add: net_inv_def net_ok_def)
  have "in_bounds (\<lambda>r. \<forall>m. r = Some m \<longrightarrow> (\<exists>i < 0 + unat (arp_count ?t). 0 \<le> i \<and> m = arp_macs ?t ! i)) (arp_scan ?t a 0 (unat (arp_count ?t)))"
    using t by (intro arp_scan_in_bounds) (simp add: arp_ok_def)
  then have s: "in_bounds (\<lambda>r. \<forall>m. r = Some m \<longrightarrow> length m = 6) (arp_scan ?t a 0 (unat (arp_count ?t)))"
  proof (rule in_bounds_weaken)
    fix r assume r: "\<forall>m. r = Some m \<longrightarrow> (\<exists>i < 0 + unat (arp_count ?t). 0 \<le> i \<and> m = arp_macs ?t ! i)"
    have "length (arp_macs ?t ! i) = 6" if "i < unat (arp_count ?t)" for i
    proof -
      have "take (unat (arp_count ?t)) (arp_macs ?t) ! i \<in> set (take (unat (arp_count ?t)) (arp_macs ?t))"
        using t that by (intro nth_mem) (simp add: arp_ok_def)
      then show ?thesis using t that by (simp add: arp_ok_def)
    qed
    with r show "\<forall>m. r = Some m \<longrightarrow> length m = 6" by auto
  qed
  show ?thesis unfolding arp_lookup_def
    by (rule in_bounds_bind [OF s])
      (use w arp_request_in_bounds [OF env w, of dev a] in \<open>auto intro: in_bounds_bind split: option.split\<close>)
qed

text \<open>\<open>ip_send\<close> needs 34 bytes below the head: 20 for its header and 14 for Ethernet's.\<close>

lemma ip_send_in_bounds:
  fixes w :: "'a nworld_scheme"
  assumes env: "env_safe env" and r: "room sb h n w" "34 \<le> h"
  shows "in_bounds (\<lambda>(r, w'). net_inv w') (ip_send env sb proto dest dev w)"
  unfolding ip_send_def
proof (rule in_bounds_bind [OF pop_in_bounds [OF r(1)]], use r(2) in \<open>simp add: layout\<close>, rule bind_deref, rule bind_deref)
  fix w1 :: "'a nworld_scheme" and s d
  assume w1: "room sb (h - unat sizeof_ipv4) (n + unat sizeof_ipv4) w1" "sbuffs w1 sb = Some s" "devices w1 dev = Some d"
  let ?h = "h - 20" and ?n = "n + 20"
  have w1': "room sb ?h ?n w1" using w1(1) by (simp add: layout)
  have f: "in_bounds (room sb ?h ?n) (sbuff_fields sb (ipv4_fields (currSize s) proto (dev_ip d) dest) w1)"
    by (rule fields_in_bounds [OF w1']) (simp add: ipv4_fields_def)
  have c: "in_bounds (room sb ?h ?n) (sbuff_update sb (edit_head (\<lambda>h. checksum_at h (unat sizeof_ipv4) 10)) w2)"
    if "room sb ?h ?n w2" for w2 :: "'a nworld_scheme"
    by (rule room_edit [OF that], rule checksum_at_in_bounds) (simp_all add: layout)
  have e: "in_bounds (\<lambda>(r, w'). net_inv w') (bind_res (arp_lookup env dev dest w3) (\<lambda>(r, w). case r of
       Some destMac \<Rightarrow> bind_res (ethernet_send env sb 0x0800 destMac dev w) (\<lambda>w. Inr (EOK, w))
     | None \<Rightarrow> Inr (ENOTFOUND, w)))" if w3: "room sb ?h ?n w3" for w3 :: "'a nworld_scheme"
  proof (rule in_bounds_pair [OF arp_lookup_in_bounds [OF env room_inv [OF w3]]])
    fix r :: "mac option" and w' :: "'a nworld_scheme"
    assume a: "net_inv w' \<and> (\<forall>m. r = Some m \<longrightarrow> length m = 6 \<and> w' = w3)"
    show "in_bounds (\<lambda>(r, w'). net_inv w') (case r of
       Some destMac \<Rightarrow> bind_res (ethernet_send env sb 0x0800 destMac dev w') (\<lambda>w. Inr (EOK, w))
     | None \<Rightarrow> Inr (ENOTFOUND, w'))"
    proof (cases r)
      case (Some m)
      then have "in_bounds net_inv (ethernet_send env sb 0x0800 m dev w')"
        using a w3 r(2) by (intro eth_send_in_bounds [OF env, of sb ?h ?n]) simp_all
      then have "in_bounds (\<lambda>(r, w'). net_inv w') (bind_res (ethernet_send env sb 0x0800 m dev w') (\<lambda>w. Inr (EOK, w)))"
        by (rule in_bounds_bind) simp
      then show ?thesis using Some by simp
    qed (use a in simp)
  qed
  show "in_bounds (\<lambda>(r, w'). net_inv w') (bind_res (sbuff_fields sb (ipv4_fields (currSize s) proto (dev_ip d) dest) w1) (\<lambda>w.
     bind_res (sbuff_update sb (edit_head (\<lambda>h. checksum_at h (unat sizeof_ipv4) 10)) w) (\<lambda>w.
     bind_res (arp_lookup env dev dest w) (\<lambda>(r, w). case r of
       Some destMac \<Rightarrow> bind_res (ethernet_send env sb 0x0800 destMac dev w) (\<lambda>w. Inr (EOK, w))
     | None \<Rightarrow> Inr (ENOTFOUND, w)))))"
    by (rule in_bounds_bind [OF f], rule in_bounds_bind [OF c], assumption, rule e)
qed

subsection \<open>TCP\<close>

lemma stream_update_in_bounds:
  fixes w :: "'a nworld_scheme"
  assumes up: "\<And>st. streams w s = Some st \<Longrightarrow> stream_ok st \<Longrightarrow> stream_ok (f st)"
  shows "net_inv w \<Longrightarrow> in_bounds net_inv (stream_update s f w)"
    "room p h n w \<Longrightarrow> in_bounds (room p h n) (stream_update s f w)"
proof -
  have inv: "net_inv (w\<lparr>streams := (streams w)(s \<mapsto> f st)\<rparr>)" if "net_inv w" "streams w s = Some st" for st
  proof -
    have "stream_ok st" using that by (auto simp: net_inv_def net_ok_def ran_def)
    with that show ?thesis using net_ok_put_stream [of w "f st" s] up by (simp add: net_inv_def)
  qed
  then show "net_inv w \<Longrightarrow> in_bounds net_inv (stream_update s f w)"
    unfolding stream_update_def by (intro bind_deref) simp
  show "room p h n w \<Longrightarrow> in_bounds (room p h n) (stream_update s f w)"
    unfolding stream_update_def using inv by (intro bind_deref) (simp add: room_def)
qed

lemma header_in_bounds:
  fixes w :: "'a nworld_scheme"
  assumes "room sb h n w" "18 \<le> n"
  shows "in_bounds (room sb h n) (header_from_stream s sb fl w)"
  unfolding header_from_stream_def
proof (rule bind_deref)
  fix st
  have "in_bounds (room sb h n) (sbuff_fields sb (tcp_fields st fl) w)"
    using assms(2) by (intro fields_in_bounds [OF assms(1)]) (simp add: tcp_fields_def)
  then show "in_bounds (room sb h n) (bind_res (sbuff_fields sb (tcp_fields st fl) w) (stream_update s (needsAck_update (\<lambda>_. 0))))"
    by (rule in_bounds_bind) (rule stream_update_in_bounds(2); simp)
qed

lemma tcp_checksum_in_bounds:
  fixes w :: "'a nworld_scheme"
  assumes "room sb h n w" "12 \<le> h" "unat len \<le> n" "18 \<le> n"
  shows "in_bounds (room sb h n) (tcp_checksum sb len src dest w)"
  unfolding tcp_checksum_def
  by (rule room_edit [OF assms(1)], rule pseudo_in_bounds) (use assms in simp_all)

lemma checked_send_in_bounds:
  fixes w :: "'a nworld_scheme"
  assumes env: "env_safe env" and r: "room sb 34 n w" "unat len \<le> n" "18 \<le> n"
  shows "in_bounds net_inv (bind_res (tcp_checksum sb len src dest w) (\<lambda>w.
    bind_res (ip_send env sb IPPROTO_TCP dest' dev w) (\<lambda>(r, w). Inr w)))"
  by (rule in_bounds_bind [OF tcp_checksum_in_bounds [OF r(1)]],
      use r in simp, use r in simp, use r in simp, rule in_bounds_pair [OF ip_send_in_bounds [OF env]], assumption, simp_all)

lemma send_segment_in_bounds:
  fixes w :: "'a nworld_scheme"
  assumes env: "env_safe env" and w: "net_inv w" and pl: "length pl + 54 < 65536"
    and upd: "\<And>st. stream_ok st \<Longrightarrow> stream_ok (upd st)"
  shows "in_bounds net_inv (send_segment env s fl pl upd dev w)"
proof -
  let ?len = "sizeof_tcp_hdr + of_nat (length pl) :: u16"
  have u: "unat ?len = 20 + length pl" using pl by (simp add: unat_word_ariths unat_of_nat layout)
  show ?thesis unfolding send_segment_def
  proof (rule in_bounds_pair [OF ip_alloc_in_bounds [OF w]])
    show "unat ?len + 34 < 65536" using u pl by simp
    fix sb and w1 :: "'a nworld_scheme"
    assume "room sb 34 (unat ?len) w1"
    then have w1: "room sb 34 (20 + length pl) w1" unfolding u .
    show "in_bounds net_inv (bind_res (header_from_stream s sb fl w1) (\<lambda>w.
       bind_res (sbuff_fields sb [(unat sizeof_tcp_hdr, pl)] w) (\<lambda>w.
       bind_res (stream_update s upd w) (\<lambda>w.
       bind_res (deref (streams w) s) (\<lambda>st.
       bind_res (deref (devices w) dev) (\<lambda>d.
       bind_res (tcp_checksum sb ?len (dev_ip d) (remoteAddr st) w) (\<lambda>w.
       bind_res (ip_send env sb IPPROTO_TCP (remoteAddr st) dev w) (\<lambda>(r, w). Inr w))))))))"
    proof (rule in_bounds_bind [OF header_in_bounds [OF w1]])
      fix w2 :: "'a nworld_scheme" assume w2: "room sb 34 (20 + length pl) w2"
      have f: "in_bounds (room sb 34 (20 + length pl)) (sbuff_fields sb [(unat sizeof_tcp_hdr, pl)] w2)"
        by (rule fields_in_bounds [OF w2]) (simp add: layout)
      show "in_bounds net_inv (bind_res (sbuff_fields sb [(unat sizeof_tcp_hdr, pl)] w2) (\<lambda>w.
         bind_res (stream_update s upd w) (\<lambda>w. bind_res (deref (streams w) s) (\<lambda>st.
         bind_res (deref (devices w) dev) (\<lambda>d. bind_res (tcp_checksum sb ?len (dev_ip d) (remoteAddr st) w) (\<lambda>w.
         bind_res (ip_send env sb IPPROTO_TCP (remoteAddr st) dev w) (\<lambda>(r, w). Inr w)))))))"
        by (rule in_bounds_bind [OF f], rule in_bounds_bind, rule stream_update_in_bounds(2), rule upd, assumption, assumption,
            rule bind_deref, rule bind_deref, rule checked_send_in_bounds [OF env], assumption) (simp_all only: u)
    qed simp
  qed
qed


lemma reset_in_bounds:
  fixes w :: "'a nworld_scheme"
  assumes env: "env_safe env" and w: "net_inv w" and hdr: "4 \<le> length hdr"
  shows "in_bounds net_inv (reset_stream env dev hdr src w)"
  unfolding reset_stream_def
proof (rule bind_deref, rule in_bounds_bind [OF get_in_bounds(3)], use hdr in simp, rule in_bounds_bind [OF get_in_bounds(3)],
    use hdr in simp, rule in_bounds_pair [OF ip_alloc_in_bounds [OF w]], simp add: layout)
  fix d and dp sp :: u16 and sb and w1 :: "'a nworld_scheme"
  assume "room sb 34 (unat sizeof_tcp_hdr) w1"
  then have w1: "room sb 34 20 w1" by (simp add: layout)
  let ?t = "tcp_fields (reset_template dev (dev_ip d) (ntos dp) (ntos sp) src) Rst"
  have f: "in_bounds (room sb 34 20) (sbuff_fields sb ?t w1)"
    by (rule fields_in_bounds [OF w1]) (simp add: tcp_fields_def)
  show "in_bounds net_inv (bind_res (sbuff_fields sb ?t w1) (\<lambda>w.
     bind_res (tcp_checksum sb sizeof_tcp_hdr (dev_ip d) src w) (\<lambda>w.
     bind_res (ip_send env sb IPPROTO_TCP src dev w) (\<lambda>(r, w). Inr w))))"
    by (rule in_bounds_bind [OF f], rule checked_send_in_bounds [OF env], assumption) (simp_all add: layout)
qed

lemma room_add_stream:
  fixes w :: "'a nworld_scheme"
  assumes "room p h n w" "stream_ok st"
  shows "room p h n (w\<lparr>streams := (streams w)(s \<mapsto> st), all_streams := s\<rparr>)"
proof -
  have "net_ok (w\<lparr>streams := (streams w)(s \<mapsto> st), all_streams := s\<rparr>)"
    using net_ok_put_stream [of w st s] assms by (simp add: room_def net_inv_def)
  then show ?thesis using assms(1) by (simp add: room_def net_inv_def)
qed

lemma connected_in_bounds:
  fixes w :: "'a nworld_scheme"
  assumes env: "env_safe env" and w: "net_inv w"
  shows "in_bounds net_inv (connected env dev lp rp ra seq fn w)"
  unfolding connected_def
proof (rule in_bounds_pair [OF ip_alloc_in_bounds [OF w]], simp add: layout, rule in_bounds_pair)
  fix sb and w1 :: "'a nworld_scheme" assume w1: "room sb 34 (unat sizeof_tcp_hdr) w1"
  show "in_bounds (\<lambda>(s, w'). room sb 34 20 w') (kmem_alloc w1 (sizeof_stream + ucast MaxReadBuffer))"
    by (rule in_bounds_weaken [OF kmem_alloc_in_bounds [OF room_inv [OF w1]]]) (use w1 in \<open>auto simp: layout\<close>)
  fix s and w2 :: "'a nworld_scheme" assume w2: "room sb 34 20 w2"
  show "in_bounds net_inv (bind_res (deref (devices w2) dev) (\<lambda>d.
     let w = w2\<lparr>streams := (streams w2)(s \<mapsto> new_stream dev (dev_ip d) lp rp ra seq fn (all_streams w2)
                 (load32 (kmem w2) (s + 32)) (read_mem (kmem w2) (s + 72) (unat MaxReadBuffer))),
               all_streams := s\<rparr>
     in bind_res (header_from_stream s sb (Syn OR Ack) w) (\<lambda>w.
        bind_res (stream_update s (\<lambda>st. st\<lparr>localSeq := localSeq st + 1\<rparr>) w) (\<lambda>w.
        bind_res (tcp_checksum sb sizeof_tcp_hdr (dev_ip d) ra w) (\<lambda>w.
        bind_res (ip_send env sb IPPROTO_TCP ra dev w) (\<lambda>(r, w). Inr w))))))"
    unfolding Let_def
  proof (rule bind_deref, rule in_bounds_bind [OF header_in_bounds [OF room_add_stream [OF w2]]])
    fix d
    show "stream_ok (new_stream dev (dev_ip d) lp rp ra seq fn (all_streams w2)
        (load32 (kmem w2) (s + 32)) (read_mem (kmem w2) (s + 72) (unat MaxReadBuffer)))"
      by (simp add: new_stream_def stream_ok_def MaxReadBuffer_def)
    fix w3 :: "'a nworld_scheme" assume w3: "room sb 34 20 w3"
    show "in_bounds net_inv (bind_res (stream_update s (\<lambda>st. st\<lparr>localSeq := localSeq st + 1\<rparr>) w3) (\<lambda>w.
        bind_res (tcp_checksum sb sizeof_tcp_hdr (dev_ip d) ra w) (\<lambda>w.
        bind_res (ip_send env sb IPPROTO_TCP ra dev w) (\<lambda>(r, w). Inr w))))"
      by (rule in_bounds_bind [OF stream_update_in_bounds(2) [OF _ w3]], simp, rule checked_send_in_bounds [OF env], assumption)
        (simp_all add: layout)
  qed simp
qed

text \<open>The walks over the lists of streams and listeners fail only at a bad pointer or by not ending.\<close>

lemma walks_in_bounds:
  "in_bounds (\<lambda>_. True) (find_stream fuel ss f s)" "in_bounds (\<lambda>_. True) (find_listener fuel ls port l)"
  "in_bounds (\<lambda>_. True) (stream_before fuel ss s b)"
proof -
  show "in_bounds (\<lambda>_. True) (find_stream fuel ss f s)"
    by (induction fuel arbitrary: s; subst find_stream.simps) (auto intro!: bind_deref)
  show "in_bounds (\<lambda>_. True) (find_listener fuel ls port l)"
    by (induction fuel arbitrary: l; subst find_listener.simps) (auto intro!: bind_deref)
  show "in_bounds (\<lambda>_. True) (stream_before fuel ss s b)"
    by (induction fuel arbitrary: b; subst stream_before.simps) (auto intro!: bind_deref)
qed

lemma remove_in_bounds:
  fixes w :: "'a nworld_scheme"
  assumes "net_inv w"
  shows "in_bounds net_inv (remove_stream s w)"
  unfolding remove_stream_def
proof (rule in_bounds_bind [OF walks_in_bounds(3)], rule bind_deref)
  fix b st
  have all: "net_inv (w\<lparr>all_streams := snext st\<rparr>)" using assms by (simp add: net_inv_def)
  have "in_bounds net_inv (stream_update b (\<lambda>b. b\<lparr>snext := snext st\<rparr>) w)"
    by (rule stream_update_in_bounds(1) [OF _ assms]) simp
  then have r: "in_bounds net_inv (if b \<noteq> 0 then stream_update b (\<lambda>b. b\<lparr>snext := snext st\<rparr>) w else Inr (w\<lparr>all_streams := snext st\<rparr>))"
    using all by simp
  have del: "net_inv (v\<lparr>streams := (streams v)(s := None)\<rparr>)" if "net_inv v" for v :: "'a nworld_scheme"
    using that net_ok_del(2) [of v s] by (simp add: net_inv_def)
  show "in_bounds net_inv (bind_res (if b \<noteq> 0 then stream_update b (\<lambda>b. b\<lparr>snext := snext st\<rparr>) w
      else Inr (w\<lparr>all_streams := snext st\<rparr>)) (\<lambda>w. bind_res (kmem_free w s) (\<lambda>w. Inr (w\<lparr>streams := (streams w)(s := None)\<rparr>))))"
    by (rule in_bounds_bind [OF r], rule in_bounds_bind [OF kmem_free_in_bounds], assumption) (simp add: del)
qed

lemma acked_in_bounds:
  fixes w :: "'a nworld_scheme"
  assumes w: "net_inv w" and hdr: "12 \<le> length hdr"
  shows "in_bounds net_inv (acked s hdr w)"
  unfolding acked_def
proof (rule in_bounds_bind [OF get_in_bounds(4)], use hdr in simp,
    rule in_bounds_bind [OF stream_update_in_bounds(1) [OF _ w]])
  fix ack st
  show "stream_ok st \<Longrightarrow> stream_ok ((if pendingAck st \<le> ack then st\<lparr>pendingAck := ack\<rparr> else st)\<lparr>tstate := ack_state (tstate st)\<rparr>)"
    by simp
  fix w' :: "'a nworld_scheme" assume w': "net_inv w'"
  show "in_bounds net_inv (bind_res (deref (streams w') s) (\<lambda>st. if tstate st = LastAck then remove_stream s w' else Inr w'))"
    by (rule bind_deref) (use w' remove_in_bounds [OF w'] in simp)
qed

lemma syn_in_bounds:
  fixes w :: "'a nworld_scheme"
  assumes env: "env_safe env" and w: "net_inv w" and hdr: "8 \<le> length hdr"
  shows "in_bounds net_inv (syn env dev hdr src w)"
  unfolding syn_def
proof (rule in_bounds_bind [OF get_in_bounds(3)], use hdr in simp, rule in_bounds_bind [OF walks_in_bounds(2)])
  fix dp :: u16 and l :: u64
  have "in_bounds net_inv (bind_res (accept_call env a w) (\<lambda>(fn, w).
       bind_res (get16 hdr 0) (\<lambda>srcPort. bind_res (get32 hdr 4) (\<lambda>sequence.
         connected env dev (ntos dp) (ntos srcPort) src (ntol sequence) fn w))))" for a
    by (rule in_bounds_pair [OF env_safeD(3) [OF env w]], rule in_bounds_bind [OF get_in_bounds(3)], use hdr in simp,
        rule in_bounds_bind [OF get_in_bounds(4)], use hdr in simp, rule connected_in_bounds [OF env])
  moreover have "in_bounds net_inv (reset_stream env dev hdr src w)" using hdr by (intro reset_in_bounds [OF env w]) simp
  ultimately show "in_bounds net_inv (if l = 0 then reset_stream env dev hdr src w
      else bind_res (deref (listeners w) l) (\<lambda>x. bind_res (accept_call env (laccept x) w) (\<lambda>(fn, w).
       bind_res (get16 hdr 0) (\<lambda>srcPort. bind_res (get32 hdr 4) (\<lambda>sequence.
         connected env dev (ntos dp) (ntos srcPort) src (ntol sequence) fn w)))))"
    by (auto intro: bind_deref)
qed

text \<open>
  The data: here the bound of 2048 bytes is what keeps the copy inside the read buffer. The length
  is at most that of a packet, so the sum the code compares does not wrap.
\<close>

lemma buffer_data_in_bounds:
  fixes w :: "'a nworld_scheme"
  assumes w: "net_inv w" and hdr: "20 \<le> length hdr" "tcp_offset hdr = Inr off"
    and len: "4 * off + unat len \<le> length hdr" "unat len < 65536"
  shows "in_bounds net_inv (buffer_data hdr s len w)"
proof (cases "len = 0")
  case False
  have con: "in_bounds net_inv (on_con (console_print_string dropped []) w)"
  proof -
    have "37 \<notin> set dropped" "console_ok (con w)" using w by (simp_all add: str_def net_inv_def)
    then obtain c where "on_con (console_print_string dropped []) w = Inr (w\<lparr>con := c\<rparr>)" "console_ok c"
      using print_plain [of w dropped] by blast
    then show ?thesis using w by (simp add: net_inv_def)
  qed
  obtain q where q: "get32 hdr 4 = Inr q" using hdr(1) by (auto simp: get32_def get_bytes_def)
  obtain bs where bs: "get_bytes hdr (4 * off) (unat len) = Inr bs" "length bs = unat len"
    using len(1) by (auto simp: get_bytes_def)
  have "in_bounds net_inv (if readMax st < readOffset st + len then on_con (console_print_string dropped []) w
      else bind_res (put_bytes (unat (readOffset st)) bs (readBuf st)) (\<lambda>buf.
        stream_update s (\<lambda>st. st\<lparr>ackSeq := ntol q + len, readBuf := buf, readOffset := readOffset st + len, needsAck := 1\<rparr>) w))"
    if st: "streams w s = Some st" for st
  proof (cases "readMax st < readOffset st + len")
    case fits: False
    have ok: "stream_ok st" using w st by (auto simp: net_inv_def net_ok_def ran_def)
    then have o: "unat (readOffset st) \<le> 2048" by (simp add: stream_ok_def word_le_nat_alt)
    have "unat (readOffset st + len) = unat (readOffset st) + unat len" using o len(2) by (simp add: unat_plus_if')
    then have f: "unat (readOffset st) + unat len \<le> 2048" "readOffset st + len \<le> 2048"
      using fits ok by (simp_all add: stream_ok_def word_less_nat_alt word_le_nat_alt)
    then obtain buf where buf: "put_bytes (unat (readOffset st)) bs (readBuf st) = Inr buf" "length buf = 2048"
      using ok bs(2) by (auto simp: put_bytes_def stream_ok_def)
    have "in_bounds net_inv (stream_update s (\<lambda>st. st\<lparr>ackSeq := ntol q + len, readBuf := buf, readOffset := readOffset st + len, needsAck := 1\<rparr>) w)"
      by (rule stream_update_in_bounds(1) [OF _ w]) (use st buf(2) f(2) ok in \<open>simp add: stream_ok_def\<close>)
    then show ?thesis using fits buf(1) by simp
  qed (use con in simp)
  then show ?thesis using False by (auto simp: buffer_data_def hdr(2) q bs(1) intro!: bind_deref)
qed (use w in \<open>simp add: buffer_data_def\<close>)

lemma pushit_in_bounds:
  fixes w :: "'a nworld_scheme"
  assumes env: "env_safe env" and w: "net_inv w"
  shows "in_bounds net_inv (pushit env s w)"
  unfolding pushit_def
proof (rule bind_deref)
  fix st assume "streams w s = Some st"
  then have "stream_ok st" using w by (auto simp: net_inv_def net_ok_def ran_def)
  then have n: "length (readBuf st) = 2048" "readOffset st \<le> 2048" by (simp_all add: stream_ok_def)
  show "in_bounds net_inv (bind_res (read_call env (readFn st) s (readBuf st) (readOffset st) w) (stream_update s (readOffset_update (\<lambda>_. 0))))"
    by (rule in_bounds_bind [OF env_safeD(2) [OF env w n]], rule stream_update_in_bounds(1)) (simp_all add: stream_ok_def)
qed

lemma fin_in_bounds:
  fixes w :: "'a nworld_scheme"
  assumes env: "env_safe env" and w: "net_inv w"
  shows "in_bounds net_inv (fin env dev s w)"
  unfolding fin_def time_wait_def
proof (rule bind_deref)
  fix st
  have sent: "in_bounds net_inv (bind_res (stream_update s (\<lambda>st. st\<lparr>ackSeq := ackSeq st + 1\<rparr>) w) (\<lambda>w.
      bind_res (send_segment env s fl [] id dev w) (\<lambda>w. bind_res (stream_update s (\<lambda>st. st\<lparr>tstate := t\<rparr>) w) g)))"
    if "\<And>w :: 'a nworld_scheme. net_inv w \<Longrightarrow> in_bounds net_inv (g w)" for fl t g
    by (rule in_bounds_bind [OF stream_update_in_bounds(1) [OF _ w]], simp, rule in_bounds_bind [OF send_segment_in_bounds [OF env]],
        assumption, simp, simp, rule in_bounds_bind [OF stream_update_in_bounds(1)]) (simp_all add: that)
  show "in_bounds net_inv (if tstate st = FinWait2 then
         bind_res (stream_update s (\<lambda>st. st\<lparr>ackSeq := ackSeq st + 1\<rparr>) w) (\<lambda>w.
         bind_res (send_segment env s Ack [] id dev w) (\<lambda>w.
         bind_res (stream_update s (\<lambda>st. st\<lparr>tstate := TimeWait\<rparr>) w) (remove_stream s)))
       else if tstate st = Established then
         bind_res (stream_update s (\<lambda>st. st\<lparr>ackSeq := ackSeq st + 1\<rparr>) w) (\<lambda>w.
         bind_res (send_segment env s (Fin OR Ack) [] id dev w) (stream_update s (\<lambda>st. st\<lparr>tstate := LastAck\<rparr>)))
       else Inr w)"
    using sent [of "remove_stream s" Ack TimeWait, OF remove_in_bounds] sent [of Inr "Fin OR Ack" LastAck] w by simp
qed


lemma find_in_bounds: "4 \<le> length hdr \<Longrightarrow> in_bounds (\<lambda>_. True) (tcp_find dev src hdr w)"
  unfolding tcp_find_def
  by (intro bind_deref in_bounds_bind [OF get_in_bounds(3)] walks_in_bounds) simp_all

text \<open>
  C1. Memory safety of TCP input: a segment whose header and data lie inside the packet never makes the stack
  reach outside a packet, a socket buffer, a stream's read buffer or the ARP table, on any path: opening,
  acknowledging, buffering or dropping data, handing it to the application, closing, resetting. When it returns,
  all of these are well formed again. The driver and the application are assumed to keep the same contract
  (\<open>env_safe\<close>). A null or freed pointer and a full heap are other error values, which this does not exclude.
\<close>

theorem tcp_segment_in_bounds:
  fixes w :: "'a nworld_scheme"
  assumes env: "env_safe env" and w: "net_ok w" "console_ok (con w)"
    and hdr: "20 \<le> length hdr" "tcp_offset hdr = Inr off"
    and sz: "4 * off \<le> unat sz" "unat sz \<le> length hdr" "unat sz < 65536"
  shows "tcp_segment env dev hdr sz src w \<noteq> Inl (Fault OutOfBounds) \<and>
    (\<forall>w'. tcp_segment env dev hdr sz src w = Inr w' \<longrightarrow> net_ok w' \<and> console_ok (con w'))"
proof -
  have inv: "net_inv w" using w by (simp add: net_inv_def)
  have "unat (of_nat (4 * off) :: u32) = 4 * off" using sz by (intro unat_of_nat_small) simp
  then have "unat (sz - of_nat (4 * off)) = unat sz - 4 * off" using sz(1) by (simp only: unat_sub word_le_nat_alt)
  then have len: "4 * off + unat (sz - of_nat (4 * off)) \<le> length hdr" "unat (sz - of_nat (4 * off)) < 65536"
    using sz by simp_all
  have h: "4 \<le> length hdr" "8 \<le> length hdr" "12 \<le> length hdr" "13 < length hdr" using hdr(1) by simp_all
  have data: "in_bounds net_inv (bind_res (buffer_data hdr s (sz - of_nat (4 * off)) w) (\<lambda>w.
      bind_res (if psh then pushit env s w else Inr w) (\<lambda>w. if f then fin env dev s w else Inr w)))"
    if "net_inv w" for s psh f and w :: "'a nworld_scheme"
    by (rule in_bounds_bind [OF buffer_data_in_bounds [OF that hdr len]], rule in_bounds_bind [where P = net_inv])
      (simp_all add: pushit_in_bounds [OF env] fin_in_bounds [OF env])
  have known: "in_bounds net_inv (bind_res (if a then acked s hdr w else Inr w) (\<lambda>w. bind_res (tcp_offset hdr) (\<lambda>off.
      bind_res (buffer_data hdr s (sz - of_nat (4 * off)) w) (\<lambda>w.
      bind_res (if psh then pushit env s w else Inr w) (\<lambda>w. if f then fin env dev s w else Inr w)))))"
    if "net_inv w" for a s psh f and w :: "'a nworld_scheme"
  proof (rule in_bounds_bind [where P = net_inv])
    show "in_bounds net_inv (if a then acked s hdr w else Inr w)" using that acked_in_bounds [OF that h(3)] by simp
  qed (simp add: hdr(2) data del: of_nat_mult of_nat_numeral)
  have "in_bounds net_inv (tcp_segment env dev hdr sz src w)"
    unfolding tcp_segment_def
  proof (rule in_bounds_bind [OF get_in_bounds(2) [OF h(4)]], rule in_bounds_bind [where P = net_inv])
    fix flags
    show "in_bounds net_inv (if flags AND Syn \<noteq> 0 then syn env dev hdr src w else Inr w)"
      using inv syn_in_bounds [OF env inv h(2)] by simp
    fix v :: "'a nworld_scheme" assume v: "net_inv v"
    show "in_bounds net_inv (bind_res (tcp_find dev src hdr v) (\<lambda>s.
       if s = 0 then reset_stream env dev hdr src v
       else bind_res (if flags AND Ack \<noteq> 0 then acked s hdr v else Inr v) (\<lambda>w. bind_res (tcp_offset hdr) (\<lambda>off.
         bind_res (buffer_data hdr s (sz - of_nat (4 * off)) w) (\<lambda>w.
         bind_res (if flags AND Psh \<noteq> 0 then pushit env s w else Inr w) (\<lambda>w. if flags AND Fin \<noteq> 0 then fin env dev s w else Inr w))))))"
      by (rule in_bounds_bind [OF find_in_bounds [OF h(1)]], rule in_bounds_if, rule reset_in_bounds [OF env v h(1)], rule known [OF v])
  qed
  then show ?thesis by (cases "tcp_segment env dev hdr sz src w") (auto simp: net_inv_def)
qed

text \<open>A segment that fills the read buffer to its last byte, and one more byte that is dropped.\<close>

theorem tcp_segment_in_bounds_witness:
  "\<exists>w1. tcp_segment demo_env 8 (demo_segment 0 [1]) 21 0x0a000007
       (demo_net Map.empty [8 \<mapsto> demo_device] empty_arp\<lparr>streams := [16 \<mapsto> demo_stream 2047 Established], all_streams := 16\<rparr>) = Inr w1 \<and>
     map_option readOffset (streams w1 16) = Some 2048 \<and> net_ok w1 \<and>
     tcp_segment demo_env 8 (demo_segment 0 [1]) 21 0x0a000007 w1 \<noteq> Inl (Fault OutOfBounds)"
proof -
  let ?w = "demo_net Map.empty [8 \<mapsto> demo_device] empty_arp\<lparr>streams := [16 \<mapsto> demo_stream 2047 Established], all_streams := 16\<rparr>"
  let ?hdr = "demo_segment 0 [1]"
  have env: "env_safe demo_env" by (simp add: env_safe_def demo_env_def)
  have w: "net_ok ?w" "console_ok (con ?w)"
    by (simp_all add: demo_net_def demo_more_def kheap.defs console_ok_def console_boot_def cursor_def net_ok_def
        demo_stream_def stream_ok_def demo_device_def arp_ok_def empty_arp_def)
  have seg: "20 \<le> length ?hdr" "tcp_offset ?hdr = Inr 5" "4 * 5 \<le> unat (21 :: u32)" "unat (21 :: u32) \<le> length ?hdr" "unat (21 :: u32) < 65536"
    by (simp_all add: demo_segment_fields) (simp add: demo_segment_def)+
  have ok: "stream_ok (demo_stream 2047 Established)" by (simp add: stream_ok_def demo_stream_def)
  have bs: "get_bytes ?hdr (4 * 5) (unat (1 :: u32)) = Inr [1]" by (simp add: demo_segment_def get_bytes_def)
  have st: "streams ?w 16 = Some (demo_stream 2047 Established)" by simp
  have fit: "unat (readOffset (demo_stream 2047 Established)) + unat (1 :: u32) \<le> 2048" by (simp add: demo_stream_def)
  obtain buf where b: "buffer_data ?hdr 16 1 ?w = Inr (?w\<lparr>streams := (streams ?w)(16 \<mapsto> demo_stream 2047 Established
      \<lparr>ackSeq := 7 + 1, readBuf := buf, readOffset := readOffset (demo_stream 2047 Established) + 1, needsAck := 1\<rparr>)\<rparr>)"
    by (rule buffer_data_stores [OF _ st ok _ fit demo_segment_fields(1,2) bs]) (simp, simp, rule that, assumption)
  have find: "tcp_find 8 0x0a000007 ?hdr ?w = Inr 16"
    by (simp add: tcp_find_def demo_segment_fields deref_def demo_device_def ntos.swap_swap find_stream.simps
        stream_matches_def demo_stream_def walk_fuel_def)
  have "tcp_segment demo_env 8 ?hdr 21 0x0a000007 ?w = buffer_data ?hdr 16 1 ?w"
    by (simp add: tcp_segment_def demo_segment_fields find)
  then obtain w1 where w1: "tcp_segment demo_env 8 ?hdr 21 0x0a000007 ?w = Inr w1" "map_option readOffset (streams w1 16) = Some 2048"
    using b by (simp add: demo_stream_def)
  note safe = tcp_segment_in_bounds [OF env _ _ seg, of _ 8 "0x0a000007"]
  have "net_ok w1" "console_ok (con w1)" using safe [OF w] w1(1) by blast+
  then show ?thesis using w1 safe [of w1] by blast
qed

end
