(* ===== verification/KernelTypes.thy ===== *)
theory KernelTypes
  imports Kernel TcpSafe
begin

text \<open>
  The running kernel: the functions behind the kernel's pointers keep the types of the network's objects,
  so start-up, every interrupt and every task that return do, in any order. The card's driver and the
  echo server keep the contract under which TCP input is memory safe.
\<close>

unbundle bit_operations_syntax

subsection \<open>Tasks and hardware\<close>

lemma net_ok_kernel [simp]:
  "net_ok (w\<lparr>irq_on := i\<rparr>) = net_ok w" "net_ok (w1\<lparr>buffer := b\<rparr>) = net_ok w1" "net_ok (w1\<lparr>kb := k\<rparr>) = net_ok w1"
  "net_ok (w1\<lparr>readKeybd := t\<rparr>) = net_ok w1" "net_ok (w\<lparr>interrupt_handlers := h\<rparr>) = net_ok w" "net_ok (w\<lparr>idt := d\<rparr>) = net_ok w"
  "net_ok (w2\<lparr>file_systems := l\<rparr>) = net_ok w2" "net_ok (w3\<lparr>rtc_time := n\<rparr>) = net_ok w3" "net_ok (w3\<lparr>shown_time := n\<rparr>) = net_ok w3"
  "net_ok (w4\<lparr>hw := h'\<rparr>) = net_ok w4" "net_ok (w4\<lparr>ata_devs := ad\<rparr>) = net_ok w4"
  "net_ok (w5\<lparr>recv_size := rs\<rparr>) = net_ok w5" "net_ok (w5\<lparr>pending_sends := ps\<rparr>) = net_ok w5"
  "net_ok (w6\<lparr>rtc_reads := n'\<rparr>) = net_ok w6" "net_ok (w6\<lparr>gdt_tss := g\<rparr>) = net_ok w6" "net_ok (w7\<lparr>processes := pr\<rparr>) = net_ok w7"
  by (simp_all add: net_ok_def)

lemma task_update_net [net_type]: "net_ok w \<Longrightarrow> okr (task_update w t f)"
  by (auto simp: task_update_def intro!: net_type)

lemma task_net [net_type]:
  assumes "net_ok w"
  shows "okp (task_alloc w f u)" "okr (add_ref w t)" "okr (release_ref w t)" "okr (task_enqueue w t)" "okp (task_get w)"
  using assms
  by (auto simp: task_alloc_def add_ref_def release_ref_def task_enqueue_def task_get_def Let_def
      disable_interrupts_def enable_interrupts_def intro!: net_type)

lemma enqueue_easy_net [net_type]: "net_ok w \<Longrightarrow> okr (task_enqueue_easy w f u)"
  by (auto simp: task_enqueue_easy_def intro!: net_type)

lemma poll_net [net_type]:
  "(\<And>f u w. net_ok w \<Longrightarrow> okr (run f u w)) \<Longrightarrow> net_ok w \<Longrightarrow> okr (task_poll_for_work run n w)"
  by (induction n arbitrary: w) (auto intro!: net_type)

lemma port_net [simp]:
  "net_ok (snd (inb_hw io p w)) = net_ok w" "net_ok (snd (inw_hw io p w)) = net_ok w" "net_ok (snd (inl_hw io p w)) = net_ok w"
  "net_ok (outb_hw io p v w) = net_ok w" "net_ok (outw_hw io p v' w) = net_ok w"
  by (simp_all add: inb_hw_def inw_hw_def inl_hw_def outb_hw_def outw_hw_def split_beta Let_def)

lemma outs_net [simp]: "net_ok (outs_hw io xs w) = net_ok w"
  by (induction io xs w rule: outs_hw.induct) simp_all

subsection \<open>Disk and files\<close>

lemma select_net [simp]: "net_ok (snd (drive_select io dev w)) = net_ok w"
  by (simp add: drive_select_def Let_def split_beta)

lemma disk_loops_net [net_type]:
  "net_ok w \<Longrightarrow> okp (wait_not_busy io p n st w)" "net_ok w \<Longrightarrow> okr (drain_drq io p n st w)" "net_ok w \<Longrightarrow> okp (wait_data io p n st w)"
  by (induction n arbitrary: st w) (auto simp: Let_def split_beta)

lemma read_words_net [simp]: "net_ok (read_words io p dst n w) = net_ok w"
  by (induction n arbitrary: dst w) (auto simp: Let_def split_beta)

lemma read_ident_net [simp]: "net_ok (snd (read_ident io p n w)) = net_ok w"
  by (induction n arbitrary: w) (auto simp: Let_def split_beta)

lemma read_sector_net [net_type]: "net_ok w \<Longrightarrow> okp (read_sector io fuel p lba buf sz w)"
  by (auto simp: read_sector_def Let_def split_beta intro!: net_type)

text \<open>A driver that keeps the types.\<close>

abbreviation sector_ok :: "'a fworld_scheme sector_fn \<Rightarrow> bool" where
  "sector_ok rs \<equiv> (\<forall>p lba buf sz w. net_ok w \<longrightarrow> okp (rs p lba buf sz w))"

lemma find_net: "sector_ok rs \<Longrightarrow> net_ok w \<Longrightarrow> okp (fat_find rs sp dev f buf w)"
  by (auto simp: fat_find_def Let_def split_beta intro!: net_type)

lemma slurp_net: "sector_ok rs \<Longrightarrow> net_ok w \<Longrightarrow> okp (fat_slurp rs sp dev f buf sz w)"
  by (auto simp: fat_slurp_def Let_def split_beta intro!: net_type find_net)

lemma init_fat_net: "sector_ok rs \<Longrightarrow> net_ok w \<Longrightarrow> okr (init_fat32 rs lit ef sf sp dev w)"
  by (auto simp: init_fat32_def register_fs_def Let_def split_beta intro!: net_type)

lemma vfs_read_net [net_type]: "net_ok w \<Longrightarrow> okp (vfs_read (kernel_fs io fuel fa) f buf sz w)"
proof -
  have "okp (vfs_walk n (kernel_fs io fuel fa) f buf sz node w)" if "net_ok w" for n node w
    using that
  proof (induction n arbitrary: node w)
    case 0
    then show ?case by (subst vfs_walk.simps) auto
  next
    case (Suc n)
    then show ?case
      by (subst vfs_walk.simps)
        (auto simp: kernel_fs_def Let_def fat_exists_def intro!: net_type find_net slurp_net Suc.IH)
  qed
  then show "net_ok w \<Longrightarrow> okp (vfs_read (kernel_fs io fuel fa) f buf sz w)" by (simp add: vfs_read_def)
qed

subsection \<open>Network card, services and tasks\<close>

lemma rx_copy_net [net_type]: "net_ok w \<Longrightarrow> okr (rx_copy io iomem n buf sz s w)"
  by (induction n arbitrary: s w) (auto simp: Let_def split_beta)

lemma rx_frame_net [net_type]: "net_ok w \<Longrightarrow> okp (rx_frame io n fn self iomem frame w)"
  by (auto simp: rx_frame_def Let_def split_beta intro!: net_type)

lemma rx_loop_net [net_type]: "net_ok w \<Longrightarrow> okr (rx_loop io cn n fn self iomem rp frame w)"
  by (induction n arbitrary: frame w) (auto intro!: net_type)

lemma ne2k_irq_net [net_type]: "net_ok w \<Longrightarrow> okr (ne2k_irq io cn n fn self w)"
  by (auto simp: ne2k_irq_def Let_def split_beta intro!: net_type)

lemma ne2k_send_net [net_type]: "net_ok w \<Longrightarrow> okr (ne2k_send fn dev sb w)"
  by (auto simp: ne2k_send_def intro!: net_type)

lemma send_words_net [net_type]: "net_ok w \<Longrightarrow> okr (send_words io iomem bs n i w)"
  by (induction io iomem bs n i w rule: send_words.induct) (subst send_words.simps, auto)

lemma send_sync_net [net_type]: "net_ok w \<Longrightarrow> okr (send_sync io p w)"
  by (auto simp: send_sync_def Let_def intro!: net_type)

lemma send_env_ok: "env_ok (send_env ka)"
  by (auto simp: env_ok_def send_env_def intro!: net_type)

lemma echo_net [net_type]:
  "env_ok env \<Longrightarrow> net_ok w \<Longrightarrow> okr (tcp_echo_read env s bs n w)" "env_ok env \<Longrightarrow> net_ok w \<Longrightarrow> okr (udp_echo_notify env q bs n w)"
  by (auto simp: tcp_echo_read_def udp_echo_notify_def Let_def intro!: net_type)

lemma http_net [net_type]:
  "env_ok env \<Longrightarrow> net_ok w \<Longrightarrow> okr (http_read env (kernel_fs io fuel fa) h1 sep fname sp s w)"
  by (auto simp: http_read_def Let_def split_beta intro!: net_type bind_value [where r = "strlen_res m p" for m p])

lemma kernel_env_ok: "env_ok (kernel_env mc kfuel ka)"
  using send_env_ok [of ka] send_env_ok [of ka, unfolded env_ok_def]
  by (auto simp: env_ok_def kernel_env_def intro!: net_type)

lemma dispatch_net [net_type]: "env_ok env \<Longrightarrow> net_ok w \<Longrightarrow> okr (dispatch env p w)"
  by (auto simp: dispatch_def intro!: net_type)

lemma user_task_net [simp]: "net_ok (user_task w) = net_ok w"
  by (simp add: user_task_def update_clock_def Let_def)

lemma kernel_task_net [net_type]:
  assumes "\<And>u w. net_ok w \<Longrightarrow> okr (call_user u w)" "net_ok w"
  shows "okr (kernel_task mc kfuel ka call_user int3 fn u w)"
  using assms kernel_env_ok
  by (auto simp: kernel_task_def split_beta intro!: net_type bind_value [where r = "read_keys i n s" for i n s])

lemma timer_net [net_type]: "net_ok w \<Longrightarrow> okp (timer_irq c fuel tries n u w)"
  by (cases "read_rtc_loop c fuel tries n") (auto simp: timer_irq_def read_rtc_def intro!: net_type)

lemma kernel_irq_net [net_type]:
  assumes "net_ok w"
  shows "okr (kernel_irq mc kfuel ka fn u w)"
  using assms
  by (auto simp: kernel_irq_def keyboard_irq_def ata_irq_handler_def Let_def split_beta
      intro!: net_type bind_value [where r = "buffer_push b v" for b v])

subsection \<open>The driver and the echo server keep the contract of TCP input\<close>

lemma task_update_in_bounds:
  "net_inv w \<Longrightarrow> in_bounds net_inv (task_update w t f)" "room p h n v \<Longrightarrow> in_bounds (room p h n) (task_update v t f)"
  unfolding task_update_def by (rule bind_deref; simp add: net_inv_def room_def)+

lemma task_enqueue_in_bounds:
  fixes w :: "'a nworld_scheme"
  assumes "net_inv w"
  shows "in_bounds net_inv (task_enqueue w t)"
proof -
  have q: "net_inv (v\<lparr>ttail := a\<rparr>) = net_inv v" "net_inv (v\<lparr>ttail := a, thead := b\<rparr>) = net_inv v" for v :: "'a nworld_scheme" and a b
    by (simp_all add: net_inv_def)
  have rest: "in_bounds net_inv (if thead v = 0 then Inr (v\<lparr>ttail := t, thead := t\<rparr>)
      else if ttail v \<noteq> 0 then bind_res (task_update v (ttail v) (\<lambda>k. k\<lparr>tnext := t\<rparr>)) (\<lambda>h. Inr (h\<lparr>ttail := t\<rparr>))
      else Inl (Panic ''Head without a tail''))" if "net_inv v" for v :: "'a nworld_scheme"
    by (rule in_bounds_if, simp add: q that, rule in_bounds_if, rule in_bounds_bind [OF task_update_in_bounds(1) [OF that]])
      (simp_all add: q)
  show ?thesis
    unfolding task_enqueue_def add_ref_def
    by (rule bind_deref, rule in_bounds_if, simp add: assms, rule in_bounds_bind [OF task_update_in_bounds(1) [OF assms]], rule rest)
qed

lemma ne2k_send_in_bounds:
  fixes w :: "('d, 'a) eworld_scheme"
  assumes w: "net_inv w"
  shows "in_bounds net_inv (ne2k_send fn dev sb w)"
  unfolding ne2k_send_def task_alloc_def
proof (rule in_bounds_pair [OF kmem_alloc_in_bounds [OF w]])
  fix p and w1 :: "('d, 'a) eworld_scheme"
  assume "net_inv w1 \<and> sbuffs w1 = sbuffs w \<and> (\<forall>a h n. room a h n w1 = room a h n w)"
  then have w1: "net_inv w1" by blast
  have ref: "in_bounds net_inv (sbuff_add_ref sb v)" if v: "net_inv v" for v :: "('d, 'a) eworld_scheme"
  proof (cases "sb = 0 \<or> sbuffs v sb = None")
    case True
    then show ?thesis by (auto simp: sbuff_add_ref_def sbuff_update_def deref_def)
  next
    case False
    then obtain s where "sbuffs v sb = Some s" "sb \<noteq> 0" by blast
    then have "room sb (shead s) (unat (currSize s)) v" using v by (simp add: room_def)
    then show ?thesis by (rule in_bounds_weaken [OF refs_in_bounds(1) room_inv])
  qed
  have "in_bounds (\<lambda>(t, v). net_inv v) (bind_res (kmem_alloc w1 sizeof_Task) (\<lambda>(t, h).
      Inr (t, h\<lparr>tasks := (tasks h)(t \<mapsto> \<lparr>task_fn = fn, user = p, refs = 0, tnext = 0\<rparr>)\<rparr>)))"
    by (rule in_bounds_pair [OF kmem_alloc_in_bounds [OF w1]]) (simp add: net_inv_def)
  then show "in_bounds net_inv (bind_res (bind_res (kmem_alloc w1 sizeof_Task) (\<lambda>(t, h).
      Inr (t, h\<lparr>tasks := (tasks h)(t \<mapsto> \<lparr>task_fn = fn, user = p, refs = 0, tnext = 0\<rparr>)\<rparr>))) (\<lambda>(t, w).
    bind_res (sbuff_add_ref sb (w\<lparr>pending_sends := (pending_sends w)(p \<mapsto> \<lparr>ps_task = t, ps_data = sb, ps_dev = dev\<rparr>)\<rparr>)) (\<lambda>w.
      task_enqueue w t)))"
    by (rule in_bounds_pair) (auto intro!: in_bounds_bind [OF ref] task_enqueue_in_bounds simp: net_inv_def)
qed

lemma tcp_send_in_bounds:
  fixes w :: "'a nworld_scheme"
  assumes env: "env_safe env" and w: "net_inv w" and n: "unat n \<le> length bs" "unat n + 54 < 65536"
  shows "in_bounds net_inv (tcp_send env s bs n w)"
  unfolding tcp_send_def
proof (rule in_bounds_bind [OF get_in_bounds(1)])
  fix pl :: "u8 list" assume "length pl = unat n"
  then have "in_bounds net_inv (send_segment env s Psh pl id dv w)" for dv
    using n(2) by (intro send_segment_in_bounds [OF env w]) simp_all
  then show "in_bounds net_inv (bind_res (deref (streams w) s) (\<lambda>st. bind_res (send_segment env s Psh pl id (sdev st) w)
      (stream_update s (\<lambda>st. st\<lparr>localSeq := localSeq st + ucast n\<rparr>))))"
    by (intro bind_deref, rule in_bounds_bind) (rule stream_update_in_bounds(1); simp)
qed (use n in simp)

lemma send_env_safe: "env_safe (send_env ka)"
  by (simp add: env_safe_def send_env_def ne2k_send_in_bounds)

lemma echo_env_safe: "env_safe ((kernel_env mc kfuel ka :: ('d, 'a) sysworld_scheme net_env)\<lparr>read_call := (\<lambda>fn. tcp_echo_read (send_env ka))\<rparr>)"
proof -
  have "in_bounds net_inv (tcp_echo_read (send_env ka) s bs n w)" if "net_inv w" "length bs = 2048" "n \<le> 2048"
    for s bs n and w :: "('d, 'a) sysworld_scheme"
  proof -
    have "unat n \<le> 2048" using that(3) by (simp add: word_le_nat_alt)
    moreover from this have "unat (ucast n :: u16) = unat n" by (simp add: unsigned_ucast_eq take_bit_nat_eq_self)
    ultimately show ?thesis using that unfolding tcp_echo_read_def by (intro tcp_send_in_bounds [OF send_env_safe]) simp_all
  qed
  moreover have "in_bounds net_inv (send_call (send_env ka) fn dv sb w)" if "net_inv w" for fn dv sb and w :: "('d, 'a) sysworld_scheme"
    by (rule env_safeD(1) [OF send_env_safe that])
  ultimately show ?thesis unfolding env_safe_def by (simp add: kernel_env_def)
qed

subsection \<open>Start-up\<close>

lemma register_net [simp]: "net_ok (register_interrupt_handler n f u w) = net_ok w"
  by (simp add: register_interrupt_handler_def)

lemma gates_net [simp]: "net_ok (fold (\<lambda>x. create_gate (n x) (g x)) xs w) = net_ok w"
  by (induction xs arbitrary: w) (simp_all add: create_gate_def)

lemma init_interrupts_net [simp]: "net_ok (init_interrupts w) = net_ok w"
  using gates_net [where n = "\<lambda>x. x"]
  by (simp add: init_interrupts_def disable_interrupts_def enable_interrupts_def Let_def)

lemma kmem_init_net [simp]: "net_ok (kmem_init w) = net_ok w"
  by (simp add: net_ok_def kmem_init_def)

lemma add_block_net [net_type]: "net_ok w \<Longrightarrow> okr (kmem_add_block w s sz c)"
  by (auto simp: kmem_add_block_def Let_def net_ok_def)

lemma each_net: "(\<And>x w. net_ok w \<Longrightarrow> okr (f x w)) \<Longrightarrow> net_ok w \<Longrightarrow> okr (each f xs w)"
  by (induction xs arbitrary: w) (auto intro!: net_type)

lemma memory_map_net [net_type]:
  fixes w :: "'a nworld_scheme"
  shows "net_ok w \<Longrightarrow> okr (parse_memory_map n w)"
proof -
  have "okr (memory_map_loop n t w)" if "net_ok w" for t n and w :: "'a nworld_scheme"
    using that
    by (induction n arbitrary: t w)
      (auto simp: Let_def split_beta intro!: net_type bind_value [where r = "console_print_string f as c" for f as c])
  then show "net_ok w \<Longrightarrow> okr (parse_memory_map n w)" by (auto simp: parse_memory_map_def intro!: net_type)
qed

lemma listen_net [net_type]: "net_ok w \<Longrightarrow> okp (tcp_listen p f w)" "net_ok w \<Longrightarrow> okp (udp_listen q f w)"
proof -
  have u: "net_ok (w\<lparr>udp_ports := up\<rparr>) = net_ok w" "net_ok (w\<lparr>listening_ports := lp\<rparr>) = net_ok w" for up lp and w :: "'b nworld_scheme"
    by (simp_all add: net_ok_def)
  show "net_ok w \<Longrightarrow> okp (tcp_listen p f w)" "net_ok w \<Longrightarrow> okp (udp_listen q f w)"
    by (auto simp: tcp_listen_def udp_listen_def u intro!: net_type)
qed

lemma services_net [net_type]:
  assumes "net_ok w"
  shows "okr (init_http f w)" "okr (init_echo f g w)" "okr (init_keyboard f g w)"
  using assms
  by (auto simp: init_http_def http_run_def init_echo_def init_keyboard_def intro!: net_type)

lemma init_clock_net [net_type]: "net_ok w \<Longrightarrow> okr (init_clock f u g w)"
  by (auto simp: init_clock_def intro!: net_type)

lemma create_process_net [net_type]: "net_ok w \<Longrightarrow> okp (create_process r c f w)"
  by (auto simp: create_process_def intro!: net_type)

lemma identify_net [net_type]: "net_ok w \<Longrightarrow> okp (identify io n p w)"
  by (auto simp: identify_def ata_update_def Let_def split_beta intro!: net_type)

lemma init_ata_net [net_type]: "net_ok w \<Longrightarrow> okr (init_ata io n fa h ds w)"
  by (auto simp: init_ata_def probe_ata_def Let_def intro!: each_net net_type init_fat_net split: option.split)

lemma read_mac_length: "read_mac io iomem i n w = Inr (m, w') \<Longrightarrow> length m = n"
  by (induction n arbitrary: i w m w') (auto simp: Let_def split_beta res_simps)

lemma read_mac_net: "net_ok w \<Longrightarrow> okp (read_mac io iomem i n w)"
  by (induction n arbitrary: i w) (auto simp: Let_def split_beta intro!: net_type)

lemma bind_read_mac [net_type]:
  "net_ok w \<Longrightarrow> (\<And>m w. length m = n \<Longrightarrow> net_ok w \<Longrightarrow> okr (f (m, w))) \<Longrightarrow> okr (bind_res (read_mac io iomem i n w) f)"
  using read_mac_net [of w io iomem i n] by (cases "read_mac io iomem i n w") (auto simp: okp_def dest: read_mac_length)

lemma net_ok_device: "net_ok w \<Longrightarrow> length (dev_mac d) = 6 \<Longrightarrow> net_ok (w\<lparr>devices := (devices w)(p \<mapsto> d)\<rparr>)"
  by (auto simp: net_ok_def dest!: ran_upd)

lemma init_ne2k_net [net_type]: "env_ok env \<Longrightarrow> net_ok w \<Longrightarrow> okr (init_ne2k cfg io env sf qf w)"
  by (auto simp: init_ne2k_def register_pci_device_def register_slot_def ne2k_initialize_def gratuitous_arp_def Let_def
      intro!: each_net net_type net_ok_device split: option.split)

lemma kernel_main_net: "net_ok w \<Longrightarrow> okr (kernel_main mc kfuel ka w)"
  by (auto simp: kernel_main_def Let_def split_beta intro!: net_type kernel_env_ok)

subsection \<open>The running kernel\<close>

text \<open>
  Between the instructions of entry.asm the kernel takes an interrupt through the handler table or
  runs the task at the head of the queue.
\<close>

inductive kernel_step ::
  "'d machine \<Rightarrow> nat \<Rightarrow> kaddrs \<Rightarrow> (u64 \<Rightarrow> ('d, 'a) sysworld_scheme \<Rightarrow> ('d, 'a) sysworld_scheme res) \<Rightarrow> (console \<Rightarrow> console res) \<Rightarrow>
    ('d, 'a) sysworld_scheme \<Rightarrow> ('d, 'a) sysworld_scheme \<Rightarrow> bool" for mc kfuel ka call_user int3 where
  interrupt: "irq_on w \<Longrightarrow> irq_handler (kernel_irq mc kfuel ka) n w = Inr w' \<Longrightarrow> kernel_step mc kfuel ka call_user int3 w w'"
| task: "task_get w = Inr (t, w1) \<Longrightarrow> t \<noteq> 0 \<Longrightarrow> deref (tasks w1) t = Inr k \<Longrightarrow>
    kernel_task mc kfuel ka call_user int3 (task_fn k) (user k) w1 = Inr w2 \<Longrightarrow> release_ref w2 t = Inr w' \<Longrightarrow>
    kernel_step mc kfuel ka call_user int3 w w'"

lemma okrD: "okr r \<Longrightarrow> r = Inr w \<Longrightarrow> net_ok w"
  by (simp add: okr_def)

lemma kernel_step_net:
  assumes user: "\<And>u w. net_ok w \<Longrightarrow> okr (call_user u w)" and w: "net_ok w"
    and step: "kernel_step mc kfuel ka call_user int3 w w'"
  shows "net_ok w'"
  using step
proof (cases rule: kernel_step.cases)
  case (interrupt n)
  have "okr (irq_handler (kernel_irq mc kfuel ka) n w)"
    using w by (auto simp: irq_handler_def split_beta intro!: kernel_irq_net)
  then show ?thesis using interrupt(2) by (rule okrD)
next
  case (task t w1 k w2)
  have "net_ok w1" using task_net(5) [OF w] task(1) by (auto simp: okp_def)
  then have "net_ok w2" using kernel_task_net [of call_user w1] user task(4) by (blast intro: okrD)
  then show ?thesis using task(5) by (blast intro: okrD task_net)
qed

text \<open>Polling for work is a sequence of steps.\<close>

lemma poll_steps:
  "task_poll_for_work (kernel_task mc kfuel ka call_user int3) n w = Inr w' \<Longrightarrow>
     \<exists>v. (kernel_step mc kfuel ka call_user int3)\<^sup>*\<^sup>* w v \<and> task_get v = Inr (0, w')"
proof (induction n arbitrary: w)
  case (Suc n)
  then obtain t w1 where t: "task_get w = Inr (t, w1)" by (auto simp: res_simps)
  show ?case
  proof (cases "t = 0")
    case True
    then show ?thesis using Suc.prems t by auto
  next
    case False
    then obtain k w2 w3 where r: "deref (tasks w1) t = Inr k"
      "kernel_task mc kfuel ka call_user int3 (task_fn k) (user k) w1 = Inr w2" "release_ref w2 t = Inr w3"
      "task_poll_for_work (kernel_task mc kfuel ka call_user int3) n w3 = Inr w'"
      using Suc.prems t by (auto simp: res_simps)
    have "kernel_step mc kfuel ka call_user int3 w w3" using t False r(1-3) by (rule kernel_step.task)
    with Suc.IH [OF r(4)] show ?thesis by (blast intro: converse_rtranclp_into_rtranclp)
  qed
qed simp

text \<open>
  Preservation for the whole kernel: whatever the ports, the network and the clock deliver, start-up and every
  interrupt and task that returns leave the socket buffers, streams, devices and the ARP table well formed, as
  long as user code called through entry.asm does. A handler or task that stores out of bounds, such as the one
  for the 129th ARP reply, is an error value and not a step, so this says nothing about it.
\<close>

theorem kernel_keeps_types:
  fixes w :: "('d, 'a) sysworld_scheme"
  assumes user: "\<And>u w w'. net_ok w \<Longrightarrow> call_user u w = Inr w' \<Longrightarrow> net_ok w'" and w: "net_ok w"
  shows "(kernel_main mc kfuel ka w = Inr v \<longrightarrow> net_ok v) \<and>
    ((kernel_step mc kfuel ka call_user int3)\<^sup>*\<^sup>* w w' \<longrightarrow> net_ok w')"
proof (intro conjI impI)
  show "net_ok v" if "kernel_main mc kfuel ka w = Inr v" using kernel_main_net [OF w] that by (rule okrD)
  have cu: "okr (call_user u w)" if "net_ok w" for u w using user [OF that] by (simp add: okr_def)
  show "net_ok w'" if "(kernel_step mc kfuel ka call_user int3)\<^sup>*\<^sup>* w w'"
    using that w
  proof (induction rule: rtranclp_induct)
    case (step y z)
    show ?case by (rule kernel_step_net [OF cu step.IH [OF step.prems] step.hyps(2)])
  qed
qed

definition demo_busy :: "u64 \<Rightarrow> u16 list sysworld" where
  "demo_busy fn = (demo_sys fn)\<lparr>tasks := [8 \<mapsto> \<lparr>task_fn = fn, user = 0, refs = 2, tnext = 0\<rparr>], thead := 8, ttail := 8,
     sbuffs := [16 \<mapsto> \<lparr>totalSize = 2, currSize = 1, shead = 1, srefs = 1, sdata = replicate 9 0\<rparr>]\<rparr>"

theorem kernel_keeps_types_witness:
  "\<forall>(ka :: kaddrs) (mc :: u16 list machine). \<exists>w'. thead (demo_busy (fn_read_keys ka)) = 8 \<and> thead w' = 0 \<and>
     (kernel_step mc 0 ka (\<lambda>u. Inr) Inr)\<^sup>*\<^sup>* (demo_busy (fn_read_keys ka)) w' \<and> net_ok w'"
proof (intro allI)
  fix ka :: kaddrs and mc :: "u16 list machine"
  let ?fn = "fn_read_keys ka" let ?w = "demo_busy ?fn"
  have w: "net_ok ?w"
    by (simp add: demo_busy_def net_ok_def sbuff_ok_def demo_sys_def cworld.defs demo_clock_def nworld.defs demo_net_def demo_more_def
        kheap.defs arp_ok_def empty_arp_def)
  have th: "thead ?w = 8" by (simp add: demo_busy_def)
  have rk: "br b = bw b \<Longrightarrow> read_keys Inr 32 (b, k, c) = Inr (b, k, c)" for b k c
    using read_keys.simps(2) [of Inr 31 b "(k, c)"] by (simp add: buffer_has_data_def)
  have "\<exists>w1 k w2 w'. task_get ?w = Inr (8, w1) \<and> deref (tasks w1) 8 = Inr k \<and>
      kernel_task mc 0 ka (\<lambda>u. Inr) Inr (task_fn k) (user k) w1 = Inr w2 \<and> release_ref w2 8 = Inr w' \<and> thead w' = 0"
    by (simp add: demo_busy_def demo_sys_fields task_get_def deref_def task_update_def Let_def disable_interrupts_def enable_interrupts_def
        kernel_task_def release_ref_def rk del: read_keys.simps)
  then obtain w1 k w2 w' where r: "task_get ?w = Inr (8, w1)" "deref (tasks w1) 8 = Inr k"
    "kernel_task mc 0 ka (\<lambda>u. Inr) Inr (task_fn k) (user k) w1 = Inr w2" "release_ref w2 8 = Inr w'" "thead w' = 0" by blast
  have "kernel_step mc 0 ka (\<lambda>u. Inr) Inr ?w w'" by (rule kernel_step.task [OF r(1) _ r(2-4)]) simp
  then have s: "(kernel_step mc 0 ka (\<lambda>u. Inr) Inr)\<^sup>*\<^sup>* ?w w'" "thead w' = 0" using r(5) by blast+
  have "net_ok w'" using kernel_keeps_types [of "\<lambda>u. Inr" ?w mc 0 ka _ Inr w'] w s(1) by blast
  with th s show "\<exists>w'. thead ?w = 8 \<and> thead w' = 0 \<and> (kernel_step mc 0 ka (\<lambda>u. Inr) Inr)\<^sup>*\<^sup>* ?w w' \<and> net_ok w'" by blast
qed

end
