(* ===== verification/TcpOpen.thy ===== *)
theory TcpOpen
  imports TcpStates Services
begin

text \<open>
  How a connection opens (\<open>syn\<close> and \<open>connected\<close> of src/src/net/tcp.c): the SYN/ACK that answers a
  SYN to a listening port, and the stream it leaves behind.
\<close>

unbundle bit_operations_syntax

subsection \<open>The second allocation\<close>

lemma kmem_alloc_sbuffs:
  fixes w :: "'a nworld_scheme"
  assumes "kmem_alloc w n = Inr (p, w1)"
  shows "kmem_alloc (w\<lparr>sbuffs := x\<rparr>) n = Inr (p, w1\<lparr>sbuffs := x\<rparr>)"
proof -
  have "same_heap w (w\<lparr>sbuffs := x\<rparr>)" by (simp add: same_heap_def)
  moreover obtain m q c where "w1 = w\<lparr>kmem := m, heap_sequence := q, heap_currentObjects := c\<rparr>"
    using kmem_alloc_frame [OF assms] by blast
  ultimately show ?thesis using kmem_alloc_on [OF assms, of "w\<lparr>sbuffs := x\<rparr>"] by simp
qed

subsection \<open>The stream\<close>

text \<open>The stream a SYN with sequence number \<open>seq\<close> opens, once its SYN/ACK is built.\<close>

definition opened :: "u64 \<Rightarrow> u32 \<Rightarrow> u16 \<Rightarrow> u16 \<Rightarrow> u32 \<Rightarrow> u32 \<Rightarrow> u64 \<Rightarrow> u64 \<Rightarrow> stream \<Rightarrow> bool" where
  "opened dev ip lp rp raddr seq fn nx st \<longleftrightarrow>
     (\<exists>pending buf. length buf = 2048 \<and> st = (new_stream dev ip lp rp raddr seq fn nx pending buf)\<lparr>localSeq := 2\<rparr>)"

lemma opened_fields:
  assumes "opened dev ip lp rp raddr seq fn nx st"
  shows "tstate st = SynReceived" "localSeq st = 2" "ackSeq st = seq + 1" "needsAck st = 0" "stream_ok st"
    "readFn st = fn" "snext st = nx" "readOffset st = 0" "stream_matches ip raddr lp rp st"
  using assms by (auto simp: opened_def new_stream_def stream_ok_def stream_matches_def layout)

lemma connected_sends:
  fixes w :: "'a nworld_scheme"
  assumes dev: "dev \<noteq> 0" "devices w dev = Some d" "length (dev_mac d) = 6"
    and arp: "arp_rep (arp_tab w) es" "map_of es raddr = Some m" "length m = 6"
    and sb: "kmem_alloc w 78 = Inr (p, w1)" "p \<noteq> 0"
    and st: "kmem_alloc w1 2120 = Inr (s, w2)" "s \<noteq> 0"
  obtains s' st' ck ick pad where "connected env dev lp rp raddr seq fn w = send_call env (dev_send d) dev p
      (w2\<lparr>all_streams := s, streams := (streams w)(s \<mapsto> st'), sbuffs := (sbuffs w)(p \<mapsto> s')\<rparr>)"
    "opened dev (dev_ip d) lp rp raddr seq fn (all_streams w) st'"
    "contents s' = m @ dev_mac d @ [8, 0] @ ipv4_header 40 6 ick (dev_ip d) raddr @
       tcp_header (st'\<lparr>localSeq := 1\<rparr>) (Syn OR Ack) ck @ pad"
    "length ck = 2" "length ick = 2" "length pad = 2"
    "csum_verify (pseudo_header (dev_ip d) raddr 20 @ tcp_header (st'\<lparr>localSeq := 1\<rparr>) (Syn OR Ack) ck @ pad) 32 = Inr 0xffff"
    "csum_verify (ipv4_header 40 6 ick (dev_ip d) raddr) 20 = Inr 0xffff"
proof -
  have w1: "sbuffs w1 = sbuffs w" "streams w1 = streams w" "all_streams w1 = all_streams w"
      "devices w1 = devices w" "arp_tab w1 = arp_tab w"
    using kmem_alloc_frame [OF sb(1)] by auto
  have w2: "sbuffs w2 = sbuffs w" "streams w2 = streams w" "all_streams w2 = all_streams w"
      "devices w2 = devices w" "arp_tab w2 = arp_tab w"
    using kmem_alloc_frame [OF st(1)] w1 by auto
  have "kmem_alloc w (ucast (20 + 34 :: u16) + 24) = Inr (p, w1)" using sb(1) by simp
  then obtain s0 where s0: "ip_sbuff_alloc 20 w = Inr (p, w1\<lparr>sbuffs := (sbuffs w)(p \<mapsto> s0)\<rparr>)"
    "sbuff_ok s0" "shead s0 = 34" "currSize s0 = 20"
    using sb(2) by (rule ip_sbuff_alloc_eq) simp
  note al2 = kmem_alloc_sbuffs [OF st(1), of "(sbuffs w)(p \<mapsto> s0)"]
  define t where "t = new_stream dev (dev_ip d) lp rp raddr seq fn (all_streams w)
      (load32 (kmem w2) (s + 32)) (read_mem (kmem w2) (s + 72) 2048)"
  have tn: "t\<lparr>needsAck := 0\<rparr> = t" "localSeq t = 1" by (simp_all add: t_def new_stream_def)
  have c20: "18 \<le> unat (currSize s0)" using s0(4) by simp
  obtain s1 where s1: "edit_head (\<lambda>h. put_fields h (tcp_fields t (Syn OR Ack))) s0 = Inr s1" "sbuff_ok s1"
    "contents s1 = tcp_header t (Syn OR Ack) [0, 0] @ drop 18 (contents s0)" "shead s1 = shead s0" "currSize s1 = currSize s0"
    by (rule tcp_header_contents [OF s0(2) c20])
  let ?w = "w2\<lparr>all_streams := s, sbuffs := (sbuffs w)(p \<mapsto> s1), streams := (streams w)(s \<mapsto> t\<lparr>localSeq := 2\<rparr>)\<rparr>"
  obtain s2 ck ick where s2: "bind_res (tcp_checksum p 20 (dev_ip d) raddr ?w) (ip_send env p IPPROTO_TCP raddr dev) =
      bind_res (send_call env (dev_send d) dev p (?w\<lparr>sbuffs := (sbuffs ?w)(p \<mapsto> s2)\<rparr>)) (\<lambda>w. Inr (EOK, w))"
    "contents s2 = m @ dev_mac d @ [8, 0] @ ipv4_header (20 + 20) 6 ick (dev_ip d) raddr @
       take 16 (contents s1) @ ck @ drop 18 (contents s1)" "length ck = 2" "length ick = 2"
    "csum_verify (pseudo_header (dev_ip d) raddr 20 @ take 16 (contents s1) @ ck @ drop 18 (contents s1)) (12 + unat (20 :: u16)) = Inr 0xffff"
    "csum_verify (ipv4_header (20 + 20) 6 ick (dev_ip d) raddr) 20 = Inr 0xffff"
    by (rule segment_sent [where w = ?w and sb = p and s = s1 and len = 20 and dev = dev and d = d and es = es
        and dest = raddr and m = m and env = env]) (use sb(2) s0(3,4) s1(2,4,5) dev arp w2 in simp_all)
  have "connected env dev lp rp raddr seq fn w =
      bind_res (bind_res (tcp_checksum p 20 (dev_ip d) raddr ?w) (ip_send env p IPPROTO_TCP raddr dev)) (\<lambda>(r, w). Inr w)"
    using dev s0(1) al2 s1(1) sb(2) st(2) tn
    by (simp add: connected_def deref_def layout header_from_stream_def sbuff_fields_def sbuff_update_eq stream_update_eq
        w1 w2 bind_res_assoc t_def [symmetric])
  also have "\<dots> = send_call env (dev_send d) dev p (?w\<lparr>sbuffs := (sbuffs w)(p \<mapsto> s2)\<rparr>)"
    unfolding s2(1) by (simp add: bind_res_assoc)
  finally have r: "connected env dev lp rp raddr seq fn w = send_call env (dev_send d) dev p
      (w2\<lparr>all_streams := s, streams := (streams w)(s \<mapsto> t\<lparr>localSeq := 2\<rparr>), sbuffs := (sbuffs w)(p \<mapsto> s2)\<rparr>)" by simp
  have op: "opened dev (dev_ip d) lp rp raddr seq fn (all_streams w) (t\<lparr>localSeq := 2\<rparr>)"
    unfolding opened_def t_def by (intro exI conjI) (rule length_read_mem, rule refl)
  have pad: "length (drop 18 (contents s0)) = 2" using length_contents [OF s0(2)] s0(4) by simp
  have tt: "t\<lparr>localSeq := 2\<rparr>\<lparr>localSeq := 1\<rparr> = t" using tn(2) by simp
  show ?thesis
    by (rule that [of s2 "t\<lparr>localSeq := 2\<rparr>", OF r op _ s2(3,4) pad])
      (use s2(2,5,6) in \<open>unfold s1(3) tcp_header_ck tt, simp_all\<close>)
qed

subsection \<open>From the SYN to the SYN/ACK\<close>

lemma find_distinct:
  "distinct (map snd xs) \<Longrightarrow> (l, port) \<in> set xs \<Longrightarrow> find (\<lambda>x. snd x = port) xs = Some (l, port)"
  by (induction xs) force+

lemma listening_found:
  assumes "listening w xs" "(l, port) \<in> set xs"
  shows "find_listener walk_fuel (listeners w) port (all_listeners w) = Inr l" "l \<noteq> 0"
proof -
  have ls: "lseg (listeners w) (all_listeners w) xs" "length xs < walk_fuel"
    using assms(1) lseg_length by (auto simp: listening_def)
  show "l \<noteq> 0" using lseg_nonnull [OF ls(1)] assms(2) by force
  show "find_listener walk_fuel (listeners w) port (all_listeners w) = Inr l"
    using find_listener_lseg [OF ls, of port] find_distinct [of xs l port] assms by (simp add: listening_def)
qed

lemma tcp_find_head:
  assumes "dev \<noteq> 0" "devices w dev = Some d" "get16 hdr 2 = Inr (ntos dport)" "get16 hdr 0 = Inr (ntos sport)"
    and "all_streams w = s" "s \<noteq> 0" "streams w s = Some st" "stream_matches (dev_ip d) src dport sport st"
  shows "tcp_find dev src hdr w = Inr s"
  using assms walk_fuel_pos
  by (simp add: tcp_find_def deref_def ntos.swap_swap find_stream.simps [of walk_fuel])

text \<open>A driver that touches neither the streams nor the devices.\<close>

definition driver_keeps :: "'a nworld_scheme net_env \<Rightarrow> bool" where
  "driver_keeps env \<longleftrightarrow> (\<forall>fn dv sb w w'. send_call env fn dv sb w = Inr w' \<longrightarrow>
     streams w' = streams w \<and> all_streams w' = all_streams w \<and> devices w' = devices w)"

lemma syn_sends:
  fixes w :: "'a nworld_scheme"
  assumes dev: "dev \<noteq> 0" "devices w dev = Some d" "length (dev_mac d) = 6" and env: "driver_keeps env"
    and arp: "arp_rep (arp_tab w) es" "map_of es srcIp = Some m" "length m = 6"
    and listener: "listening w xs" "(l, dport) \<in> set xs" "listeners w l = Some x"
    and accept: "accept_call env (laccept x) w = Inr (fn, w)"
    and hdr: "get8 hdr 13 = Inr Syn" "get16 hdr 2 = Inr (ntos dport)" "get16 hdr 0 = Inr (ntos sport)"
      "get32 hdr 4 = Inr (ntol seq)" "tcp_offset hdr = Inr off" "sz = of_nat (4 * off)"
    and sb: "kmem_alloc w 78 = Inr (p, w1)" "p \<noteq> 0" and st: "kmem_alloc w1 2120 = Inr (s, w2)" "s \<noteq> 0"
  obtains s' st' ck ick pad where "tcp_segment env dev hdr sz srcIp w = send_call env (dev_send d) dev p
      (w2\<lparr>all_streams := s, streams := (streams w)(s \<mapsto> st'), sbuffs := (sbuffs w)(p \<mapsto> s')\<rparr>)"
    "opened dev (dev_ip d) dport sport srcIp seq fn (all_streams w) st'"
    "contents s' = m @ dev_mac d @ [8, 0] @ ipv4_header 40 6 ick (dev_ip d) srcIp @
      tcp_header (st'\<lparr>localSeq := 1\<rparr>) (Syn OR Ack) ck @ pad"
    "length ck = 2" "length ick = 2" "length pad = 2"
    "csum_verify (pseudo_header (dev_ip d) srcIp 20 @ tcp_header (st'\<lparr>localSeq := 1\<rparr>) (Syn OR Ack) ck @ pad) 32 = Inr 0xffff"
    "csum_verify (ipv4_header 40 6 ick (dev_ip d) srcIp) 20 = Inr 0xffff"
proof -
  obtain s' st' ck ick pad where c: "connected env dev dport sport srcIp seq fn w = send_call env (dev_send d) dev p
      (w2\<lparr>all_streams := s, streams := (streams w)(s \<mapsto> st'), sbuffs := (sbuffs w)(p \<mapsto> s')\<rparr>)"
    "opened dev (dev_ip d) dport sport srcIp seq fn (all_streams w) st'"
    "contents s' = m @ dev_mac d @ [8, 0] @ ipv4_header 40 6 ick (dev_ip d) srcIp @
       tcp_header (st'\<lparr>localSeq := 1\<rparr>) (Syn OR Ack) ck @ pad"
    "length ck = 2" "length ick = 2" "length pad = 2"
    "csum_verify (pseudo_header (dev_ip d) srcIp 20 @ tcp_header (st'\<lparr>localSeq := 1\<rparr>) (Syn OR Ack) ck @ pad) 32 = Inr 0xffff"
    "csum_verify (ipv4_header 40 6 ick (dev_ip d) srcIp) 20 = Inr 0xffff"
    by (rule connected_sends [OF dev arp sb st, where lp = dport and rp = sport and seq = seq and fn = fn and env = env])
  let ?W = "w2\<lparr>all_streams := s, streams := (streams w)(s \<mapsto> st'), sbuffs := (sbuffs w)(p \<mapsto> s')\<rparr>"
  have W: "devices ?W = devices w" using kmem_alloc_frame [OF sb(1)] kmem_alloc_frame [OF st(1)] by auto
  have syn: "syn env dev hdr srcIp w = send_call env (dev_send d) dev p ?W"
    using listening_found [OF listener(1,2)] listener(3) accept hdr c(1)
    by (simp add: syn_def ntos.swap_swap ntol.swap_swap deref_def)
  have after: "tcp_find dev srcIp hdr w' = Inr s" if "send_call env (dev_send d) dev p ?W = Inr w'" for w'
  proof -
    have keeps: "streams w' = streams ?W" "all_streams w' = all_streams ?W" "devices w' = devices ?W"
      using env that unfolding driver_keeps_def by blast+
    show ?thesis
      by (rule tcp_find_head [OF dev(1) _ hdr(2,3) _ st(2), where d = d and st = st'])
        (simp_all only: keeps W dev(2), simp_all add: opened_fields [OF c(2)])
  qed
  have flags: "Syn AND Syn \<noteq> 0" "Syn AND Ack = 0" "Syn AND Psh = 0" "Syn AND Fin = 0" by (simp_all add: layout)
  have seg: "tcp_segment env dev hdr sz srcIp w = send_call env (dev_send d) dev p ?W"
    using after hdr st(2) flags by (cases "send_call env (dev_send d) dev p ?W")
      (simp_all add: tcp_segment_def syn buffer_data_def)
  show ?thesis by (rule that [OF seg c(2-8)])
qed

lemma opened_header:
  assumes "opened dev ip lp rp raddr seq fn nx st"
  shows "tcp_header (st\<lparr>localSeq := 1\<rparr>) (Syn OR Ack) ck =
      rev (b16 lp) @ rev (b16 rp) @ [0, 0, 0, 1] @ rev (b32 (seq + 1)) @ [0x50, 0x12, 8, 0] @ ck"
proof -
  have "rev (b32 1) = [0, 0, 0, 1]" "rev (b16 2048) = [8, 0]" by (simp_all add: split_le_def byte_at_def upt_rec)
  moreover obtain pending buf where "st = (new_stream dev ip lp rp raddr seq fn nx pending buf)\<lparr>localSeq := 2\<rparr>"
    using assms by (auto simp: opened_def)
  ultimately show ?thesis by (simp add: tcp_header_def new_stream_def layout)
qed

text \<open>A world that listens on port 80, knows its peer and has room for a segment and a stream.\<close>

lemma demo_listening:
  obtains w w1 w2 :: nworld where "kmem_alloc w 78 = Inr (32816, w1)" "kmem_alloc w1 2120 = Inr (32944, w2)"
    "devices w 8 = Some demo_device" "arp_rep (arp_tab w) [(0x0a000007, replicate 6 0)]"
    "listening w [(64, 80)]" "listeners w 64 = Some \<lparr>lport = 80, laccept = 5, lnext = 0\<rparr>"
proof -
  let ?x = "demo_more Map.empty [8 \<mapsto> demo_device] demo_table"
  obtain h h1 h2 :: nworld where h: "kmem_alloc h 78 = Inr (32816, h1)" "kmem_alloc h1 2120 = Inr (32944, h2)" "kheap.more h = ?x"
    using boot_alloc_large [of 78 2120 ?x] by auto
  let ?w = "h\<lparr>listeners := [64 \<mapsto> \<lparr>lport = 80, laccept = 5, lnext = 0\<rparr>], all_listeners := 64\<rparr>"
  have "same_heap h ?w" by (simp add: same_heap_def)
  then obtain w1 where w1: "kmem_alloc ?w 78 = Inr (32816, w1)" "same_heap h1 w1" using kmem_alloc_same [OF h(1)] by blast
  then obtain w2 where w2: "kmem_alloc w1 2120 = Inr (32944, w2)" using kmem_alloc_same [OF h(2)] by blast
  have "devices h 8 = Some demo_device" "arp_rep (arp_tab h) [(0x0a000007, replicate 6 0)]"
    using demo_more_sel [OF h(3)] demo_table_rep by simp_all
  then show ?thesis by (intro that [OF w1(1) w2]) (simp_all add: listening_def)
qed

text \<open>
  C7. A SYN to a listening port is answered by a SYN/ACK: the application is asked for its
  reader, a stream in state SYN-RECEIVED that expects the next sequence number is put in front
  of the list with an empty read buffer of 2048 bytes, and the driver gets one frame, addressed
  to the peer, whose TCP header carries both ports, sequence number 1, the peer's number plus
  one and a window of 2048; both checksums verify, and no reset follows.
\<close>

theorem tcp_syn_opens:
  fixes w :: "'a nworld_scheme"
  assumes dev: "dev \<noteq> 0" "devices w dev = Some d" "length (dev_mac d) = 6" and env: "driver_keeps env"
    and arp: "arp_rep (arp_tab w) es" "map_of es srcIp = Some m" "length m = 6"
    and listener: "listening w xs" "(l, dport) \<in> set xs" "listeners w l = Some x"
    and accept: "accept_call env (laccept x) w = Inr (fn, w)"
    and hdr: "get8 hdr 13 = Inr Syn" "get16 hdr 2 = Inr (ntos dport)" "get16 hdr 0 = Inr (ntos sport)"
      "get32 hdr 4 = Inr (ntol seq)" "tcp_offset hdr = Inr off" "sz = of_nat (4 * off)"
    and sb: "kmem_alloc w 78 = Inr (p, w1)" "p \<noteq> 0" and st: "kmem_alloc w1 2120 = Inr (s, w2)" "s \<noteq> 0"
  shows "\<exists>s' st' ck ick pad. tcp_segment env dev hdr sz srcIp w = send_call env (dev_send d) dev p
      (w2\<lparr>all_streams := s, streams := (streams w)(s \<mapsto> st'), sbuffs := (sbuffs w)(p \<mapsto> s')\<rparr>) \<and>
    opened dev (dev_ip d) dport sport srcIp seq fn (all_streams w) st' \<and>
    contents s' = m @ dev_mac d @ [8, 0] @ ipv4_header 40 6 ick (dev_ip d) srcIp @
      rev (b16 dport) @ rev (b16 sport) @ [0, 0, 0, 1] @ rev (b32 (seq + 1)) @ [0x50, 0x12, 8, 0] @ ck @ pad \<and>
    length ck = 2 \<and> length ick = 2 \<and> length pad = 2 \<and>
    csum_verify (ipv4_header 40 6 ick (dev_ip d) srcIp) 20 = Inr 0xffff \<and>
    csum_verify (pseudo_header (dev_ip d) srcIp 20 @ drop 34 (contents s')) 32 = Inr 0xffff"
proof -
  obtain s' st' ck ick pad where c: "tcp_segment env dev hdr sz srcIp w = send_call env (dev_send d) dev p
      (w2\<lparr>all_streams := s, streams := (streams w)(s \<mapsto> st'), sbuffs := (sbuffs w)(p \<mapsto> s')\<rparr>)"
    "opened dev (dev_ip d) dport sport srcIp seq fn (all_streams w) st'"
    "contents s' = m @ dev_mac d @ [8, 0] @ ipv4_header 40 6 ick (dev_ip d) srcIp @
      tcp_header (st'\<lparr>localSeq := 1\<rparr>) (Syn OR Ack) ck @ pad"
    "length ck = 2" "length ick = 2" "length pad = 2"
    "csum_verify (pseudo_header (dev_ip d) srcIp 20 @ tcp_header (st'\<lparr>localSeq := 1\<rparr>) (Syn OR Ack) ck @ pad) 32 = Inr 0xffff"
    "csum_verify (ipv4_header 40 6 ick (dev_ip d) srcIp) 20 = Inr 0xffff"
    by (rule syn_sends [OF assms])
  have dr: "drop 34 (contents s') = tcp_header (st'\<lparr>localSeq := 1\<rparr>) (Syn OR Ack) ck @ pad"
    unfolding c(3) using arp(3) dev(3) c(5) by (simp add: ipv4_header_def)
  show ?thesis using c(1,2,4-8) c(3) [unfolded opened_header [OF c(2)]] dr by (intro exI [of _ s'] exI [of _ st'] exI [of _ ck] exI [of _ ick] exI [of _ pad] conjI)
      (simp_all only: append.simps append_assoc)
qed

theorem tcp_syn_opens_witness:
  "\<exists>(w :: nworld) w' st'. tcp_segment demo_env 8 (demo_segment Syn []) 20 0x0a000007 w = Inr w' \<and>
     streams w' 32944 = Some st' \<and> tstate st' = SynReceived \<and> ackSeq st' = 8"
proof -
  obtain w w1 w2 :: nworld where w: "kmem_alloc w 78 = Inr (32816, w1)" "kmem_alloc w1 2120 = Inr (32944, w2)"
    "devices w 8 = Some demo_device" "arp_rep (arp_tab w) [(0x0a000007, replicate 6 0)]"
    "listening w [(64, 80)]" "listeners w 64 = Some \<lparr>lport = 80, laccept = 5, lnext = 0\<rparr>"
    by (rule demo_listening)
  have "\<exists>s' st' ck ick pad. tcp_segment demo_env 8 (demo_segment Syn []) 20 0x0a000007 w =
      send_call demo_env (dev_send demo_device) 8 32816
      (w2\<lparr>all_streams := 32944, streams := (streams w)(32944 \<mapsto> st'), sbuffs := (sbuffs w)(32816 \<mapsto> s')\<rparr>) \<and>
    opened 8 (dev_ip demo_device) 80 5000 0x0a000007 7 5 (all_streams w) st' \<and>
    contents s' = replicate 6 0 @ dev_mac demo_device @ [8, 0] @ ipv4_header 40 6 ick (dev_ip demo_device) 0x0a000007 @
      rev (b16 80) @ rev (b16 5000) @ [0, 0, 0, 1] @ rev (b32 (7 + 1)) @ [0x50, 0x12, 8, 0] @ ck @ pad \<and>
    length ck = 2 \<and> length ick = 2 \<and> length pad = 2 \<and>
    csum_verify (ipv4_header 40 6 ick (dev_ip demo_device) 0x0a000007) 20 = Inr 0xffff \<and>
    csum_verify (pseudo_header (dev_ip demo_device) 0x0a000007 20 @ drop 34 (contents s')) 32 = Inr 0xffff"
    by (rule tcp_syn_opens [OF _ w(3) _ _ w(4) _ _ w(5) _ w(6) _ demo_segment_fields(5,4,3,1,2) _ w(1) _ w(2)])
      (simp_all add: demo_device_def driver_keeps_def demo_env_def)
  then obtain s' st' where r: "tcp_segment demo_env 8 (demo_segment Syn []) 20 0x0a000007 w =
      Inr (w2\<lparr>all_streams := 32944, streams := (streams w)(32944 \<mapsto> st'), sbuffs := (sbuffs w)(32816 \<mapsto> s')\<rparr>)"
    "opened 8 (dev_ip demo_device) 80 5000 0x0a000007 7 5 (all_streams w) st'"
    by (auto simp: demo_env_def)
  show ?thesis by (intro exI conjI, rule r(1)) (use opened_fields [OF r(2)] in simp_all)
qed

lemma ack_establishes:
  fixes w :: "'a nworld_scheme"
  assumes dev: "dev \<noteq> 0" "devices w dev = Some d"
    and hdr: "get8 hdr 13 = Inr Ack" "get16 hdr 2 = Inr (ntos dport)" "get16 hdr 0 = Inr (ntos sport)"
      "get32 hdr 8 = Inr a" "tcp_offset hdr = Inr off" "sz = of_nat (4 * off)"
    and st: "all_streams w = s" "s \<noteq> 0" "streams w s = Some st" "stream_matches (dev_ip d) src dport sport st"
      "tstate st = SynReceived"
  shows "tcp_segment env dev hdr sz src w = Inr (w\<lparr>streams := (streams w)(s \<mapsto>
      (if pendingAck st \<le> a then st\<lparr>pendingAck := a\<rparr> else st)\<lparr>tstate := Established\<rparr>)\<rparr>)"
proof -
  have f: "tcp_find dev src hdr w = Inr s" by (rule tcp_find_head [OF dev hdr(2,3) st(1-4)])
  have flags: "Ack AND Syn = 0" "Ack AND Ack \<noteq> 0" "Ack AND Psh = 0" "Ack AND Fin = 0" by (simp_all add: layout)
  have "ack_state SynReceived = Established" by (simp add: ack_state_def)
  then show ?thesis
    using f hdr st flags by (simp add: tcp_segment_def acked_def stream_update_eq deref_def buffer_data_def)
qed

text \<open>
  C6. A handshake opens a connection: with a driver that accepts every frame, the SYN and then
  the peer's ACK leave exactly one more stream, first in the list, which is established, expects
  the byte after the SYN, sends from sequence number 2 on, calls the reader the application gave
  and has an empty read buffer.
\<close>

theorem tcp_handshake:
  fixes w :: "'a nworld_scheme"
  assumes dev: "dev \<noteq> 0" "devices w dev = Some d" "length (dev_mac d) = 6"
    and env: "driver_keeps env" "\<And>w. \<exists>w'. send_call env (dev_send d) dev p w = Inr w'"
    and arp: "arp_rep (arp_tab w) es" "map_of es srcIp = Some m" "length m = 6"
    and listener: "listening w xs" "(l, dport) \<in> set xs" "listeners w l = Some x"
    and accept: "accept_call env (laccept x) w = Inr (fn, w)"
    and hdr: "get8 hdr 13 = Inr Syn" "get16 hdr 2 = Inr (ntos dport)" "get16 hdr 0 = Inr (ntos sport)"
      "get32 hdr 4 = Inr (ntol seq)" "tcp_offset hdr = Inr off" "sz = of_nat (4 * off)"
    and sb: "kmem_alloc w 78 = Inr (p, w1)" "p \<noteq> 0" and st: "kmem_alloc w1 2120 = Inr (s, w2)" "s \<noteq> 0"
    and ack: "get8 ahdr 13 = Inr Ack" "get16 ahdr 2 = Inr (ntos dport)" "get16 ahdr 0 = Inr (ntos sport)"
      "get32 ahdr 8 = Inr a" "tcp_offset ahdr = Inr aoff" "asz = of_nat (4 * aoff)"
  shows "\<exists>w' w'' st. tcp_segment env dev hdr sz srcIp w = Inr w' \<and> tcp_segment env dev ahdr asz srcIp w' = Inr w'' \<and>
    all_streams w'' = s \<and> streams w'' = (streams w)(s \<mapsto> st) \<and> snext st = all_streams w \<and> tstate st = Established \<and>
    ackSeq st = seq + 1 \<and> localSeq st = 2 \<and> readFn st = fn \<and> readOffset st = 0 \<and> stream_ok st"
proof -
  obtain s' st' where c: "tcp_segment env dev hdr sz srcIp w = send_call env (dev_send d) dev p
      (w2\<lparr>all_streams := s, streams := (streams w)(s \<mapsto> st'), sbuffs := (sbuffs w)(p \<mapsto> s')\<rparr>)"
    "opened dev (dev_ip d) dport sport srcIp seq fn (all_streams w) st'"
    by (rule syn_sends [OF dev env(1) arp listener accept hdr sb st])
  let ?W = "w2\<lparr>all_streams := s, streams := (streams w)(s \<mapsto> st'), sbuffs := (sbuffs w)(p \<mapsto> s')\<rparr>"
  obtain w' where w': "send_call env (dev_send d) dev p ?W = Inr w'" using env(2) by blast
  have W: "devices ?W = devices w" using kmem_alloc_frame [OF sb(1)] kmem_alloc_frame [OF st(1)] by auto
  have keeps: "streams w' = streams ?W" "all_streams w' = all_streams ?W" "devices w' = devices ?W"
    using env(1) w' unfolding driver_keeps_def by blast+
  then have k: "streams w' = (streams w)(s \<mapsto> st')" "all_streams w' = s" "devices w' dev = Some d" using W dev(2) by simp_all
  let ?st = "(if pendingAck st' \<le> a then st'\<lparr>pendingAck := a\<rparr> else st')\<lparr>tstate := Established\<rparr>"
  have "tcp_segment env dev ahdr asz srcIp w' = Inr (w'\<lparr>streams := (streams w')(s \<mapsto> ?st)\<rparr>)"
    by (rule ack_establishes [OF dev(1) k(3) ack k(2) st(2)]) (simp_all add: k(1) opened_fields [OF c(2)])
  then have a2: "tcp_segment env dev ahdr asz srcIp w' = Inr (w'\<lparr>streams := (streams w)(s \<mapsto> ?st)\<rparr>)" using k(1) by simp
  have "snext ?st = all_streams w" "tstate ?st = Established" "ackSeq ?st = seq + 1" "localSeq ?st = 2"
      "readFn ?st = fn" "readOffset ?st = 0" "stream_ok ?st"
    using opened_fields [OF c(2)] by (simp_all add: stream_ok_def)
  moreover have "all_streams (w'\<lparr>streams := (streams w)(s \<mapsto> ?st)\<rparr>) = s" using k(2) by simp
  moreover have "streams (w'\<lparr>streams := (streams w)(s \<mapsto> ?st)\<rparr>) = (streams w)(s \<mapsto> ?st)" by simp
  ultimately show ?thesis using trans [OF c(1) w'] a2 by blast
qed

theorem tcp_handshake_witness:
  "\<exists>(w :: nworld) w' w'' st. tcp_segment demo_env 8 (demo_segment Syn []) 20 0x0a000007 w = Inr w' \<and>
     tcp_segment demo_env 8 (demo_segment Ack []) 20 0x0a000007 w' = Inr w'' \<and>
     streams w'' 32944 = Some st \<and> tstate st = Established \<and> readFn st = 5"
proof -
  obtain w w1 w2 :: nworld where w: "kmem_alloc w 78 = Inr (32816, w1)" "kmem_alloc w1 2120 = Inr (32944, w2)"
    "devices w 8 = Some demo_device" "arp_rep (arp_tab w) [(0x0a000007, replicate 6 0)]"
    "listening w [(64, 80)]" "listeners w 64 = Some \<lparr>lport = 80, laccept = 5, lnext = 0\<rparr>"
    by (rule demo_listening)
  have m: "map_of [(0x0a000007 :: u32, replicate 6 (0 :: u8))] 0x0a000007 = Some (replicate 6 0)" by simp
  have "\<exists>w' w'' st. tcp_segment demo_env 8 (demo_segment Syn []) 20 0x0a000007 w = Inr w' \<and>
    tcp_segment demo_env 8 (demo_segment Ack []) 20 0x0a000007 w' = Inr w'' \<and>
    all_streams w'' = 32944 \<and> streams w'' = (streams w)(32944 \<mapsto> st) \<and> snext st = all_streams w \<and> tstate st = Established \<and>
    ackSeq st = 7 + 1 \<and> localSeq st = 2 \<and> readFn st = 5 \<and> readOffset st = 0 \<and> stream_ok st"
    by (rule tcp_handshake [OF _ w(3) _ _ _ w(4) m _ w(5) _ w(6) _ demo_segment_fields(5,4,3,1,2) _ w(1) _ w(2) _
        demo_segment_fields(5,4,3,7,2)])
      (simp_all add: demo_device_def driver_keeps_def demo_env_def)
  then obtain w' w'' st where "tcp_segment demo_env 8 (demo_segment Syn []) 20 0x0a000007 w = Inr w'"
    "tcp_segment demo_env 8 (demo_segment Ack []) 20 0x0a000007 w' = Inr w''"
    "streams w'' 32944 = Some st" "tstate st = Established" "readFn st = 5" by auto
  then show ?thesis by blast
qed

subsection \<open>Opening a port\<close>

text \<open>
  C39. At most one listener per port: \<open>tcp_listen\<close> refuses a port in use with \<open>EADDRINUSE\<close> and
  leaves the world as it was; otherwise it puts a new listener in front of the chain, which a
  later SYN to that port finds and which carries the application's accept function.
\<close>

theorem tcp_listen_once:
  fixes w :: "'a nworld_scheme"
  assumes xs: "listening w xs" and alloc: "kmem_alloc w 24 = Inr (l, w1)" "l \<noteq> 0" "l \<notin> fst ` set xs"
  shows "if port \<in> snd ` set xs then tcp_listen port accept w = Inr (EADDRINUSE, w)
    else \<exists>w' x. tcp_listen port accept w = Inr (EOK, w') \<and> listening w' ((l, port) # xs) \<and>
      find_listener walk_fuel (listeners w') port (all_listeners w') = Inr l \<and>
      listeners w' l = Some x \<and> laccept x = accept"
proof (cases "port \<in> snd ` set xs")
  case True
  then show ?thesis using tcp_listen_in_use [OF xs True] by simp
next
  case False
  then obtain w' where w': "tcp_listen port accept w = Inr (EOK, w')" "listening w' ((l, port) # xs)"
    using tcp_listen_new [OF xs False alloc] by blast
  have "find_listener walk_fuel (listeners w') port (all_listeners w') = Inr l"
    by (rule listening_found(1) [OF w'(2)]) simp
  moreover have "\<exists>x. listeners w' l = Some x \<and> laccept x = accept"
    using w'(1) alloc(1) by (auto simp: tcp_listen_def layout res_simps split: if_splits)
  ultimately show ?thesis using w' False by auto
qed

theorem tcp_listen_once_witness:
  "\<exists>(w :: nworld) w'. listening w [(64, 80)] \<and> tcp_listen 80 9 w = Inr (EADDRINUSE, w) \<and>
     tcp_listen 7 9 w = Inr (EOK, w') \<and> listening w' [(32816, 7), (64, 80)]"
proof -
  let ?x = "demo_more Map.empty Map.empty empty_arp"
  obtain h h1 :: nworld where h: "kmem_alloc h 24 = Inr (32816, h1)" using boot_alloc [of 24 ?x] by auto
  let ?w = "h\<lparr>listeners := [64 \<mapsto> \<lparr>lport = 80, laccept = 5, lnext = 0\<rparr>], all_listeners := 64\<rparr>"
  have l: "listening ?w [(64, 80)]" by (simp add: listening_def)
  have "same_heap h ?w" by (simp add: same_heap_def)
  then obtain w1 where w1: "kmem_alloc ?w 24 = Inr (32816, w1)" using kmem_alloc_same [OF h] by blast
  show ?thesis
    using tcp_listen_once [OF l w1, of 80 9] tcp_listen_once [OF l w1, of 7 9] l by auto
qed

end
