(* ===== verification/ArpFlow.thy ===== *)
theory ArpFlow
  imports Kernel TcpOpen
begin

text \<open>
  An ARP request on its way through the kernel: from the block the receive handler left on the
  task queue (src/src/ne2k.c) through ethernet.c and arp.c back to ne2k.c and the card.
\<close>

unbundle bit_operations_syntax

subsection \<open>Sending puts a task in the queue\<close>

lemma ne2k_send_queues:
  fixes w :: "('d, 'a) eworld_scheme"
  assumes empty: "thead w = 0"
    and alloc: "kmem_alloc w 24 = Inr (ps, w1)" "kmem_alloc w1 32 = Inr (t, w2)" "t \<noteq> 0"
    and sb: "sb \<noteq> 0" "sbuffs w sb = Some s"
  obtains w' where "ne2k_send fn dev sb w = Inr w'" "kmem w' = kmem w2" "heap_block w' = heap_block w2"
    "tasks w' = (tasks w)(t \<mapsto> \<lparr>task_fn = fn, user = ps, refs = 1, tnext = 0\<rparr>)" "thead w' = t" "ttail w' = t"
    "sbuffs w' = (sbuffs w)(sb \<mapsto> s\<lparr>srefs := srefs s + 1\<rparr>)" "recv_size w' = recv_size w"
    "pending_sends w' = (pending_sends w)(ps \<mapsto> \<lparr>ps_task = t, ps_data = sb, ps_dev = dev\<rparr>)"
    "devices w' = devices w" "hw w' = hw w"
proof -
  obtain m q c where w1: "w1 = w\<lparr>kmem := m, heap_sequence := q, heap_currentObjects := c\<rparr>"
    using kmem_alloc_frame [OF alloc(1)] by blast
  obtain m' q' c' where w2: "w2 = w1\<lparr>kmem := m', heap_sequence := q', heap_currentObjects := c'\<rparr>"
    using kmem_alloc_frame [OF alloc(2)] by blast
  have "\<exists>w'. ne2k_send fn dev sb w = Inr w' \<and> kmem w' = kmem w2 \<and> heap_block w' = heap_block w2 \<and>
    tasks w' = (tasks w)(t \<mapsto> \<lparr>task_fn = fn, user = ps, refs = 1, tnext = 0\<rparr>) \<and> thead w' = t \<and> ttail w' = t \<and>
    sbuffs w' = (sbuffs w)(sb \<mapsto> s\<lparr>srefs := srefs s + 1\<rparr>) \<and> recv_size w' = recv_size w \<and>
    pending_sends w' = (pending_sends w)(ps \<mapsto> \<lparr>ps_task = t, ps_data = sb, ps_dev = dev\<rparr>) \<and>
    devices w' = devices w \<and> hw w' = hw w"
    using alloc sb empty
    by (simp add: ne2k_send_def layout task_alloc_def sbuff_add_ref_def sbuff_update_eq task_enqueue_def add_ref_def
        task_update_def deref_def w1 w2)
  then show ?thesis using that by blast
qed

subsection \<open>The task of a received block\<close>

text \<open>The frame that answers a request of \<open>m\<close>, \<open>a\<close> on behalf of device \<open>d\<close>.\<close>

definition arp_answer :: "netdevice \<Rightarrow> mac \<Rightarrow> u32 \<Rightarrow> u8 list" where
  "arp_answer d m a = m @ dev_mac d @ [8, 6] @ [0, 1, 8, 0, 6, 4, 0, 2] @ dev_mac d @ rev (b32 (dev_ip d)) @ m @ rev (b32 a)"

definition arp_asks :: "u8 list \<Rightarrow> netdevice \<Rightarrow> mac \<Rightarrow> u32 \<Rightarrow> bool" where
  "arp_asks f d m a \<longleftrightarrow> get16 f 12 = Inr (ntos 0x0806) \<and> get32 (drop 14 f) 24 = Inr (ntol (dev_ip d)) \<and>
     get16 (drop 14 f) 6 = Inr (ntos 1) \<and> get_bytes (drop 14 f) 8 6 = Inr m \<and> get32 (drop 14 f) 14 = Inr (ntol a)"

lemma arp_asks_reply:
  assumes "arp_asks f d m a" "dev \<noteq> 0" "devices w dev = Some d"
  shows "ethernet_packet env dev f w = arp_reply env dev m a False w" "length m = 6"
proof -
  show "length m = 6" using assms(1) by (auto simp: arp_asks_def get_bytes_def split: if_splits)
  show "ethernet_packet env dev f w = arp_reply env dev m a False w"
    using assms by (simp add: arp_asks_def ethernet_packet_def arp_packet_def deref_def ntos.swap_swap ntol.swap_swap)
qed

lemma dispatch_queues_answer:
  fixes w :: "('d, 'a) eworld_scheme"
  assumes env: "\<And>sb w. send_call env (dev_send d) dev sb w = ne2k_send fn dev sb w"
    and dev: "dev \<noteq> 0" "devices w dev = Some d" "length (dev_mac d) = 6"
    and blk: "mm \<noteq> 0" "recv_size w mm = Some n" "load64 (kmem w) mm = dev"
    and asks: "arp_asks (read_mem (kmem w) (mm + 8) n) d m a"
    and empty: "thead w = 0" and heap: "heap_ready w" "\<forall>p\<in>{mm, sb, ps, t}. heap_owns w p"
    and alloc: "kmem_alloc w 66 = Inr (sb, w1)" "kmem_alloc w1 24 = Inr (ps, w2)" "kmem_alloc w2 32 = Inr (t, w3)"
    and nz: "sb \<noteq> 0" "t \<noteq> 0"
  obtains w' s where "dispatch env mm w = Inr w'"
    "tasks w' = (tasks w)(t \<mapsto> \<lparr>task_fn = fn, user = ps, refs = 1, tnext = 0\<rparr>)" "thead w' = t" "ttail w' = t"
    "sbuffs w' = (sbuffs w)(sb \<mapsto> s)" "srefs s = 1" "currSize s = 42" "take 42 (sdata s) = arp_answer d m a" "length (sdata s) = 49"
    "pending_sends w' ps = Some \<lparr>ps_task = t, ps_data = sb, ps_dev = dev\<rparr>" "recv_size w' = (recv_size w)(mm := None)"
    "devices w' = devices w" "hw w' = hw w" "heap_ready w'" "heap_owns w' = heap_owns w"
proof -
  have w1: "thead w1 = thead w" "tasks w1 = tasks w" "recv_size w1 = recv_size w" "pending_sends w1 = pending_sends w"
      "devices w1 = devices w" "hw w1 = hw w"
    using kmem_alloc_frame [OF alloc(1)] by auto
  note asks' = arp_asks_reply [OF asks dev(1,2)]
  obtain s0 where s0: "arp_reply env dev m a False w =
      bind_res (send_call env (dev_send d) dev sb (w1\<lparr>sbuffs := (sbuffs w)(sb \<mapsto> s0)\<rparr>)) (sbuff_release_ref sb)"
    "contents s0 = m @ dev_mac d @ [8, 6] @ arp_body 2 (dev_mac d) (dev_ip d) m a" "srefs s0 = 1" "sbuff_ok s0" "shead s0 = 0"
    by (rule arp_reply_eq [OF dev asks'(2) alloc(1) nz(1), of env a]) blast
  have answer: "contents s0 = arp_answer d m a"
    unfolding s0(2) by (simp add: arp_body_def arp_answer_def split16_rev byte_at_def)
  have "length (arp_answer d m a) = 42" using dev(3) asks'(2) by (simp add: arp_answer_def)
  then have c42: "unat (currSize s0) = 42" using length_contents [OF s0(4)] answer by simp
  then have s0': "currSize s0 = 42" "take 42 (sdata s0) = arp_answer d m a" "length (sdata s0) = 49"
    using answer s0(4,5) by (simp_all add: word_unat_eq_iff contents_def sbuff_ok_def)
  let ?w1 = "w1\<lparr>sbuffs := (sbuffs w)(sb \<mapsto> s0)\<rparr>"
  note later = kmem_alloc_sbuffs [OF alloc(2), of "(sbuffs w)(sb \<mapsto> s0)"] kmem_alloc_sbuffs [OF alloc(3), of "(sbuffs w)(sb \<mapsto> s0)"]
  obtain v where v: "ne2k_send fn dev sb ?w1 = Inr v" "kmem v = kmem w3" "heap_block v = heap_block w3"
    "tasks v = (tasks w)(t \<mapsto> \<lparr>task_fn = fn, user = ps, refs = 1, tnext = 0\<rparr>)" "thead v = t" "ttail v = t"
    "sbuffs v = (sbuffs w)(sb \<mapsto> s0\<lparr>srefs := 2\<rparr>)" "recv_size v = recv_size w"
    "pending_sends v = (pending_sends w)(ps \<mapsto> \<lparr>ps_task = t, ps_data = sb, ps_dev = dev\<rparr>)"
    "devices v = devices w" "hw v = hw w"
    by (rule ne2k_send_queues [OF _ later nz(2,1), of s0 fn dev])
      (use w1 empty s0(3) in simp_all)
  let ?v = "v\<lparr>sbuffs := (sbuffs w)(sb \<mapsto> s0)\<rparr>"
  have one: "s0\<lparr>srefs := 2, srefs := srefs (s0\<lparr>srefs := 2\<rparr>) - 1\<rparr> = s0" using s0(3) by simp
  have "sbuffs v sb = Some (s0\<lparr>srefs := 2\<rparr>)" using v(7) by simp
  then have "sbuff_update sb (\<lambda>s. Inr (s\<lparr>srefs := srefs s - 1\<rparr>)) v = Inr (v\<lparr>sbuffs := (sbuffs v)(sb \<mapsto> s0)\<rparr>)"
    by (simp only: sbuff_update_eq [OF nz(1)] one bind_res.simps)
  then have "sbuff_update sb (\<lambda>s. Inr (s\<lparr>srefs := srefs s - 1\<rparr>)) v = Inr ?v" unfolding v(7) by simp
  then have rel: "sbuff_release_ref sb v = Inr ?v"
    using nz(1) s0(3) by (simp add: sbuff_release_ref_def deref_def)
  note a1 = kmem_alloc_owned [OF heap(1) alloc(1)]
  have r1: "heap_ready w1" "heap_owns w1 = heap_owns w" using a1 heap(2) by simp_all
  have r2: "heap_ready w2" "heap_owns w2 = heap_owns w" using kmem_alloc_owned [OF r1(1) alloc(2)] r1(2) heap(2) by simp_all
  have r3: "heap_ready w3" "heap_owns w3 = heap_owns w" using kmem_alloc_owned [OF r2(1) alloc(3)] r2(2) heap(2) by simp_all
  have rv: "heap_ready ?v" "heap_owns ?v = heap_owns w"
    using heap_ready_cong [of ?v w3] r3 v(2,3) by simp_all
  then have "heap_owns ?v mm" using heap(2) by simp
  then obtain h where h: "kmem_free ?v mm = Inr h" "heap_ready h" "heap_owns h = heap_owns w"
    using kmem_free_owned [OF rv(1)] rv(2) by metis
  obtain mc c where hf: "h = ?v\<lparr>kmem := mc, heap_currentObjects := c\<rparr>" using kmem_free_frame [OF h(1)] by blast
  let ?r = "h\<lparr>recv_size := (recv_size h)(mm := None)\<rparr>"
  have "dispatch env mm w = Inr ?r"
    using blk asks'(1) s0(1) v(1) rel h(1) by (simp add: dispatch_def deref_def env layout)
  moreover have "heap_ready ?r" "heap_owns ?r = heap_owns w" using heap_ready_cong [of ?r h] h(2,3) by simp_all
  ultimately show ?thesis
    by (intro that [of ?r s0]) (use s0(3) s0' v in \<open>simp_all add: hf\<close>)
qed

subsection \<open>The task that sends\<close>

lemma card_transmit_even: "even (unat n) \<Longrightarrow> card_transmit io iomem (take (unat n) bs) n = card_transmit io iomem bs n"
  by (simp add: card_transmit_def fun_eq_iff)

lemma send_sync_last:
  fixes w :: "('d, 'a) eworld_scheme"
  assumes ps: "ps \<noteq> 0" "pending_sends w ps = Some \<lparr>ps_task = t, ps_data = sb, ps_dev = dev\<rparr>"
    and dev: "dev \<noteq> 0" "devices w dev = Some d"
    and sb: "sb \<noteq> 0" "sbuffs w sb = Some s" "srefs s = 1" "currSize s = 42" "length (sdata s) = 49"
    and heap: "heap_ready w" "heap_owns w sb"
  obtains w' where "send_sync io ps w = Inr w'"
    "hw w' = card_transmit io (dev_iomem d) (take 42 (sdata s)) 42 (hw w)" "sbuffs w' = (sbuffs w)(sb := None)"
    "tasks w' = tasks w" "thead w' = thead w" "ttail w' = ttail w" "recv_size w' = recv_size w" "devices w' = devices w"
    "heap_ready w'" "heap_owns w' = heap_owns w"
proof -
  let ?w = "w\<lparr>hw := card_transmit io (dev_iomem d) (sdata s) 42 (hw w)\<rparr>"
  have send: "send_sync io ps w = sbuff_release_ref sb ?w"
    using send_sync_transmits [OF ps(1,2), of d s io] dev sb by simp
  let ?v = "?w\<lparr>sbuffs := (sbuffs w)(sb \<mapsto> s\<lparr>srefs := 0\<rparr>)\<rparr>"
  have "heap_ready ?v" "heap_owns ?v sb" using heap_ready_cong [of ?v w] heap by simp_all
  then obtain h where h: "kmem_free ?v sb = Inr h" "heap_ready h" "heap_owns h = heap_owns ?v" using kmem_free_owned by metis
  obtain m c where hf: "h = ?v\<lparr>kmem := m, heap_currentObjects := c\<rparr>" using kmem_free_frame [OF h(1)] by blast
  let ?r = "h\<lparr>sbuffs := (sbuffs h)(sb := None)\<rparr>"
  have "sbuff_release_ref sb ?w = Inr ?r"
    using sb h(1) by (simp add: sbuff_release_ref_def sbuff_update_eq deref_def sbuff_free_def)
  moreover have "heap_ready ?r" "heap_owns ?r = heap_owns w"
    using heap_ready_cong [of ?r h] heap_ready_cong [of ?v w] h(2,3) by simp_all
  moreover have "card_transmit io (dev_iomem d) (take 42 (sdata s)) 42 = card_transmit io (dev_iomem d) (sdata s) 42"
    using card_transmit_even [of 42] by simp
  ultimately show ?thesis by (intro that [of ?r]) (simp_all add: send, simp_all add: hf)
qed

lemma release_last:
  fixes w :: "'a theap_scheme"
  assumes "t \<noteq> 0" "tasks w t = Some k" "refs k = 1" "heap_ready w" "heap_owns w t"
  obtains m c where "release_ref w t = Inr (w\<lparr>kmem := m, heap_currentObjects := c, tasks := (tasks w)(t := None)\<rparr>)"
    "heap_ready (w\<lparr>kmem := m, heap_currentObjects := c, tasks := (tasks w)(t := None)\<rparr>)"
    "heap_owns (w\<lparr>kmem := m, heap_currentObjects := c, tasks := (tasks w)(t := None)\<rparr>) = heap_owns w"
proof -
  let ?v = "w\<lparr>tasks := (tasks w)(t \<mapsto> k\<lparr>refs := 0\<rparr>)\<rparr>"
  have "heap_ready ?v" "heap_owns ?v t" using heap_ready_cong [of ?v w] assms(4,5) by simp_all
  then obtain h where h: "kmem_free ?v t = Inr h" "heap_ready h" "heap_owns h = heap_owns ?v" using kmem_free_owned by metis
  obtain m c where hf: "h = ?v\<lparr>kmem := m, heap_currentObjects := c\<rparr>" using kmem_free_frame [OF h(1)] by blast
  let ?r = "w\<lparr>kmem := m, heap_currentObjects := c, tasks := (tasks w)(t := None)\<rparr>"
  have "release_ref w t = Inr ?r"
    using assms(1-3) h(1) by (simp add: release_ref_def task_update_def deref_def hf)
  moreover have "heap_ready ?r" "heap_owns ?r = heap_owns w"
    using heap_ready_cong [of ?r h] heap_ready_cong [of ?v w] h(2,3) by (simp_all add: hf)
  ultimately show ?thesis using that by blast
qed

lemma poll_one:
  fixes w :: "'a theap_scheme"
  assumes q: "thead w = t" "t \<noteq> 0" "tasks w t = Some \<lparr>task_fn = fn, user = u, refs = 1, tnext = 0\<rparr>"
    and run: "run fn u (w\<lparr>thead := 0, irq_on := True\<rparr>) = Inr v"
    and v: "tasks v t = Some k" "refs k = 1" "heap_ready v" "heap_owns v t"
  obtains m c where "task_poll_for_work run (Suc fuel) w =
      task_poll_for_work run fuel (v\<lparr>kmem := m, heap_currentObjects := c, tasks := (tasks v)(t := None)\<rparr>)"
    "heap_ready (v\<lparr>kmem := m, heap_currentObjects := c, tasks := (tasks v)(t := None)\<rparr>)"
    "heap_owns (v\<lparr>kmem := m, heap_currentObjects := c, tasks := (tasks v)(t := None)\<rparr>) = heap_owns v"
proof -
  have "(tasks w)(t \<mapsto> \<lparr>task_fn = fn, user = u, refs = 1, tnext = 0\<rparr>) = tasks w" using q(3) by auto
  then have get: "task_get w = Inr (t, w\<lparr>thead := 0, irq_on := True\<rparr>)"
    using q by (simp add: task_get_def task_update_def deref_def disable_interrupts_def enable_interrupts_def)
  obtain m c where r: "release_ref v t = Inr (v\<lparr>kmem := m, heap_currentObjects := c, tasks := (tasks v)(t := None)\<rparr>)"
    "heap_ready (v\<lparr>kmem := m, heap_currentObjects := c, tasks := (tasks v)(t := None)\<rparr>)"
    "heap_owns (v\<lparr>kmem := m, heap_currentObjects := c, tasks := (tasks v)(t := None)\<rparr>) = heap_owns v"
    by (rule release_last [OF q(2) v])
  have "task_poll_for_work run (Suc fuel) w =
      task_poll_for_work run fuel (v\<lparr>kmem := m, heap_currentObjects := c, tasks := (tasks v)(t := None)\<rparr>)"
    using q(2,3) run by (simp add: get deref_def r(1))
  then show ?thesis using r(2,3) that by blast
qed

subsection \<open>From the block to the card\<close>

lemma kernel_tasks:
  assumes "distinct [fn_read_keys ka, fn_user_task ka, fn_send_sync ka, fn_dispatch ka]"
  shows "kernel_task mc kfuel ka call_user int3 (fn_dispatch ka) u w = dispatch (kernel_env mc kfuel ka) u w"
    and "kernel_task mc kfuel ka call_user int3 (fn_send_sync ka) u w = send_sync (mports mc) u w"
  using assms unfolding kernel_task_def by auto

lemma poll_queues_answer:
  fixes w :: "('d, 'a) sysworld_scheme"
  assumes fns: "distinct [fn_read_keys ka, fn_user_task ka, fn_send_sync ka, fn_dispatch ka]"
    and queue: "tqueue w [t0]" "tasks w t0 = Some \<lparr>task_fn = fn_dispatch ka, user = mm, refs = 1, tnext = 0\<rparr>"
    and dev: "dev \<noteq> 0" "devices w dev = Some d" "length (dev_mac d) = 6" "dev_send d = fn_ne2k_send ka"
    and blk: "mm \<noteq> 0" "recv_size w mm = Some n" "load64 (kmem w) mm = dev"
    and asks: "arp_asks (read_mem (kmem w) (mm + 8) n) d m a"
    and heap: "heap_ready w" "\<forall>p\<in>{t0, mm, sb, ps, t}. heap_owns w p"
    and alloc: "kmem_alloc w 66 = Inr (sb, w1)" "kmem_alloc w1 24 = Inr (ps, w2)" "kmem_alloc w2 32 = Inr (t, w3)"
    and nz: "sb \<noteq> 0" "ps \<noteq> 0" "t \<noteq> 0" "t \<noteq> t0"
  obtains x s where "task_poll_for_work (kernel_task mc kfuel ka call_user int3) (Suc fuel) w =
      task_poll_for_work (kernel_task mc kfuel ka call_user int3) fuel x"
    "tasks x = (tasks w)(t0 := None, t \<mapsto> \<lparr>task_fn = fn_send_sync ka, user = ps, refs = 1, tnext = 0\<rparr>)" "thead x = t"
    "sbuffs x = (sbuffs w)(sb \<mapsto> s)" "srefs s = 1" "currSize s = 42" "take 42 (sdata s) = arp_answer d m a" "length (sdata s) = 49"
    "pending_sends x ps = Some \<lparr>ps_task = t, ps_data = sb, ps_dev = dev\<rparr>" "recv_size x = (recv_size w)(mm := None)"
    "devices x = devices w" "hw x = hw w" "heap_ready x" "heap_owns x = heap_owns w"
proof -
  let ?run = "kernel_task mc kfuel ka call_user int3" and ?env = "kernel_env mc kfuel ka :: ('d, 'a) sysworld_scheme net_env"
  let ?w = "w\<lparr>thead := 0, irq_on := True\<rparr>" and ?k = "\<lparr>task_fn = fn_dispatch ka, user = mm, refs = 1, tnext = 0\<rparr>"
  have q: "thead w = t0" "t0 \<noteq> 0" using queue(1) by (auto simp: tqueue_def)
  have env: "send_call ?env (dev_send d) dev sb w = ne2k_send (fn_send_sync ka) dev sb w" for sb w
    by (simp add: kernel_env_def send_env_def dev(4))
  have ready: "heap_ready ?w" "heap_owns ?w = heap_owns w" using heap_ready_cong [of ?w w] heap(1) by simp_all
  have w: "devices ?w dev = Some d" "recv_size ?w mm = Some n" "load64 (kmem ?w) mm = dev"
    "arp_asks (read_mem (kmem ?w) (mm + 8) n) d m a" "thead ?w = 0" "\<forall>p\<in>{mm, sb, ps, t}. heap_owns ?w p"
    using dev(2) blk asks heap(2) ready(2) by simp_all
  have same: "same_heap w ?w" by (simp add: same_heap_def)
  obtain u1 where u1: "kmem_alloc ?w 66 = Inr (sb, u1)" "same_heap w1 u1" using kmem_alloc_same [OF alloc(1) same] by blast
  obtain u2 where u2: "kmem_alloc u1 24 = Inr (ps, u2)" "same_heap w2 u2" using kmem_alloc_same [OF alloc(2) u1(2)] by blast
  obtain u3 where u3: "kmem_alloc u2 32 = Inr (t, u3)" using kmem_alloc_same [OF alloc(3) u2(2)] by blast
  obtain v s where v: "dispatch ?env mm ?w = Inr v"
    "tasks v = (tasks ?w)(t \<mapsto> \<lparr>task_fn = fn_send_sync ka, user = ps, refs = 1, tnext = 0\<rparr>)" "thead v = t" "ttail v = t"
    "sbuffs v = (sbuffs ?w)(sb \<mapsto> s)" "srefs s = 1" "currSize s = 42" "take 42 (sdata s) = arp_answer d m a" "length (sdata s) = 49"
    "pending_sends v ps = Some \<lparr>ps_task = t, ps_data = sb, ps_dev = dev\<rparr>" "recv_size v = (recv_size ?w)(mm := None)"
    "devices v = devices ?w" "hw v = hw ?w" "heap_ready v" "heap_owns v = heap_owns ?w"
    by (rule dispatch_queues_answer [where w = ?w and env = ?env, OF env dev(1) w(1) dev(3) blk(1) w(2-5) ready(1) w(6) u1(1) u2(1) u3 nz(1,3)])
  have run: "?run (fn_dispatch ka) mm ?w = Inr v" unfolding kernel_tasks [OF fns] by (rule v(1))
  have vt: "tasks v t0 = Some ?k" "heap_owns v t0" "refs ?k = 1" using v(2,15) ready(2) queue(2) nz(4) heap(2) by simp_all
  obtain mc1 c1 where p: "task_poll_for_work ?run (Suc fuel) w =
      task_poll_for_work ?run fuel (v\<lparr>kmem := mc1, heap_currentObjects := c1, tasks := (tasks v)(t0 := None)\<rparr>)"
    "heap_ready (v\<lparr>kmem := mc1, heap_currentObjects := c1, tasks := (tasks v)(t0 := None)\<rparr>)"
    "heap_owns (v\<lparr>kmem := mc1, heap_currentObjects := c1, tasks := (tasks v)(t0 := None)\<rparr>) = heap_owns v"
    by (rule poll_one [where run = ?run, OF q queue(2) run vt(1,3) v(14) vt(2)])
  show ?thesis
    by (rule that [OF p(1) _ _ _ v(6-9) _ _ _ _ p(2)])
      (use p(3) v ready(2) nz(4) in \<open>simp_all add: fun_upd_twist [OF nz(4)]\<close>)
qed

text \<open>
  C4. An ARP request for this machine is answered on the wire: when the receive handler has
  queued a block that holds one, polling for work hands the frame to the stack, which queues
  the answer, and then writes exactly that answer - 42 bytes, addressed to the sender - to the
  card; afterwards the queue is empty, and the block, both tasks and the buffer are freed.
\<close>

theorem arp_request_to_card:
  fixes w :: "('d, 'a) sysworld_scheme"
  assumes fns: "distinct [fn_read_keys ka, fn_user_task ka, fn_send_sync ka, fn_dispatch ka]"
    and queue: "tqueue w [t0]" "tasks w t0 = Some \<lparr>task_fn = fn_dispatch ka, user = mm, refs = 1, tnext = 0\<rparr>"
    and dev: "dev \<noteq> 0" "devices w dev = Some d" "length (dev_mac d) = 6" "dev_send d = fn_ne2k_send ka"
    and blk: "mm \<noteq> 0" "recv_size w mm = Some n" "load64 (kmem w) mm = dev"
    and asks: "arp_asks (read_mem (kmem w) (mm + 8) n) d m a"
    and heap: "heap_ready w" "\<forall>p\<in>{t0, mm, sb, ps, t}. heap_owns w p"
    and alloc: "kmem_alloc w 66 = Inr (sb, w1)" "kmem_alloc w1 24 = Inr (ps, w2)" "kmem_alloc w2 32 = Inr (t, w3)"
    and nz: "sb \<noteq> 0" "ps \<noteq> 0" "t \<noteq> 0" "t \<noteq> t0"
  shows "\<exists>w'. task_poll_for_work (kernel_task mc kfuel ka call_user int3) 3 w = Inr w' \<and>
    hw w' = card_transmit (mports mc) (dev_iomem d) (arp_answer d m a) 42 (hw w) \<and>
    tqueue w' [] \<and> tasks w' = (tasks w)(t0 := None, t := None) \<and> sbuffs w' = (sbuffs w)(sb := None) \<and>
    recv_size w' = (recv_size w)(mm := None) \<and> heap_ready w'"
proof -
  let ?run = "kernel_task mc kfuel ka call_user int3"
  obtain x s where x: "task_poll_for_work ?run (Suc 2) w = task_poll_for_work ?run 2 x"
    "tasks x = (tasks w)(t0 := None, t \<mapsto> \<lparr>task_fn = fn_send_sync ka, user = ps, refs = 1, tnext = 0\<rparr>)" "thead x = t"
    "sbuffs x = (sbuffs w)(sb \<mapsto> s)" "srefs s = 1" "currSize s = 42" "take 42 (sdata s) = arp_answer d m a" "length (sdata s) = 49"
    "pending_sends x ps = Some \<lparr>ps_task = t, ps_data = sb, ps_dev = dev\<rparr>" "recv_size x = (recv_size w)(mm := None)"
    "devices x = devices w" "hw x = hw w" "heap_ready x" "heap_owns x = heap_owns w"
    by (rule poll_queues_answer [OF assms])
  let ?y = "x\<lparr>thead := 0, irq_on := True\<rparr>" and ?k = "\<lparr>task_fn = fn_send_sync ka, user = ps, refs = 1, tnext = 0\<rparr>"
  have ready: "heap_ready ?y" "heap_owns ?y = heap_owns w" using heap_ready_cong [of ?y x] x(13,14) by simp_all
  have y: "pending_sends ?y ps = Some \<lparr>ps_task = t, ps_data = sb, ps_dev = dev\<rparr>" "devices ?y dev = Some d"
    "sbuffs ?y sb = Some s" "heap_owns ?y sb"
    using x dev(2) heap(2) ready(2) by simp_all
  obtain z where z: "send_sync (mports mc) ps ?y = Inr z"
    "hw z = card_transmit (mports mc) (dev_iomem d) (take 42 (sdata s)) 42 (hw ?y)" "sbuffs z = (sbuffs ?y)(sb := None)"
    "tasks z = tasks ?y" "thead z = thead ?y" "ttail z = ttail ?y" "recv_size z = recv_size ?y" "devices z = devices ?y"
    "heap_ready z" "heap_owns z = heap_owns ?y"
    by (rule send_sync_last [OF nz(2) y(1) dev(1) y(2) nz(1) y(3) x(5,6,8) ready(1) y(4)])
  have run: "?run (fn_send_sync ka) ps ?y = Inr z" unfolding kernel_tasks [OF fns] by (rule z(1))
  have t: "tasks x t = Some ?k" "tasks z t = Some ?k" "heap_owns z t" "refs ?k = 1"
    using x(2) z(4,10) ready(2) heap(2) by simp_all
  obtain mc2 c2 where p: "task_poll_for_work ?run (Suc 1) x =
      task_poll_for_work ?run 1 (z\<lparr>kmem := mc2, heap_currentObjects := c2, tasks := (tasks z)(t := None)\<rparr>)"
    "heap_ready (z\<lparr>kmem := mc2, heap_currentObjects := c2, tasks := (tasks z)(t := None)\<rparr>)"
    by (rule poll_one [where run = ?run, OF x(3) nz(3) t(1) run t(2,4) z(9) t(3)])
  let ?r = "z\<lparr>kmem := mc2, heap_currentObjects := c2, tasks := (tasks z)(t := None)\<rparr>"
  have empty: "tqueue ?r []" using z(5) by (simp add: tqueue_def)
  have "task_poll_for_work ?run 3 w = Inr ?r"
    using x(1) p(1) task_get_empty [OF empty] by (simp add: numeral_3_eq_3 numeral_2_eq_2)
  then show ?thesis using empty p(2) z x by (intro exI [of _ ?r]) simp
qed

text \<open>A block at 33456 with device 8 and a request for 10.0.0.2 from 10.0.0.7, and the task 33584 that handles it.\<close>

definition demo_block :: "u8 list" where
  "demo_block = [8, 0, 0, 0, 0, 0, 0, 0] @ [2, 0, 0, 0, 0, 1, 2, 0, 0, 0, 0, 7, 8, 6] @ demo_arp 1"

definition demo_addrs :: "kaddrs \<Rightarrow> kaddrs" where
  "demo_addrs ka = ka\<lparr>fn_read_keys := 1, fn_user_task := 2, fn_send_sync := 3, fn_dispatch := 4, fn_ne2k_send := 77\<rparr>"

lemma demo_block_request:
  assumes "read_mem m 33456 50 = demo_block"
  shows "load64 m 33456 = 8" "arp_asks (read_mem m (33456 + 8) 42) demo_device [2, 0, 0, 0, 0, 7] 0x0a000007"
proof -
  have "read_mem m 33456 8 = take 8 (read_mem m 33456 50)" "read_mem m (33456 + 8) 42 = drop 8 (read_mem m 33456 50)"
    by (rule nth_equalityI; simp add: add.assoc [symmetric])+
  then have r: "read_mem m 33456 8 = [8, 0, 0, 0, 0, 0, 0, 0]"
    "read_mem m (33456 + 8) 42 = [2, 0, 0, 0, 0, 1, 2, 0, 0, 0, 0, 7, 8, 6] @ demo_arp 1"
    using assms by (simp_all add: demo_block_def)
  show "load64 m 33456 = 8" unfolding load64_def r(1) by simp
  have "get16 ([2, 0, 0, 0, 0, 1, 2, 0, 0, 0, 0, 7, 8, 6] @ demo_arp 1) 12 = Inr (ntos 0x0806)"
    by (simp add: get16_def get_bytes_def ntos_def)
  then show "arp_asks (read_mem m (33456 + 8) 42) demo_device [2, 0, 0, 0, 0, 7] 0x0a000007"
    unfolding r(2) by (simp add: arp_asks_def demo_arp_fields demo_device_def)
qed

theorem arp_request_to_card_witness:
  "\<forall>(ka :: kaddrs) (mc :: u16 list machine). \<exists>(w :: u16 list sysworld) w'.
     task_poll_for_work (kernel_task mc 0 (demo_addrs ka) (\<lambda>u. Inr) Inr) 3 w = Inr w' \<and>
     hw w' = card_transmit (mports mc) 0xc000 ([2, 0, 0, 0, 0, 7, 2, 0, 0, 0, 0, 1, 8, 6, 0, 1, 8, 0, 6, 4, 0, 2,
       2, 0, 0, 0, 0, 1, 10, 0, 0, 2, 2, 0, 0, 0, 0, 7, 10, 0, 0, 7]) 42 (hw w) \<and> tqueue w' []"
proof (intro allI)
  fix ka :: kaddrs and mc :: "u16 list machine"
  let ?ka = "demo_addrs ka"
  have fns: "distinct [fn_read_keys ?ka, fn_user_task ?ka, fn_send_sync ?ka, fn_dispatch ?ka]" "fn_dispatch ?ka = 4"
      "fn_ne2k_send ?ka = 77" by (simp_all add: demo_addrs_def)
  have small: "unat (66 :: u64) \<le> 120" "unat (24 :: u64) \<le> 120" "unat (32 :: u64) \<le> 120" "33000 \<le> unat (33456 :: u64)"
      "unat (33456 :: u64) + length demo_block < 2 ^ 63" "demo_block \<noteq> []" "length demo_block = 50"
    by (simp_all add: demo_block_def demo_arp_def)
  obtain h h1 h2 h3 :: "u16 list sysworld" where h: "boot_heap h 0" "kmem_alloc h 66 = Inr (32816, h1)"
      "kmem_alloc h1 24 = Inr (32944, h2)" "kmem_alloc h2 32 = Inr (33072, h3)" "read_mem (kmem h) 33456 50 = demo_block"
    using boot_alloc_three [OF small(1-6), of "kheap.more (demo_sys 0)"] unfolding small(7) by blast
  let ?k = "\<lparr>task_fn = fn_dispatch ?ka, user = 33456, refs = 1, tnext = 0\<rparr>"
  let ?w = "h\<lparr>devices := [8 \<mapsto> demo_device], tasks := [33584 \<mapsto> ?k], thead := 33584, ttail := 33584, recv_size := [33456 \<mapsto> 42]\<rparr>"
  have own: "heap_owns h (32816 + of_nat (128 * c))" if "c < 60" for c by (rule boot_heap_ready(2) [OF h(1) that])
  have owns: "\<forall>p\<in>{33584, 33456, 32816, 32944, 33072}. heap_owns h p"
    using own [of 6] own [of 5] own [of 0] own [of 1] own [of 2] by simp
  have heap: "heap_ready ?w" "heap_owns ?w = heap_owns h"
    using heap_ready_cong [of ?w h] boot_heap_ready(1) [OF h(1)] by simp_all
  have same: "same_heap h ?w" by (simp add: same_heap_def)
  obtain u1 where u1: "kmem_alloc ?w 66 = Inr (32816, u1)" "same_heap h1 u1" using kmem_alloc_same [OF h(2) same] by blast
  obtain u2 where u2: "kmem_alloc u1 24 = Inr (32944, u2)" "same_heap h2 u2" using kmem_alloc_same [OF h(3) u1(2)] by blast
  obtain u3 where u3: "kmem_alloc u2 32 = Inr (33072, u3)" using kmem_alloc_same [OF h(4) u2(2)] by blast
  have req: "load64 (kmem h) 33456 = 8" "arp_asks (read_mem (kmem h) 33464 42) demo_device [2, 0, 0, 0, 0, 7] 0x0a000007"
    using demo_block_request [OF h(5)] by simp_all
  have "\<exists>w'. task_poll_for_work (kernel_task mc 0 ?ka (\<lambda>u. Inr) Inr) 3 ?w = Inr w' \<and>
    hw w' = card_transmit (mports mc) (dev_iomem demo_device) (arp_answer demo_device [2, 0, 0, 0, 0, 7] 0x0a000007) 42 (hw ?w) \<and>
    tqueue w' [] \<and> tasks w' = (tasks ?w)(33584 := None, 33072 := None) \<and> sbuffs w' = (sbuffs ?w)(32816 := None) \<and>
    recv_size w' = (recv_size ?w)(33456 := None) \<and> heap_ready w'"
    by (rule arp_request_to_card [where dev = 8 and n = 42, OF fns(1) _ _ _ _ _ _ _ _ _ _ heap(1) _ u1(1) u2(1) u3])
      (simp_all add: req fns(3) heap(2) owns, simp_all add: tqueue_def demo_device_def)
  then obtain w' where w': "task_poll_for_work (kernel_task mc 0 ?ka (\<lambda>u. Inr) Inr) 3 ?w = Inr w'" "tqueue w' []"
    "hw w' = card_transmit (mports mc) (dev_iomem demo_device) (arp_answer demo_device [2, 0, 0, 0, 0, 7] 0x0a000007) 42 (hw ?w)"
    by blast
  have answer: "arp_answer demo_device [2, 0, 0, 0, 0, 7] 0x0a000007 =
      [2, 0, 0, 0, 0, 7, 2, 0, 0, 0, 0, 1, 8, 6, 0, 1, 8, 0, 6, 4, 0, 2,
       2, 0, 0, 0, 0, 1, 10, 0, 0, 2, 2, 0, 0, 0, 0, 7, 10, 0, 0, 7]" "dev_iomem demo_device = 0xc000"
    by (simp_all add: arp_answer_def demo_device_def split_le_def byte_at_def upt_rec)
  show "\<exists>(w :: u16 list sysworld) w'. task_poll_for_work (kernel_task mc 0 ?ka (\<lambda>u. Inr) Inr) 3 w = Inr w' \<and>
     hw w' = card_transmit (mports mc) 0xc000 ([2, 0, 0, 0, 0, 7, 2, 0, 0, 0, 0, 1, 8, 6, 0, 1, 8, 0, 6, 4, 0, 2,
       2, 0, 0, 0, 0, 1, 10, 0, 0, 2, 2, 0, 0, 0, 0, 7, 10, 0, 0, 7]) 42 (hw w) \<and> tqueue w' []"
    by (intro exI [of _ ?w] exI [of _ w'] conjI) (rule w'(1), rule w'(3) [unfolded answer], rule w'(2))
qed

end
