(* ===== verification/Spec2Isabelle.thy ===== *)
theory Spec2Isabelle
  imports Prelude CString KMemory KList KMap KTask Console Interrupt Keyboard NetBytes NetDev Ip Tcp TcpStates NetIn Fs Clock Pci Services Boot FatDir Ata Disk Ne2k Ne2kProps HashTable Kernel MemMap Serial NetTypes TcpSafe KernelTypes TcpOpen ArpFlow
begin

text \<open>
  Verification of BadOS-64, a 64-bit hobby kernel written in C (src/src).

  \<^bold>\<open>The program.\<close> \<open>main\<close> (main.c) sets the console, the descriptor tables and the interrupt gates up, builds the
  heap from the boot loader's memory map, probes PCI, starts the NE2000 network card (ne2k.c), keyboard, ATA
  disks (ata.c), the services and the clock, prints a file and returns to entry.asm, which polls for work for ever. From
  then on everything starts in an interrupt handler (keyboard, timer, network card), which does
  little itself and enqueues a task (task.c); tasks read keys, redraw the clock, hand received frames to the network
  stack and copy frames to the card. The stack (net/) goes from ethernet.c over arp.c and ip.c to udp.c and tcp.c,
  whose listeners are the services echo.c and http.c; http.c reads its page through vfs.c, fat32.c and ata.c.
  All objects come from the heap of memory.c.

  \<^bold>\<open>State.\<close> One record grows with the components, in the order of the theories: \<open>kheap\<close> (byte memory and the heap's
  globals), \<open>lheap\<close> (list nodes), \<open>mheap\<close> (map entries and bucket arrays), \<open>theap\<close> (tasks, queue,
  interrupt flag and handler table), \<open>iworld\<close> (console, interrupt descriptors), \<open>kworld\<close> (keyboard), \<open>nworld\<close>
  (socket buffers, devices, ARP table, streams, listeners), \<open>fworld\<close> (file systems), \<open>cworld\<close> (clock), \<open>bworld\<close>
  (processes), \<open>hworld\<close> (hardware behind the ports, ATA devices), \<open>eworld\<close> (received blocks, pending sends) and
  \<open>sysworld\<close>. What the code reads at byte offsets (heap blocks, boot sectors, directory entries, strings, received
  frames) is byte memory; structs whose fields are only used by name are typed stores, partial maps from
  the address \<open>kmem_alloc\<close> returned. Integers have the width of the code, and wrap. An operation that panics, dereferences
  null, reads or writes out of bounds, divides by zero or runs for ever gives an error value (type \<open>res\<close>, theory Prelude).

  \<^bold>\<open>Theories.\<close>
  Prelude: results, memory, byte order of words, the collections \<open>res_simps\<close>, \<open>mem_simps\<close>, \<open>layout\<close>.
  CString: common.c. KMemory: memory.c. KList, KMap: util/list.c, util/map.c. KTask: task.c. Console: console.c and panic.c.
  Interrupt: interrupt.c. Keyboard: keyboard.c. NetBytes: net/ntox.h and \<open>checksum\<close>. NetDev: net/sbuff, ethernet output, net/arp.c.
  Ip: output of net/ip.c, net/udp.c. Tcp: net/tcp.c. NetIn: incoming frames of ethernet.c and ip.c. Fs: fs/vfs.c, fs/fat32.c.
  Clock: rtc.c, service/clock.c. Pci: pci.c. Services: service/echo.c, service/http.c. Boot: process.c and main.c but for \<open>main\<close>.
  Ata: port I/O of common.c, ata.c. Ne2k: ne2k.c. HashTable: hashtable.h. Serial: serial.c. Kernel: \<open>main\<close> and all calls
  through function pointers. Properties alone: TcpStates, TcpOpen,
  ArpFlow, FatDir, Disk, Ne2kProps, MemMap, NetTypes, TcpSafe, KernelTypes, and this theory.

  \<^bold>\<open>Interfaces.\<close> Each is a locale with its laws as assumptions, interpreted on the model's definitions:
  \<open>object_heap\<close> (freeing what one owns; kmem_free), \<open>fifo\<close> (the task queue and the keyboard ring buffer), \<open>finite_map\<close> (map.c), \<open>byte_swap\<close>
  (ntos, ntol), \<open>addr_cache\<close> (the ARP table, for ip_send), \<open>net_view\<close> (what sending leaves alone, for the states of TCP streams),
  \<open>storage\<close> (read_sector of ATA, for FAT32).

  \<^bold>\<open>What is shown.\<close>
  Heap: allocation is first fit over blocks and their masks and marks exactly the run it takes, succeeds whenever there is one, and
  freeing undoes it for the chunks where the code's arithmetic is right; start-up turns the memory map into a heap of all usable
  regions, with the chunks of each block counted. Lists, maps and queues refine sequences and finite maps; polling runs the queued
  tasks in order, whatever they do to memory, as long as they leave the queue alone. Console: every access to the screen is checked in the
  model, scrolling and clearing included, and none is out of bounds; output is what the format denotes, and numbers read back. Keyboard: from the interrupt to the screen no key is lost or reordered while at most 31 wait.
  Network: headers and checksums byte by byte, resolution with ARP followed by delivery, dispatch of datagrams, the TCP state machine as
  a step relation that segments without SYN refine and do not run backwards unless the application closes the stream (\<open>app_contract\<close>:
  it changes no other state, which the services keep), the handshake that opens a connection; the card's driver moves the bytes of frames
  in both directions, exactly these for even sizes, and a received ARP request ends as the answer on the card.
  Files: reading a name through all layers returns the first bytes of the file that the first sector of the root directory, as a list of
  16 entries, has under the name.
  Memory safety: a TCP segment whose header and data lie inside the packet never makes the stack reach outside a packet, a socket buffer,
  a read buffer or the ARP table (TcpSafe: \<open>in_bounds\<close>, with the room at the head of a socket buffer carried along); the driver and
  the echo server keep the contract \<open>env_safe\<close> this needs. Malformed segments can reach outside (\<open>tcp_short_segment_overruns\<close>).
  Preservation: start-up and every interrupt and task that returns leave buffers, streams, devices and the ARP table well formed
  (\<open>kernel_step\<close> in KernelTypes). A handler or task that faults has no step: the model stops where the C kernel would go on with
  damaged memory, as after the 129th ARP reply.
  Where the code does not do what it means to, the theorem states what it does, and its text says so.

  \<^bold>\<open>Fuel.\<close> Walks along linked lists have fuel \<open>walk_fuel\<close> = 2 ^ 64, more than the distinct addresses of nodes, so a walk
  that runs out of it is on a cycle and does not return. Loops that wait for hardware take their fuel as an argument; theorems about
  them give a bound that is enough. \<open>read_keys\<close> has fuel 32, the size of the ring buffer, as each pop moves the read position on.
  \<open>task_poll_for_work\<close> is shown to end when tasks do not enqueue, and a poll is a sequence of kernel steps.

  \<^bold>\<open>Parameters.\<close> The addresses of functions, literals and stack frames (\<open>kaddrs\<close>); hardware: what ports (\<open>port_io\<close>), PCI configuration space,
  clock registers and \<open>cpuid\<close> return. Below the kernel's top level the calls through pointers are parameters too (\<open>net_env\<close>,
  \<open>fs_env\<close>); Kernel and Disk fill them with the functions of the kernel. Theorems about drives and cards state what they rely on
  (\<open>pio_drive\<close>, \<open>uart\<close>), and a simulated drive, card or clock shows that it can hold.

  \<^bold>\<open>Not modelled.\<close> entry.asm: saving and restoring registers, \<open>iretq\<close>, system calls, the switch to ring 3; so \<open>init_syscall\<close> does nothing in
  \<open>kernel_main\<close>, and what user code does is a parameter. Interrupts in the middle of a task: steps are whole handlers and tasks. Waits on the
  keyboard controller's and the clock's status are taken to end or have fuel; port writes of console, keyboard and interrupt controller are
  logged. \<open>raw_sbuff_alloc\<close> has no return statement; the model returns the buffer, as its callers expect.
  The tests, the disk image tools and the boot loader Pure64 are not part of the kernel.
\<close>

subsection \<open>Across components\<close>

text \<open>A frame of type 0x0806 that answers for address \<open>a\<close> is learned.\<close>

lemma ethernet_arp_learned:
  assumes dev: "dev \<noteq> 0" "devices w dev = Some d" and rep: "arp_rep (arp_tab w) es" "length es < 128"
    and frame: "get16 frame 12 = Inr (ntos 0x0806)" "get32 (drop 14 frame) 24 = Inr (ntol (dev_ip d))"
      "get16 (drop 14 frame) 6 = Inr (ntos 2)" "get_bytes (drop 14 frame) 8 6 = Inr m" "get32 (drop 14 frame) 14 = Inr (ntol a)"
  obtains t where "ethernet_packet env dev frame w = Inr (w\<lparr>arp_tab := t\<rparr>)" "arp_rep t (es @ [(a, m)])"
proof -
  obtain t where t: "arp_table_add m a (arp_tab w) = Inr t" "arp_rep t (es @ [(a, m)])"
    using arp_cache.add_rep [OF rep] by blast
  have "ethernet_packet env dev frame w = arp_packet env dev (drop 14 frame) w"
    using frame(1) by (simp add: ethernet_packet_def ntos.swap_swap)
  also have "\<dots> = Inr (w\<lparr>arp_tab := t\<rparr>)"
    using dev frame(2-5) t(1)
    by (simp add: arp_packet_def deref_def ntos.swap_swap ntol.swap_swap arp_store_def)
  finally show ?thesis using t(2) by (rule that)
qed

text \<open>
  C14. Resolution and delivery fit together: after a frame with an ARP reply for an address not
  known before, \<open>ip_send\<close> to that address hands the device a frame addressed to the MAC
  the reply named, carrying an IPv4 header whose checksum verifies and the payload.
\<close>

theorem arp_reply_then_ip_send:
  fixes w :: "'a nworld_scheme"
  assumes dev: "dev \<noteq> 0" "devices w dev = Some d" "length (dev_mac d) = 6"
    and rep: "arp_rep (arp_tab w) es" "length es < 128" "map_of es a = None"
    and frame: "get16 frame 12 = Inr (ntos 0x0806)" "get32 (drop 14 frame) 24 = Inr (ntol (dev_ip d))"
      "get16 (drop 14 frame) 6 = Inr (ntos 2)" "get_bytes (drop 14 frame) 8 6 = Inr m" "get32 (drop 14 frame) 14 = Inr (ntol a)"
    and sb: "sb \<noteq> 0" "sbuffs w sb = Some s" "sbuff_ok s" "34 \<le> shead s"
  shows "\<exists>w1 s' ck. ethernet_packet env dev frame w = Inr w1 \<and>
    ip_send env sb proto a dev w1 =
      bind_res (send_call env (dev_send d) dev sb (w1\<lparr>sbuffs := (sbuffs w1)(sb \<mapsto> s')\<rparr>)) (\<lambda>w. Inr (EOK, w)) \<and>
    contents s' = m @ dev_mac d @ [8, 0] @ ipv4_header (currSize s + 20) proto ck (dev_ip d) a @ contents s \<and>
    csum_verify (ipv4_header (currSize s + 20) proto ck (dev_ip d) a) 20 = Inr 0xffff"
proof -
  obtain t where t: "ethernet_packet env dev frame w = Inr (w\<lparr>arp_tab := t\<rparr>)" "arp_rep t (es @ [(a, m)])"
    by (rule ethernet_arp_learned [OF dev(1,2) rep(1,2) frame])
  let ?w = "w\<lparr>arp_tab := t\<rparr>"
  have m: "map_of (es @ [(a, m)]) a = Some m" "length m = 6"
    using rep(3) frame(4) by (auto simp: map_add_def get_bytes_def split: if_splits)
  obtain s' ck where "ip_send env sb proto a dev ?w =
      bind_res (send_call env (dev_send d) dev sb (?w\<lparr>sbuffs := (sbuffs ?w)(sb \<mapsto> s')\<rparr>)) (\<lambda>w. Inr (EOK, w))"
    "contents s' = m @ dev_mac d @ [8, 0] @ ipv4_header (currSize s + 20) proto ck (dev_ip d) a @ contents s"
    "csum_verify (ipv4_header (currSize s + 20) proto ck (dev_ip d) a) 20 = Inr 0xffff"
    by (rule ip_send_known [where w = ?w and sb = sb and s = s and dev = dev and d = d and es = "es @ [(a, m)]" and dest = a
        and m = m and env = env and proto = proto]) (use dev sb t(2) m in simp_all)
  with t(1) show ?thesis by blast
qed

theorem arp_reply_then_ip_send_witness:
  "\<exists>w1 s' ck. ethernet_packet demo_env 8 ([2, 0, 0, 0, 0, 1, 2, 0, 0, 0, 0, 7, 8, 6] @ demo_arp 2)
       (demo_net [16 \<mapsto> \<lparr>totalSize = 42, currSize = 8, shead = 34, srefs = 1, sdata = replicate 49 1\<rparr>] [8 \<mapsto> demo_device] empty_arp)
     = Inr w1 \<and> ip_send demo_env 16 17 0x0a000007 8 w1 = Inr (0, w1\<lparr>sbuffs := (sbuffs w1)(16 \<mapsto> s')\<rparr>) \<and>
     contents s' = [2, 0, 0, 0, 0, 7, 2, 0, 0, 0, 0, 1, 8, 0] @ ipv4_header 28 17 ck 0x0a000002 0x0a000007 @ replicate 8 1"
proof -
  let ?s = "\<lparr>totalSize = 42, currSize = 8, shead = 34, srefs = 1, sdata = replicate 49 1\<rparr>"
  let ?w = "demo_net [16 \<mapsto> ?s] [8 \<mapsto> demo_device] empty_arp" and ?f = "[2, 0, 0, 0, 0, 1, 2, 0, 0, 0, 0, 7, 8, 6] @ demo_arp 2"
  have rep: "arp_rep (arp_tab ?w) []" by (simp add: empty_arp_rep)
  have f: "get16 ?f 12 = Inr (ntos 0x0806)" by (simp add: demo_arp_def get16_def get_bytes_def ntos_def)
  have d: "drop 14 ?f = demo_arp 2" "dev_ip demo_device = 0x0a000002" "dev_send demo_device = 77" "dev_mac demo_device = [2, 0, 0, 0, 0, 1]"
    by (simp_all add: demo_device_def)
  have "\<exists>w1 s' ck. ethernet_packet demo_env 8 ?f ?w = Inr w1 \<and>
    ip_send demo_env 16 17 0x0a000007 8 w1 =
      bind_res (send_call demo_env (dev_send demo_device) 8 16 (w1\<lparr>sbuffs := (sbuffs w1)(16 \<mapsto> s')\<rparr>)) (\<lambda>w. Inr (EOK, w)) \<and>
    contents s' = [2, 0, 0, 0, 0, 7] @ dev_mac demo_device @ [8, 0] @ ipv4_header (currSize ?s + 20) 17 ck (dev_ip demo_device) 0x0a000007 @ contents ?s \<and>
    csum_verify (ipv4_header (currSize ?s + 20) 17 ck (dev_ip demo_device) 0x0a000007) 20 = Inr 0xffff"
    by (rule arp_reply_then_ip_send [OF _ _ _ rep _ _ f]) (simp_all only: d demo_arp_fields, simp_all add: sbuff_ok_def)
  then show ?thesis by (auto simp: d demo_env_def EOK_def contents_def)
qed

end
